(* ===== verification/Prelude.thy ===== *)
theory Prelude
  imports Main "HOL-Library.Word"
begin

text \<open>
  Shared vocabulary of the development: Go's fixed width integers and byte slices, the error
  values the storage code returns, the parts of the standard library the sources call
  (\<open>encoding/binary\<close>, \<open>math/bits\<close>, \<open>bytes\<close>, \<open>cmp\<close>), and the generic
  lemmas on bits, byte lists and comparison functions that the component theories use.
\<close>

unbundle bit_operations_syntax

named_theorems codec_simps \<open>little endian codecs and the lengths they produce\<close>

section \<open>Types\<close>

type_synonym byte = "8 word"
type_synonym bytes = "byte list"
type_synonym uint8 = "8 word"
type_synonym uint16 = "16 word"
type_synonym uint32 = "32 word"
type_synonym uint64 = "64 word"

text \<open>
  Status codes of \<open>google.golang.org/grpc/codes\<close> that the modelled code returns, and the
  error values it distinguishes. \<open>Panic\<close> stands for a call of \<open>panic\<close> or a run time
  panic of the language. Error messages are not modelled: no code inspects them.
\<close>

datatype code = InvalidArgument | NotFound | Internal | Unavailable | FailedPrecondition | Unimplemented

datatype go_error =
    Status code
  | ErrRecordInvalidOrExpired
  | ErrEOF
  | ErrUnexpectedEOF
  | ErrOther nat
  | Panic

type_synonym 'a result = "go_error + 'a"

definition bindE :: "'a result \<Rightarrow> ('a \<Rightarrow> 'b result) \<Rightarrow> 'b result" where
  "bindE m f = (case m of Inl e \<Rightarrow> Inl e | Inr x \<Rightarrow> f x)"

lemma bindE_simps [simp]:
  "bindE (Inl e) f = Inl e"
  "bindE (Inr x) f = f x"
  by (simp_all add: bindE_def)

lemma bindE_eq_Inr [simp]: "bindE m f = Inr y \<longleftrightarrow> (\<exists>x. m = Inr x \<and> f x = Inr y)"
  by (cases m) auto

section \<open>encoding/binary\<close>

text \<open>
  \<open>le_bytes k w\<close> are the \<open>k\<close> least significant bytes of \<open>w\<close>, least significant
  first: what \<open>binary.LittleEndian.PutUint16/32/64\<close> write for \<open>k = 2, 4, 8\<close>. The big endian
  functions write the reverse. \<open>of_le\<close> reads such a sequence back.
\<close>

definition le_bytes :: "nat \<Rightarrow> 'a::len word \<Rightarrow> bytes" where
  "le_bytes k w = map (\<lambda>i. ucast (drop_bit (8 * i) w)) [0..<k]"

fun of_le :: "bytes \<Rightarrow> 'a::len word" where
  "of_le [] = 0"
| "of_le (b # bs) = ucast b OR push_bit 8 (of_le bs)"

definition of_be :: "bytes \<Rightarrow> 'a::len word" where
  "of_be bs = of_le (rev bs)"

lemma length_le_bytes [simp, codec_simps]: "length (le_bytes k w) = k"
  by (simp add: le_bytes_def)

lemma nth_le_bytes [codec_simps]: "i < k \<Longrightarrow> le_bytes k w ! i = ucast (drop_bit (8 * i) w)"
  by (simp add: le_bytes_def)

lemma bit_byte_ge_8: "8 \<le> n \<Longrightarrow> \<not> bit (b::byte) n"
  using bit_imp_le_length [of b n] by auto

lemma of_le_snoc: "of_le (bs @ [b]) = of_le bs OR push_bit (8 * length bs) (ucast b)"
  by (induction bs) (simp_all add: push_bit_or or.assoc)

lemma of_be_Cons: "of_be (b # bs) = push_bit (8 * length bs) (ucast b) OR of_be bs"
  by (simp add: of_be_def of_le_snoc or.commute)

lemma bit_of_le:
  "bit (of_le bs :: 'a::len word) n \<longleftrightarrow>
     n < LENGTH('a) \<and> n div 8 < length bs \<and> bit (bs ! (n div 8)) (n mod 8)"
proof (induction bs arbitrary: n)
  case Nil
  then show ?case by simp
next
  case (Cons b bs)
  show ?case
  proof (cases "n < 8")
    case True
    then show ?thesis by (auto simp: bit_simps)
  next
    case False
    then obtain m where m: "n = m + 8" by (metis add.commute le_Suc_ex not_less)
    have "(m + 8) div 8 = Suc (m div 8)" by simp
    with m show ?thesis
      by (auto simp: bit_simps Cons.IH bit_byte_ge_8 dest: bit_imp_le_length)
  qed
qed

lemma of_le_le_bytes [codec_simps]: "of_le (le_bytes k w) = take_bit (8 * k) (w :: 'a::len word)"
proof (rule bit_word_eqI)
  fix n assume n: "n < LENGTH('a)"
  have "8 * (n div 8) + n mod 8 = n" by simp
  moreover have "n div 8 < k \<longleftrightarrow> n < 8 * k" by auto
  ultimately show "bit (of_le (le_bytes k w) :: 'a word) n = bit (take_bit (8 * k) w) n"
    using n by (auto simp: bit_of_le nth_le_bytes bit_simps add.commute)
qed

lemma le_bytes_of_le [codec_simps]:
  assumes "length bs = k" "8 * k \<le> LENGTH('a)"
  shows "le_bytes k (of_le bs :: 'a::len word) = bs"
proof (rule nth_equalityI)
  show "length (le_bytes k (of_le bs :: 'a word)) = length bs" using assms by simp
next
  fix i assume "i < length (le_bytes k (of_le bs :: 'a word))"
  then have i: "i < k" by simp
  show "le_bytes k (of_le bs :: 'a word) ! i = bs ! i"
  proof (rule bit_word_eqI)
    fix n assume n: "n < LENGTH(8)"
    have "(8 * i + n) div 8 = i" "(8 * i + n) mod 8 = n" using n by auto
    moreover have "8 * i + n < LENGTH('a)" using i n assms by auto
    ultimately show "bit (le_bytes k (of_le bs :: 'a word) ! i) n = bit (bs ! i) n"
      using i n assms by (simp add: nth_le_bytes bit_simps bit_of_le)
  qed
qed

lemma of_le_inject:
  assumes "length xs = length ys" "8 * length xs \<le> LENGTH('a)"
    and "(of_le xs :: 'a::len word) = of_le ys"
  shows "xs = ys"
  using assms le_bytes_of_le by metis

section \<open>Widening and disjoint bits\<close>

lemma unat_less_exp: "unat (w :: 'a::len word) < 2 ^ LENGTH('a)"
  by simp

lemma unat_bounds:
  "unat (b :: byte) < 256"
  "unat (w :: uint16) < 65536"
  "unat (x :: uint32) < 4294967296"
  "unat (y :: uint64) < 18446744073709551616"
  using unat_less_exp [of b] unat_less_exp [of w] unat_less_exp [of x] unat_less_exp [of y]
  by (simp_all del: unsigned_less)

lemma unat_ucast_up:
  assumes "LENGTH('a::len) \<le> LENGTH('b::len)"
  shows "unat (ucast (w :: 'a word) :: 'b word) = unat w"
proof -
  have "unat w < 2 ^ LENGTH('b)"
    using unat_less_exp [of w] power_increasing [OF assms, of "2::nat"] by linarith
  then show ?thesis by (simp add: unsigned_ucast_eq take_bit_nat_eq_self)
qed

lemma unat_ucast_up_byte [simp]:
  "unat (ucast (b :: byte) :: uint16) = unat b"
  "unat (ucast (b :: byte) :: uint32) = unat b"
  "unat (ucast (b :: byte) :: uint64) = unat b"
  by (simp_all add: unat_ucast_up)

lemma unat_push_bit:
  assumes "unat w * 2 ^ n < 2 ^ LENGTH('a)"
  shows "unat (push_bit n (w :: 'a::len word)) = unat w * 2 ^ n"
proof -
  have "unat (push_bit n w) = take_bit LENGTH('a) (push_bit n (unat w))"
    by (fact unsigned_push_bit_eq)
  also have "\<dots> = unat w * 2 ^ n"
    by (simp only: push_bit_eq_mult take_bit_nat_eq_self [OF assms])
  finally show ?thesis .
qed

lemma unat_drop: "unat (drop_bit n w) = unat (w :: 'a::len word) div 2 ^ n"
  by (simp only: unsigned_drop_bit_eq) (simp add: drop_bit_eq_div take_bit_nat_eq_self unat_less_exp)

lemma unat_mask_word: "e \<le> LENGTH('a) \<Longrightarrow> unat (mask e :: 'a::len word) = 2 ^ e - 1"
proof -
  assume "e \<le> LENGTH('a)"
  then have "unat (mask e :: 'a word) = mask e"
    by (intro bit_eqI) (auto simp: bit_simps)
  then show ?thesis by (simp add: mask_eq_exp_minus_1)
qed

section \<open>math/bits\<close>

text \<open>\<open>bits.Len64\<close>: the number of bits needed to represent a value.\<close>

fun bit_length :: "nat \<Rightarrow> nat" where
  "bit_length n = (if n = 0 then 0 else Suc (bit_length (n div 2)))"

declare bit_length.simps [simp del]

definition bits_Len :: "'a::len word \<Rightarrow> nat" where
  "bits_Len w = bit_length (unat w)"

definition LeadingZeros8 :: "byte \<Rightarrow> nat" where
  "LeadingZeros8 b = 8 - bits_Len b"

lemma bit_length_0 [simp]: "bit_length 0 = 0"
  by (simp add: bit_length.simps)

lemma bit_length_pos: "0 < n \<Longrightarrow> bit_length n = Suc (bit_length (n div 2))"
  by (simp add: bit_length.simps)

lemma bit_length_upper: "n < 2 ^ bit_length n"
proof (induction n rule: bit_length.induct)
  case (1 n)
  then show ?case by (cases "n = 0") (auto simp: bit_length_pos)
qed

lemma bit_length_le: "n < 2 ^ k \<Longrightarrow> bit_length n \<le> k"
proof (induction n arbitrary: k rule: bit_length.induct)
  case (1 n)
  show ?case
  proof (cases "n = 0")
    case False
    with 1(2) obtain k' where k: "k = Suc k'" by (cases k) auto
    with 1(2) have "n div 2 < 2 ^ k'" by auto
    with 1(1) False k show ?thesis by (simp add: bit_length_pos)
  qed simp
qed

lemma bit_length_le_iff: "bit_length n \<le> k \<longleftrightarrow> n < 2 ^ k"
proof
  assume "bit_length n \<le> k"
  then have "(2::nat) ^ bit_length n \<le> 2 ^ k" by simp
  with bit_length_upper [of n] show "n < 2 ^ k" by linarith
qed (rule bit_length_le)

lemma bit_length_mono: "m \<le> n \<Longrightarrow> bit_length m \<le> bit_length n"
  using bit_length_upper [of n] by (intro bit_length_le) linarith

lemma bit_length_eqI: "2 ^ k \<le> n \<Longrightarrow> n < 2 ^ Suc k \<Longrightarrow> bit_length n = Suc k"
  using bit_length_le_iff [of n "Suc k"] bit_length_le_iff [of n k] by linarith

lemma bit_length_lower: "0 < n \<Longrightarrow> 2 ^ (bit_length n - 1) \<le> n"
  using bit_length_le_iff [of n "bit_length n - 1"] bit_length_pos [of n] by force

lemma bits_Len_le: "bits_Len (w :: 'a::len word) \<le> LENGTH('a)"
  by (auto simp: bits_Len_def intro: bit_length_le)

text \<open>\<open>bits.Add64\<close>: the sum modulo $2^{64}$ and the carry.\<close>

definition bits_Add64 :: "uint64 \<Rightarrow> uint64 \<Rightarrow> uint64 \<Rightarrow> uint64 \<times> uint64" where
  "bits_Add64 x y carry =
     (x + y + carry, if unat x + unat y + unat carry < 2 ^ 64 then 0 else 1)"

lemma unat_plus_no_carry:
  fixes x y :: uint64
  shows "unat x + unat y < 2 ^ 64 \<Longrightarrow> unat (x + y) = unat x + unat y"
  by (simp add: unat_word_ariths)

text \<open>Differences of \<open>uint64\<close> values that are converted to \<open>int64\<close>.\<close>

lemma sint_uint64:
  fixes d :: uint64
  shows "sint d = (if unat d < 2 ^ 63 then int (unat d) else int (unat d) - 2 ^ 64)"
proof -
  have u: "uint d < 2 ^ 64" "0 \<le> uint d" using unsigned_less [of d] by simp_all
  have "sint d = (uint d + 2 ^ 63) mod 2 ^ 64 - 2 ^ 63"
    by (simp add: sint_uint signed_take_bit_eq_take_bit_shift take_bit_eq_mod)
  also have "\<dots> = (if uint d < 2 ^ 63 then uint d else uint d - 2 ^ 64)"
  proof (cases "uint d < 2 ^ 63")
    case True
    then have "(uint d + 2 ^ 63) mod 2 ^ 64 = uint d + 2 ^ 63"
      using u by (intro mod_pos_pos_trivial) auto
    then show ?thesis using True by simp
  next
    case False
    then have "(uint d + 2 ^ 63 - 2 ^ 64) mod 2 ^ 64 = uint d + 2 ^ 63 - 2 ^ 64"
      using u by (intro mod_pos_pos_trivial) auto
    then show ?thesis using False minus_mod_self2 [of "uint d + 2 ^ 63" "2 ^ 64"] by simp
  qed
  finally have s: "sint d = (if uint d < 2 ^ 63 then uint d else uint d - 2 ^ 64)" .
  have "uint d = int (unat d)" by simp
  then show ?thesis unfolding s by (simp only: of_nat_less_numeral_power_cancel_iff)
qed

lemma sint_minus_pos:
  fixes x y :: uint64
  shows "0 < sint (x - y) \<longleftrightarrow> x \<noteq> y \<and> unat (x - y) < 2 ^ 63"
proof -
  define k where "k = unat (x - y)"
  have "k < 2 ^ 64" using unat_bounds(4) [of "x - y"] by (simp add: k_def)
  moreover have "x = y \<longleftrightarrow> k = 0" by (simp add: k_def unat_eq_zero)
  ultimately show ?thesis by (auto simp: sint_uint64 simp flip: k_def)
qed

section \<open>bytes and cmp\<close>

text \<open>\<open>cmp.Compare\<close> on ordered values and \<open>bytes.Compare\<close>: lexicographic order.\<close>

definition cmp_Compare :: "'a::linorder \<Rightarrow> 'a \<Rightarrow> int" where
  "cmp_Compare a b = (if a < b then -1 else if b < a then 1 else 0)"

fun bytes_Compare :: "bytes \<Rightarrow> bytes \<Rightarrow> int" where
  "bytes_Compare [] [] = 0"
| "bytes_Compare [] (y # ys) = -1"
| "bytes_Compare (x # xs) [] = 1"
| "bytes_Compare (x # xs) (y # ys) =
     (if x < y then -1 else if y < x then 1 else bytes_Compare xs ys)"

lemma cmp_Compare_simps [simp]:
  "cmp_Compare a b < 0 \<longleftrightarrow> a < b"
  "0 < cmp_Compare a b \<longleftrightarrow> b < a"
  "cmp_Compare a b = 0 \<longleftrightarrow> a = b"
  "0 \<le> cmp_Compare a b \<longleftrightarrow> b \<le> a"
  "cmp_Compare a b \<le> 0 \<longleftrightarrow> a \<le> b"
  by (auto simp: cmp_Compare_def)

lemma cmp_Compare_antisym: "cmp_Compare b a = - cmp_Compare a b"
  by (auto simp: cmp_Compare_def)

lemma bytes_Compare_refl [simp]: "bytes_Compare xs xs = 0"
  by (induction xs) auto

lemma bytes_Compare_eq_0 [simp]: "bytes_Compare xs ys = 0 \<longleftrightarrow> xs = ys"
  by (induction xs ys rule: bytes_Compare.induct) auto

lemma bytes_Compare_antisym: "bytes_Compare ys xs = - bytes_Compare xs ys"
  by (induction xs ys rule: bytes_Compare.induct) auto

lemma bytes_Compare_trans:
  "bytes_Compare xs ys < 0 \<Longrightarrow> bytes_Compare ys zs < 0 \<Longrightarrow> bytes_Compare xs zs < 0"
proof (induction xs ys arbitrary: zs rule: bytes_Compare.induct)
  case (2 y ys)
  then show ?case by (cases zs) auto
next
  case (4 x xs y ys)
  then show ?case by (cases zs) (auto split: if_splits)
qed auto

lemma bytes_Compare_range: "bytes_Compare xs ys \<in> {-1, 0, 1}"
  by (induction xs ys rule: bytes_Compare.induct) auto

section \<open>Writing into byte arrays\<close>

text \<open>
  \<open>copy(dst[off:], src)\<close> and the \<open>Put\<close> functions of \<open>encoding/binary\<close> on an
  array that is large enough.
\<close>

definition put_bytes :: "bytes \<Rightarrow> nat \<Rightarrow> bytes \<Rightarrow> bytes" where
  "put_bytes dst off src = take off dst @ src @ drop (off + length src) dst"

lemma length_put_bytes [simp]:
  "off + length src \<le> length dst \<Longrightarrow> length (put_bytes dst off src) = length dst"
  by (simp add: put_bytes_def)

lemma put_bytes_same:
  "off \<le> length dst \<Longrightarrow> length src = n \<Longrightarrow> take n (drop off (put_bytes dst off src)) = src"
  by (simp add: put_bytes_def)

lemma take_put_bytes: "n \<le> off \<Longrightarrow> off \<le> length dst \<Longrightarrow> take n (put_bytes dst off src) = take n dst"
  by (simp add: put_bytes_def)

lemma take_drop_put_bytes_before:
  "p + n \<le> off \<Longrightarrow> off \<le> length dst \<Longrightarrow>
   take n (drop p (put_bytes dst off src)) = take n (drop p dst)"
  by (rule nth_equalityI) (auto simp: put_bytes_def nth_append)

lemma take_drop_put_bytes_after:
  "off + length src \<le> p \<Longrightarrow> off + length src \<le> length dst \<Longrightarrow>
   take n (drop p (put_bytes dst off src)) = take n (drop p dst)"
  by (simp add: put_bytes_def)

end
