(* ===== verification/Float16.thy ===== *)
theory Float16
  imports Prelude
begin

text \<open>
  The 16 bit floating point format of \<open>pkg/encoding/float16/float16.go\<close>: no sign, eleven
  significand bits, five exponent bits. References store the memory needed to traverse a graph in
  this format, rounded up. The lemmas show that decoding is strictly monotone and that encoding is
  its upper adjoint: the least code whose value is not below the input.
\<close>

section \<open>Definitions\<close>

definition significandBits :: nat where "significandBits = 11"
definition significandMask :: nat where "significandMask = 2 ^ significandBits - 1"
definition significandLeadingBit :: nat where "significandLeadingBit = 2 ^ significandBits"
definition exponentBits :: nat where "exponentBits = 16 - significandBits"
definition exponentMax :: nat where "exponentMax = 2 ^ exponentBits - 1"

definition float16GetExponent :: "uint64 \<Rightarrow> int" where
  "float16GetExponent v = int (bits_Len v) - int significandBits - 1"

definition FromUint64RoundUp :: "uint64 \<Rightarrow> uint16 \<times> bool" where
  "FromUint64RoundUp v =
     (if v \<le> of_nat significandMask then (ucast v, True)
      else if v > push_bit (exponentMax - 1) (of_nat (significandLeadingBit + significandMask))
      then (0, False)
      else
        let v' = v + NOT (push_bit (nat (float16GetExponent v)) (NOT 0));
            shift = (of_int (float16GetExponent v') :: uint16)
        in (push_bit significandBits (shift + 1)
              OR (ucast (drop_bit (unat shift) v') AND of_nat significandMask), True))"

definition ToUint64 :: "uint16 \<Rightarrow> uint64" where
  "ToUint64 v =
     (let exponent = drop_bit significandBits v
      in if exponent = 0 then ucast v
         else
           let significand = (ucast v :: uint64) AND of_nat significandMask
           in push_bit (unat (exponent - 1)) (significand OR of_nat significandLeadingBit))"

lemmas float16_consts = significandBits_def significandMask_def significandLeadingBit_def
  exponentBits_def exponentMax_def

section \<open>The codec on natural numbers\<close>

definition float16_value :: "nat \<Rightarrow> nat" where
  "float16_value f = (if f < 2048 then f else (2048 + f mod 2048) * 2 ^ (f div 2048 - 1))"

lemma float16_value_normal:
  assumes "m < 2048"
  shows "float16_value (Suc e * 2048 + m) = (2048 + m) * 2 ^ e"
proof -
  have "(Suc e * 2048 + m) mod 2048 = m" "(Suc e * 2048 + m) div 2048 = Suc e"
    using assms by (simp_all only: mod_mult_self3 div_mult_self3) auto
  then show ?thesis by (simp add: float16_value_def)
qed

lemma float16_cases:
  obtains (subnormal) "f < 2048" "float16_value f = f"
  | (normal) e m where "f = Suc e * 2048 + m" "m < 2048" "float16_value f = (2048 + m) * 2 ^ e"
proof (cases "f < 2048")
  case True
  then show ?thesis by (intro subnormal) (auto simp: float16_value_def)
next
  case False
  let ?e = "f div 2048 - 1" and ?m = "f mod 2048"
  have "f div 2048 \<ge> 1" using False by (simp add: Suc_leI div_greater_zero_iff)
  then have "f = Suc ?e * 2048 + ?m" using div_mult_mod_eq [of f 2048] by simp
  moreover have "?m < 2048" by simp
  ultimately show ?thesis using normal float16_value_normal by metis
qed

lemma float16_value_step: "float16_value f < float16_value (Suc f)"
proof (cases f rule: float16_cases)
  case subnormal
  then show ?thesis by (cases "f = 2047") (auto simp: float16_value_def)
next
  case (normal e m)
  show ?thesis
  proof (cases "m = 2047")
    case True
    have "Suc f = Suc (Suc e) * 2048 + 0" using normal True by simp
    then have "float16_value (Suc f) = 2048 * 2 ^ Suc e"
      using float16_value_normal [of 0 "Suc e"] by simp
    then show ?thesis using normal True by simp
  next
    case False
    then have "Suc f = Suc e * 2048 + Suc m" "Suc m < 2048" using normal by auto
    then have "float16_value (Suc f) = (2048 + Suc m) * 2 ^ e"
      using float16_value_normal by metis
    then show ?thesis using normal by simp
  qed
qed

lemma float16_value_strict_mono: "strict_mono float16_value"
  by (rule strict_mono_Suc_iff [THEN iffD2]) (simp add: float16_value_step)

lemma float16_value_less_iff [simp]: "float16_value f < float16_value g \<longleftrightarrow> f < g"
  by (rule strict_mono_less [OF float16_value_strict_mono])

lemma float16_value_le_iff [simp]: "float16_value f \<le> float16_value g \<longleftrightarrow> f \<le> g"
  by (rule strict_mono_less_eq [OF float16_value_strict_mono])

lemma float16_value_max: "f < 65536 \<Longrightarrow> float16_value f \<le> 4095 * 2 ^ 30"
proof -
  assume "f < 65536"
  then have "float16_value f \<le> float16_value 65535" by simp
  also have "float16_value 65535 = 4095 * 2 ^ 30" by (simp add: float16_value_def)
  finally show ?thesis .
qed

lemma unat_ToUint64: "unat (ToUint64 f) = float16_value (unat f)"
proof -
  have d: "unat (drop_bit 11 f) = unat f div 2048"
    by (simp only: unat_drop_bit_eq) (simp add: drop_bit_eq_div)
  show ?thesis
  proof (cases "unat f < 2048")
    case True
    then have "unat (drop_bit 11 f) = 0" using d by simp
    then have "drop_bit 11 f = 0" by (simp only: unat_eq_zero)
    then show ?thesis using True
      by (simp add: ToUint64_def float16_consts float16_value_def unat_ucast_up)
  next
    case False
    let ?e = "unat f div 2048"
    have e: "1 \<le> ?e" "?e \<le> 31" using False unat_less_exp [of f]
      by (auto simp: Suc_leI div_greater_zero_iff less_mult_imp_div_less)
    have nz: "drop_bit 11 f \<noteq> 0" using d e by (metis One_nat_def not_one_le_zero unat_0)
    have m1: "unat (drop_bit 11 f - 1) = ?e - 1"
      using nz d by (simp add: unat_minus_one)
    have mk: "(of_nat 2047 :: uint64) = mask 11" by (simp add: mask_eq_exp_minus_1)
    have s: "unat ((ucast f :: uint64) AND of_nat 2047) = unat f mod 2048"
      by (simp only: mk take_bit_eq_mask [symmetric] unsigned_take_bit_eq)
         (simp add: take_bit_eq_mod unat_ucast_up)
    have dj: "((ucast f :: uint64) AND of_nat 2047) AND of_nat 2048 = 0"
    proof (rule bit_word_eqI)
      fix n assume "n < LENGTH(64)"
      show "bit (((ucast f :: uint64) AND of_nat 2047) AND of_nat 2048) n = bit (0::uint64) n"
        using bit_push_bit_iff [of 11 "1::uint64" n]
        by (simp only: mk) (auto simp: bit_simps mk push_bit_eq_mult)
    qed
    have o: "unat (((ucast f :: uint64) AND of_nat 2047) OR of_nat 2048) = 2048 + unat f mod 2048"
    proof -
      have "((ucast f :: uint64) AND of_nat 2047) OR of_nat 2048
          = ((ucast f :: uint64) AND of_nat 2047) + of_nat 2048"
        by (rule disjunctive_add_eq_or [OF dj, symmetric])
      then show ?thesis using s
        by (simp add: unat_add_lem [THEN iffD1])
    qed
    have b: "(2048 + unat f mod 2048) * 2 ^ (?e - 1) < 2 ^ 64"
    proof -
      have "(2048 + unat f mod 2048) * 2 ^ (?e - 1) \<le> 4095 * 2 ^ 30"
        using e power_increasing [of "?e - 1" 30 "2::nat"] by (intro mult_mono) auto
      then show ?thesis by simp
    qed
    show ?thesis using False nz o m1 b
      by (simp add: ToUint64_def float16_consts float16_value_def Let_def unat_push_bit
           del: push_bit_and push_bit_or)
  qed
qed

section \<open>Rounding up\<close>

lemma not_push_bit_ones: "NOT (push_bit e (NOT 0)) = (mask e :: 'a::len word)"
  by (simp add: push_bit_minus_one_eq_not_mask)

lemma ceil_mult:
  fixes u d :: nat
  assumes "0 < d"
  shows "u \<le> (u + (d - 1)) div d * d" and "d dvd x \<Longrightarrow> u \<le> x \<Longrightarrow> (u + (d - 1)) div d * d \<le> x"
proof -
  have "(u + (d - 1)) div d * d + (u + (d - 1)) mod d = u + (d - 1)" by simp
  moreover have "(u + (d - 1)) mod d < d" using assms by simp
  ultimately show "u \<le> (u + (d - 1)) div d * d" by linarith
  assume "d dvd x" "u \<le> x"
  then obtain k where k: "x = k * d" by (metis dvd_div_mult_self)
  have "(u + (d - 1)) div d \<le> (k * d + (d - 1)) div d" using \<open>u \<le> x\<close> k by (intro div_le_mono) simp
  also have "(k * d + (d - 1)) div d = k + (d - 1) div d" using assms by (simp only: div_mult_self3)
  also have "\<dots> = k" using assms by simp
  finally show "(u + (d - 1)) div d * d \<le> x" unfolding k by (rule mult_le_mono1)
qed

text \<open>
  The value of the code produced for an input with exponent \<open>e\<close>: the input rounded up to a
  multiple of \<open>2 ^ e\<close>, also when that carries into the next exponent.
\<close>

lemma float16_value_round_up:
  assumes u: "2 ^ (11 + e) \<le> u" "u < 2 ^ (12 + e)"
  defines "u' \<equiv> u + (2 ^ e - 1)"
  defines "e' \<equiv> bit_length u' - 12"
  shows "e' \<le> Suc e" and "u' div 2 ^ e' < 4096"
    and "float16_value (Suc e' * 2048 + (u' div 2 ^ e') mod 2048) = u' div 2 ^ e * 2 ^ e"
proof -
  have lo: "2 ^ (11 + e) \<le> u'" and hi: "u' < 2 ^ (12 + e) + 2 ^ e"
    unfolding u'_def using u by (intro trans_le_add1 add_less_le_mono; simp)+
  consider (same) "u' < 2 ^ (12 + e)" | (carry) "2 ^ (12 + e) \<le> u'" by linarith
  then have "e' \<le> Suc e \<and> u' div 2 ^ e' < 4096 \<and>
    float16_value (Suc e' * 2048 + (u' div 2 ^ e') mod 2048) = u' div 2 ^ e * 2 ^ e"
  proof cases
    case same
    then have e': "e' = e" using lo bit_length_eqI [of "11 + e" u'] by (simp add: e'_def)
    have ge: "2048 \<le> u' div 2 ^ e"
      using div_le_mono [OF lo, of "2 ^ e"] by (simp add: power_add)
    have lt: "u' div 2 ^ e < 4096" using same by (simp add: power_add less_mult_imp_div_less)
    then have "2048 + (u' div 2 ^ e) mod 2048 = u' div 2 ^ e"
      using ge by (simp add: mod_if)
    then show ?thesis
      using e' lt float16_value_normal [of "(u' div 2 ^ e) mod 2048" e] by simp
  next
    case carry
    have "(2::nat) ^ e \<le> 2 ^ (12 + e)" by (rule power_increasing) auto
    then have "u' < 2 ^ Suc (12 + e)" unfolding power_Suc using hi by linarith
    then have e': "e' = Suc e" using carry bit_length_eqI [of "12 + e" u'] by (simp add: e'_def)
    have p: "(2::nat) ^ (12 + e) = 4096 * 2 ^ e" by (simp add: power_add)
    have d0: "u' div 2 ^ e = 4096"
      using carry hi by (simp add: p div_nat_eqI)
    have d1: "u' div 2 ^ Suc e = 2048"
      using d0 div_mult2_eq [of u' "2 ^ e" 2] by (simp add: mult.commute)
    show ?thesis using e' d0 d1 float16_value_normal [of 0 "Suc e"] by simp
  qed
  then show "e' \<le> Suc e" "u' div 2 ^ e' < 4096"
    "float16_value (Suc e' * 2048 + (u' div 2 ^ e') mod 2048) = u' div 2 ^ e * 2 ^ e"
    by auto
qed

lemma float16_value_dvd:
  assumes "2 ^ (11 + e) \<le> float16_value g"
  shows "2 ^ e dvd float16_value g"
proof (cases g rule: float16_cases)
  case subnormal
  then have "(2::nat) ^ (11 + e) < 2 ^ 11" using assms by simp
  then show ?thesis by (simp add: power_add)
next
  case (normal e' m)
  have "float16_value g < 4096 * 2 ^ e'" using normal by simp
  also have "4096 * 2 ^ e' = (2::nat) ^ (12 + e')" by (simp add: power_add)
  finally have "(2::nat) ^ (11 + e) < 2 ^ (12 + e')" using assms by linarith
  then have "e \<le> e'" by (simp add: power_strict_increasing_iff)
  then show ?thesis using normal by (simp add: dvd_mult le_imp_power_dvd)
qed


text \<open>The third branch of the encoder, on natural numbers.\<close>

lemma FromUint64RoundUp_normal:
  assumes v: "2048 \<le> unat v" "unat v \<le> 4095 * 2 ^ 30"
  obtains r e where "FromUint64RoundUp v = (r, True)"
    and "2 ^ (11 + e) \<le> unat v"
    and "float16_value (unat r) = (unat v + (2 ^ e - 1)) div 2 ^ e * 2 ^ e"
proof -
  let ?u = "unat v"
  define e where "e = bit_length ?u - 12"
  define u' where "u' = ?u + (2 ^ e - 1)"
  define e' where "e' = bit_length u' - 12"
  define v' where "v' = v + NOT (push_bit (nat (float16GetExponent v)) (NOT 0))"
  define r where "r = push_bit 11 ((of_int (float16GetExponent v') :: uint16) + 1)
    OR (ucast (drop_bit (unat (of_int (float16GetExponent v') :: uint16)) v') AND of_nat 2047)"
  have "\<not> ?u < 2 ^ 11" "?u < 2 ^ 42" using v by simp_all
  then have bl: "12 \<le> bit_length ?u" "bit_length ?u \<le> 42"
    using bit_length_le_iff [of ?u 11] bit_length_le_iff [of ?u 42] by auto
  then have e30: "e \<le> 30" and be: "bit_length ?u = 12 + e" by (auto simp: e_def)
  have lo: "2 ^ (11 + e) \<le> ?u" and hi: "?u < 2 ^ (12 + e)"
    using bit_length_lower [of ?u] bit_length_upper [of ?u] v be by auto
  note round = float16_value_round_up [OF lo hi, folded u'_def, folded e'_def]
  have p30: "(2::nat) ^ e \<le> 2 ^ 30" using e30 by (rule power_increasing) simp
  have u'64: "u' < 2 ^ 43" using v p30 by (simp add: u'_def)
  have ge: "nat (float16GetExponent v) = e"
    using bl by (simp add: float16GetExponent_def bits_Len_def significandBits_def e_def)
  have uv': "unat v' = u'"
  proof -
    have "unat (mask e :: uint64) = 2 ^ e - 1" using e30 by (intro unat_mask_word) simp
    then show ?thesis using u'64
      by (simp add: v'_def ge not_push_bit_ones u'_def unat_word_ariths)
  qed
  have "?u \<le> u'" unfolding u'_def by (rule le_add1)
  then have "12 \<le> bit_length u'" using bit_length_mono [of ?u u'] bl by simp
  then have fe': "float16GetExponent v' = int e'"
    by (simp add: float16GetExponent_def bits_Len_def significandBits_def uv' e'_def)
  have e'31: "e' \<le> 31" using round(1) e30 by simp
  have us: "unat (of_int (float16GetExponent v') :: uint16) = e'"
    using e'31 by (simp add: fe' take_bit_nat_eq_self unat_of_nat)
  let ?m = "(u' div 2 ^ e') mod 2048"
  have c: "u' div 2 ^ e * 2 ^ e \<le> 4095 * 2 ^ 30"
  proof -
    have "(2::nat) ^ e dvd 4095 * 2 ^ 30" using e30 by (intro dvd_mult le_imp_power_dvd)
    then show ?thesis unfolding u'_def by (intro ceil_mult(2)) (use v in auto)
  qed
  have "float16_value (Suc e' * 2048 + ?m) \<le> float16_value 65535"
    using round(3) c by (simp add: float16_value_def)
  then have rb: "Suc e' * 2048 + ?m \<le> 65535" by (simp only: float16_value_le_iff)
  have hiw: "unat (push_bit 11 ((of_int (float16GetExponent v') :: uint16) + 1)) = Suc e' * 2048"
  proof -
    have "unat ((of_int (float16GetExponent v') :: uint16) + 1) = Suc e'"
      using us e'31 by (simp add: unat_word_ariths)
    then show ?thesis using rb by (subst unat_push_bit) auto
  qed
  have mk: "(of_nat 2047 :: uint16) = mask 11" by (simp add: mask_eq_exp_minus_1)
  have low: "unat (ucast (drop_bit e' v') AND of_nat 2047 :: uint16) = ?m"
  proof -
    have "unat (ucast (drop_bit e' v') AND of_nat 2047 :: uint16)
        = take_bit 11 (take_bit 16 (drop_bit e' (unat v')))"
      by (simp only: mk take_bit_eq_mask [symmetric] unsigned_take_bit_eq unsigned_ucast_eq
           unat_drop_bit_eq) simp
    then show ?thesis by (simp add: uv' drop_bit_eq_div take_bit_eq_mod mod_mod_cancel)
  qed
  have dj: "push_bit 11 ((of_int (float16GetExponent v') :: uint16) + 1)
      AND (ucast (drop_bit e' v') AND of_nat 2047) = 0"
    by (rule bit_word_eqI) (simp only: mk, auto simp: bit_simps)
  have "unat r = Suc e' * 2048 + ?m"
    unfolding r_def us disjunctive_add_eq_or [OF dj, symmetric]
    using hiw low rb by (simp add: unat_add_lem [THEN iffD1])
  moreover have "FromUint64RoundUp v = (r, True)"
  proof -
    have "\<not> v \<le> of_nat 2047" using v by (simp add: word_le_nat_alt)
    moreover have "\<not> v > push_bit 30 (of_nat 4095)"
      using v by (simp add: word_less_nat_alt)
    ultimately show ?thesis
      by (simp add: FromUint64RoundUp_def float16_consts Let_def r_def v'_def)
  qed
  ultimately show ?thesis using that lo round(3) by (simp add: u'_def)
qed

lemma FromUint64RoundUp_galois_nat:
  "unat v \<le> float16_value (unat (g :: uint16)) \<longleftrightarrow>
     snd (FromUint64RoundUp v) \<and> unat (fst (FromUint64RoundUp v)) \<le> unat g"
proof -
  consider (sub) "unat v < 2048" | (big) "4095 * 2 ^ 30 < unat v"
    | (norm) "2048 \<le> unat v" "unat v \<le> 4095 * 2 ^ 30" by linarith
  then show ?thesis
  proof cases
    case sub
    then have "FromUint64RoundUp v = (ucast v, True)"
      by (simp add: FromUint64RoundUp_def float16_consts word_le_nat_alt)
    moreover have "unat (ucast v :: uint16) = unat v"
      using sub by (simp add: unsigned_ucast_eq take_bit_nat_eq_self)
    moreover have "unat v \<le> float16_value (unat g) \<longleftrightarrow> unat v \<le> unat g"
    proof -
      have "float16_value (unat v) = unat v" using sub by (simp add: float16_value_def)
      then show ?thesis by (metis float16_value_le_iff)
    qed
    ultimately show ?thesis by simp
  next
    case big
    then have "FromUint64RoundUp v = (0, False)"
      by (simp add: FromUint64RoundUp_def float16_consts word_le_nat_alt word_less_nat_alt)
    moreover have "float16_value (unat g) \<le> 4095 * 2 ^ 30"
      by (intro float16_value_max unat_bounds)
    ultimately show ?thesis using big by simp
  next
    case norm
    then obtain r e where r: "FromUint64RoundUp v = (r, True)" and lo: "2 ^ (11 + e) \<le> unat v"
      and val: "float16_value (unat r) = (unat v + (2 ^ e - 1)) div 2 ^ e * 2 ^ e"
      by (rule FromUint64RoundUp_normal)
    have "unat v \<le> float16_value (unat r)" unfolding val by (rule ceil_mult) simp
    moreover have "float16_value (unat r) \<le> float16_value (unat g)"
      if "unat v \<le> float16_value (unat g)"
      unfolding val using that lo by (intro ceil_mult(2) float16_value_dvd) auto
    ultimately show ?thesis using r by (auto intro: order_trans)
  qed
qed

section \<open>Properties\<close>

lemma ToUint64_less_iff [simp]: "ToUint64 f < ToUint64 g \<longleftrightarrow> f < g"
  by (simp add: word_less_nat_alt unat_ToUint64)

lemma ToUint64_le_iff [simp]: "ToUint64 f \<le> ToUint64 g \<longleftrightarrow> f \<le> g"
  by (simp add: word_le_nat_alt unat_ToUint64)

lemma FromUint64RoundUp_le_iff:
  "v \<le> ToUint64 g \<longleftrightarrow> snd (FromUint64RoundUp v) \<and> fst (FromUint64RoundUp v) \<le> g"
  by (simp add: word_le_nat_alt unat_ToUint64 FromUint64RoundUp_galois_nat)

lemma FromUint64RoundUp_ok_iff: "snd (FromUint64RoundUp v) \<longleftrightarrow> v \<le> ToUint64 (- 1)"
  by (simp add: FromUint64RoundUp_le_iff)

lemma FromUint64RoundUp_upper:
  "snd (FromUint64RoundUp v) \<Longrightarrow> v \<le> ToUint64 (fst (FromUint64RoundUp v))"
  by (simp add: FromUint64RoundUp_le_iff)

lemma FromUint64RoundUp_mono:
  assumes "v \<le> w" "snd (FromUint64RoundUp w)"
  shows "snd (FromUint64RoundUp v)" "fst (FromUint64RoundUp v) \<le> fst (FromUint64RoundUp w)"
  using assms FromUint64RoundUp_upper [OF assms(2)]
    FromUint64RoundUp_le_iff [of v "fst (FromUint64RoundUp w)"] by auto

lemma FromUint64RoundUp_ToUint64: "FromUint64RoundUp (ToUint64 g) = (g, True)"
proof -
  have "snd (FromUint64RoundUp (ToUint64 g))" "fst (FromUint64RoundUp (ToUint64 g)) \<le> g"
    using FromUint64RoundUp_le_iff [of "ToUint64 g" g] by auto
  moreover have "g \<le> fst (FromUint64RoundUp (ToUint64 g))"
    using FromUint64RoundUp_upper [OF calculation(1)] by simp
  ultimately show ?thesis by (simp add: prod_eq_iff)
qed

text \<open>
  C30. The 16 bit floating point format is an order embedding with least upper bounds: decoding is
  strictly monotone, \<open>FromUint64RoundUp\<close> computes the least representable value that is not
  below its argument and fails exactly if there is none, and representable values are converted
  without loss.
\<close>

theorem float16_round_up_galois:
  "(v \<le> ToUint64 g \<longleftrightarrow> snd (FromUint64RoundUp v) \<and> fst (FromUint64RoundUp v) \<le> g)
   \<and> (ToUint64 f < ToUint64 g \<longleftrightarrow> f < g)
   \<and> FromUint64RoundUp (ToUint64 g) = (g, True)"
  by (simp add: FromUint64RoundUp_le_iff FromUint64RoundUp_ToUint64)

end
