(* ===== verification/Varint.thy ===== *)
theory Varint
  imports Prelude
begin

text \<open>
  The variable length integer encoding of \<open>pkg/encoding/varint\<close>. The generic type parameter
  \<open>T constraints.Integer\<close> of the Go functions is a value of \<open>int_type\<close>; integers of type
  \<open>T\<close> are mathematical integers in its range. The sequence of bytes starts with as many zero
  bits as there are bytes after the first, a one bit, and the sign extended value. The lemmas show
  that the unrolled encoder produces exactly this sequence, that the decoders invert it, and in
  which range the streaming decoder does not.
\<close>

section \<open>Integer types and conversions\<close>

datatype int_type = Signed nat | Unsigned nat

fun is_unsigned :: "int_type \<Rightarrow> bool" where
  "is_unsigned (Signed w) = False"
| "is_unsigned (Unsigned w) = True"

text \<open>The conversion \<open>T(v)\<close> of an integer to type \<open>T\<close>: truncation to its width.\<close>

fun convert :: "int_type \<Rightarrow> int \<Rightarrow> int" where
  "convert (Signed w) x = signed_take_bit (w - 1) x"
| "convert (Unsigned w) x = take_bit w x"

fun int_type_range :: "int_type \<Rightarrow> int set" where
  "int_type_range (Signed w) = {- (2 ^ (w - 1)) ..< 2 ^ (w - 1)}"
| "int_type_range (Unsigned w) = {0 ..< 2 ^ w}"

fun int_type_wf :: "int_type \<Rightarrow> bool" where
  "int_type_wf (Signed w) \<longleftrightarrow> w \<in> {8, 16, 32, 64}"
| "int_type_wf (Unsigned w) \<longleftrightarrow> w \<in> {8, 16, 32, 64}"

text \<open>
  \<open>binary.BigEndian\<close> and \<open>binary.LittleEndian\<close>: appending and reading fixed width
  integers.
\<close>

definition AppendUintBE :: "nat \<Rightarrow> bytes \<Rightarrow> 'a::len word \<Rightarrow> bytes" where
  "AppendUintBE k dst x = dst @ rev (le_bytes k x)"

definition AppendUintLE :: "nat \<Rightarrow> bytes \<Rightarrow> 'a::len word \<Rightarrow> bytes" where
  "AppendUintLE k dst x = dst @ le_bytes k x"

definition UintBE :: "nat \<Rightarrow> bytes \<Rightarrow> uint64" where
  "UintBE k src = of_be (take k src)"

definition UintLE :: "nat \<Rightarrow> bytes \<Rightarrow> uint64" where
  "UintLE k src = of_le (take k src)"

text \<open>\<open>int64(x) << a >> b\<close>: a shift to the left, then an arithmetic shift to the right.\<close>

definition shl_sar :: "nat \<Rightarrow> nat \<Rightarrow> uint64 \<Rightarrow> uint64" where
  "shl_sar a b x = signed_drop_bit b (push_bit a x)"

section \<open>Size\<close>

definition SizeBytes :: "int \<Rightarrow> nat" where
  "SizeBytes value =
     (let v = (if value < 0 then NOT (word_of_int value) else word_of_int value :: uint64)
      in bits_Len v div 7 + 1)"

section \<open>Encoders\<close>

definition AppendForward :: "bytes \<Rightarrow> int \<Rightarrow> bytes" where
  "AppendForward dst value =
    (if value < 0 then
       let v = (word_of_int value :: uint64) in
       if sint v \<ge> - (2 ^ 6) then dst @ [ucast v]
       else if sint v \<ge> - (2 ^ 13) then AppendUintBE 2 dst ((ucast v :: uint16) AND 0x7fff)
       else if sint v \<ge> - (2 ^ 20) then
         AppendUintBE 2 (dst @ [ucast (signed_drop_bit 16 v) AND 0x3f]) (ucast v :: uint16)
       else if sint v \<ge> - (2 ^ 27) then AppendUintBE 4 dst ((ucast v :: uint32) AND 0x1fffffff)
       else if sint v \<ge> - (2 ^ 34) then
         AppendUintBE 4 (dst @ [ucast (signed_drop_bit 32 v) AND 0x0f]) (ucast v :: uint32)
       else if sint v \<ge> - (2 ^ 41) then
         AppendUintBE 4 (AppendUintBE 2 dst ((ucast (signed_drop_bit 32 v) :: uint16) AND 0x07ff))
           (ucast v :: uint32)
       else if sint v \<ge> - (2 ^ 48) then
         AppendUintBE 4 (AppendUintBE 2 (dst @ [0x03]) (ucast (signed_drop_bit 32 v) :: uint16))
           (ucast v :: uint32)
       else if sint v \<ge> - (2 ^ 55) then AppendUintBE 8 dst (v AND 0x01ffffffffffffff)
       else if sint v \<ge> - (2 ^ 62) then AppendUintBE 8 (dst @ [0x00]) v
       else AppendUintBE 8 (dst @ [0x00, 0x7f]) v
     else
       let v = (word_of_int value :: uint64) in
       if v < 2 ^ 6 then dst @ [ucast v OR 0x80]
       else if v < 2 ^ 13 then AppendUintBE 2 dst ((ucast v :: uint16) OR 0x4000)
       else if v < 2 ^ 20 then
         AppendUintBE 2 (dst @ [ucast (drop_bit 16 v) OR 0x20]) (ucast v :: uint16)
       else if v < 2 ^ 27 then AppendUintBE 4 dst ((ucast v :: uint32) OR 0x10000000)
       else if v < 2 ^ 34 then
         AppendUintBE 4 (dst @ [ucast (drop_bit 32 v) OR 0x08]) (ucast v :: uint32)
       else if v < 2 ^ 41 then
         AppendUintBE 4 (AppendUintBE 2 dst ((ucast (drop_bit 32 v) :: uint16) OR 0x0400))
           (ucast v :: uint32)
       else if v < 2 ^ 48 then
         AppendUintBE 4 (AppendUintBE 2 (dst @ [0x02]) (ucast (drop_bit 32 v) :: uint16))
           (ucast v :: uint32)
       else if v < 2 ^ 55 then AppendUintBE 8 dst (v OR 0x0100000000000000)
       else if v < 2 ^ 62 then AppendUintBE 8 (dst @ [0x00]) (v OR 0x8000000000000000)
       else AppendUintBE 8 (dst @ [0x00, 0x40]) v)"

definition AppendBackward :: "bytes \<Rightarrow> int \<Rightarrow> bytes" where
  "AppendBackward dst value =
    (if value < 0 then
       let v = (word_of_int value :: uint64) in
       if sint v \<ge> - (2 ^ 6) then dst @ [ucast v]
       else if sint v \<ge> - (2 ^ 13) then AppendUintLE 2 dst ((ucast v :: uint16) AND 0x7fff)
       else if sint v \<ge> - (2 ^ 20) then
         AppendUintLE 2 dst (ucast v :: uint16) @ [ucast (signed_drop_bit 16 v) AND 0x3f]
       else if sint v \<ge> - (2 ^ 27) then AppendUintLE 4 dst ((ucast v :: uint32) AND 0x1fffffff)
       else if sint v \<ge> - (2 ^ 34) then
         AppendUintLE 4 dst (ucast v :: uint32) @ [ucast (signed_drop_bit 32 v) AND 0x0f]
       else if sint v \<ge> - (2 ^ 41) then
         AppendUintLE 2 (AppendUintLE 4 dst (ucast v :: uint32))
           ((ucast (signed_drop_bit 32 v) :: uint16) AND 0x07ff)
       else if sint v \<ge> - (2 ^ 48) then
         AppendUintLE 2 (AppendUintLE 4 dst (ucast v :: uint32))
           (ucast (signed_drop_bit 32 v) :: uint16) @ [0x03]
       else if sint v \<ge> - (2 ^ 55) then AppendUintLE 8 dst (v AND 0x01ffffffffffffff)
       else if sint v \<ge> - (2 ^ 62) then AppendUintLE 8 dst v @ [0x00]
       else AppendUintLE 8 dst v @ [0x7f, 0x00]
     else
       let v = (word_of_int value :: uint64) in
       if v < 2 ^ 6 then dst @ [ucast v OR 0x80]
       else if v < 2 ^ 13 then AppendUintLE 2 dst ((ucast v :: uint16) OR 0x4000)
       else if v < 2 ^ 20 then
         AppendUintLE 2 dst (ucast v :: uint16) @ [ucast (drop_bit 16 v) OR 0x20]
       else if v < 2 ^ 27 then AppendUintLE 4 dst ((ucast v :: uint32) OR 0x10000000)
       else if v < 2 ^ 34 then
         AppendUintLE 4 dst (ucast v :: uint32) @ [ucast (drop_bit 32 v) OR 0x08]
       else if v < 2 ^ 41 then
         AppendUintLE 2 (AppendUintLE 4 dst (ucast v :: uint32))
           ((ucast (drop_bit 32 v) :: uint16) OR 0x0400)
       else if v < 2 ^ 48 then
         AppendUintLE 2 (AppendUintLE 4 dst (ucast v :: uint32))
           (ucast (drop_bit 32 v) :: uint16) @ [0x02]
       else if v < 2 ^ 55 then AppendUintLE 8 dst (v OR 0x0100000000000000)
       else if v < 2 ^ 62 then AppendUintLE 8 dst (v OR 0x8000000000000000) @ [0x00]
       else AppendUintLE 8 dst v @ [0x40, 0x00])"

section \<open>Decoders\<close>

text \<open>Bounds checking against the desired integer type, shared by the decoders.\<close>

definition check_bounds :: "int_type \<Rightarrow> uint64 \<Rightarrow> int \<Rightarrow> int \<times> int" where
  "check_bounds T v len =
     (if is_unsigned T \<and> sint v < 0 then (0, -1)
      else
        let converted = convert T (sint v)
        in if sint (word_of_int converted :: uint64) \<noteq> sint v then (0, -1)
           else (converted, len))"

definition ConsumeForward :: "int_type \<Rightarrow> bytes \<Rightarrow> int \<times> int" where
  "ConsumeForward T src =
    (if length src < 1 then (0, -1)
     else
       let leadingZeros = LeadingZeros8 (src ! 0); len = 1 + leadingZeros in
       if length src < len then (0, -1)
       else if leadingZeros = 0 then
         check_bounds T (shl_sar 57 57 (ucast (src ! 0))) (int len)
       else if leadingZeros = 1 then
         check_bounds T (shl_sar 50 50 (UintBE 2 src)) (int len)
       else if leadingZeros = 2 then
         check_bounds T (shl_sar 59 43 (ucast (src ! 0)) OR UintBE 2 (drop 1 src)) (int len)
       else if leadingZeros = 3 then
         check_bounds T (shl_sar 36 36 (UintBE 4 src)) (int len)
       else if leadingZeros = 4 then
         check_bounds T (shl_sar 61 29 (ucast (src ! 0)) OR UintBE 4 (drop 1 src)) (int len)
       else if leadingZeros = 5 then
         check_bounds T (shl_sar 54 22 (UintBE 2 src) OR UintBE 4 (drop 2 src)) (int len)
       else if leadingZeros = 6 then
         check_bounds T (shl_sar 63 15 (ucast (src ! 0)) OR push_bit 32 (UintBE 2 (drop 1 src))
           OR UintBE 4 (drop 3 src)) (int len)
       else if leadingZeros = 7 then
         check_bounds T (shl_sar 8 8 (UintBE 8 src)) (int len)
       else
         let leadingZeros = LeadingZeros8 (src ! 1); len = len + leadingZeros in
         if length src < len then (0, -1)
         else if leadingZeros = 0 then
           check_bounds T (shl_sar 1 1 (UintBE 8 (drop 1 src))) (int len)
         else if is_unsigned T \<and> src ! 1 = 0x40 then
           let v = UintBE 8 (drop 2 src); converted = convert T (uint v)
           in if (word_of_int converted :: uint64) \<noteq> v then (0, -1) else (converted, int len)
         else if (\<not> is_unsigned T \<and> (src ! 1 = 0x40 \<and> src ! 2 < 0x80))
                 \<or> (src ! 1 = 0x7f \<and> src ! 2 \<ge> 0x80) then
           check_bounds T (UintBE 8 (drop 2 src)) (int len)
         else (0, -1))"

definition ConsumeBackward :: "int_type \<Rightarrow> bytes \<Rightarrow> int \<times> int" where
  "ConsumeBackward T src =
    (if length src < 1 then (0, -1)
     else
       let n = length src; leadingZeros = LeadingZeros8 (src ! (n - 1)); len = 1 + leadingZeros in
       if length src < len then (0, -1)
       else if leadingZeros = 0 then
         check_bounds T (shl_sar 57 57 (ucast (src ! (n - 1)))) (int len)
       else if leadingZeros = 1 then
         check_bounds T (shl_sar 50 50 (UintLE 2 (drop (n - 2) src))) (int len)
       else if leadingZeros = 2 then
         check_bounds T (shl_sar 59 43 (ucast (src ! (n - 1))) OR UintLE 2 (drop (n - 3) src))
           (int len)
       else if leadingZeros = 3 then
         check_bounds T (shl_sar 36 36 (UintLE 4 (drop (n - 4) src))) (int len)
       else if leadingZeros = 4 then
         check_bounds T (shl_sar 61 29 (ucast (src ! (n - 1))) OR UintLE 4 (drop (n - 5) src))
           (int len)
       else if leadingZeros = 5 then
         check_bounds T (shl_sar 54 22 (UintLE 2 (drop (n - 2) src))
           OR UintLE 4 (drop (n - 6) src)) (int len)
       else if leadingZeros = 6 then
         check_bounds T (shl_sar 63 15 (ucast (src ! (n - 1)))
           OR push_bit 32 (UintLE 2 (drop (n - 3) src)) OR UintLE 4 (drop (n - 7) src)) (int len)
       else if leadingZeros = 7 then
         check_bounds T (shl_sar 8 8 (UintLE 8 (drop (n - 8) src))) (int len)
       else
         let leadingZeros = LeadingZeros8 (src ! (n - 2)); len = len + leadingZeros in
         if length src < len then (0, -1)
         else if leadingZeros = 0 then
           check_bounds T (shl_sar 1 1 (UintLE 8 (drop (n - 9) src))) (int len)
         else if is_unsigned T \<and> src ! (n - 2) = 0x40 then
           let v = UintLE 8 (drop (n - 10) src); converted = convert T (uint v)
           in if (word_of_int converted :: uint64) \<noteq> v then (0, -1) else (converted, int len)
         else if (\<not> is_unsigned T \<and> (src ! (n - 2) = 0x40 \<and> src ! (n - 3) < 0x80))
                 \<or> (src ! (n - 2) = 0x7f \<and> src ! (n - 3) \<ge> 0x80) then
           check_bounds T (UintLE 8 (drop (n - 10) src)) (int len)
         else (0, -1))"

text \<open>
  \<open>io.ByteReader\<close>: the bytes that are left and the error reported once they are exhausted. The byte
  that comes with an error is zero, as for the readers of the standard library; the interface leaves it open.
  \<open>ReadForward\<close> looks at it if the error is not \<open>io.EOF\<close>, but the properties below do not depend on it.
\<close>

record byte_reader =
  rd_bytes :: bytes
  rd_err :: go_error

definition ReadByte :: "byte_reader \<Rightarrow> byte \<times> go_error option \<times> byte_reader" where
  "ReadByte r =
     (case rd_bytes r of
        [] \<Rightarrow> (0, Some (rd_err r), r)
      | b # bs \<Rightarrow> (b, None, r\<lparr>rd_bytes := bs\<rparr>))"

text \<open>The loops that accumulate the remaining bytes. Errors other than \<open>io.EOF\<close> are ignored.\<close>

fun read_remaining :: "nat \<Rightarrow> uint64 \<Rightarrow> byte_reader \<Rightarrow> uint64 result \<times> byte_reader" where
  "read_remaining 0 v r = (Inr v, r)"
| "read_remaining (Suc n) v r =
     (case ReadByte r of (b, err, r') \<Rightarrow>
        if err = Some ErrEOF then (Inl ErrUnexpectedEOF, r')
        else read_remaining n (push_bit 8 v OR ucast b) r')"

definition read_finish :: "int_type \<Rightarrow> int \<Rightarrow> nat \<Rightarrow> byte \<Rightarrow> byte_reader \<Rightarrow> int result \<times> byte_reader" where
  "read_finish T leadingZeros len b r =
     (let shift = nat (64 - 7 + leadingZeros) in
      case read_remaining len (shl_sar shift shift (ucast b)) r of
        (Inl e, r') \<Rightarrow> (Inl e, r')
      | (Inr v, r') \<Rightarrow>
          if is_unsigned T \<and> sint v < 0 then (Inl (Status InvalidArgument), r')
          else
            let converted = convert T (sint v)
            in if sint (word_of_int converted :: uint64) \<noteq> sint v
               then (Inl (Status InvalidArgument), r') else (Inr converted, r'))"

definition ReadForward :: "int_type \<Rightarrow> byte_reader \<Rightarrow> int result \<times> byte_reader" where
  "ReadForward T r =
    (case ReadByte r of (b, err, r) \<Rightarrow>
      if err \<noteq> None then (Inl (the err), r)
      else
        let leadingZeros = LeadingZeros8 b; len = leadingZeros in
        if leadingZeros = 8 then
          (case ReadByte r of (b, err, r) \<Rightarrow>
            if err = Some ErrEOF then (Inl ErrUnexpectedEOF, r)
            else
              let leadingZeros = LeadingZeros8 b; len = len - 1 + leadingZeros in
              if leadingZeros = 0 then read_finish T (int leadingZeros) len b r
              else if is_unsigned T \<and> b = 0x40 then
                (case read_remaining len 0 r of
                   (Inl e, r') \<Rightarrow> (Inl e, r')
                 | (Inr v, r') \<Rightarrow>
                     let converted = convert T (uint v)
                     in if (word_of_int converted :: uint64) \<noteq> v
                        then (Inl (Status InvalidArgument), r') else (Inr converted, r'))
              else if \<not> is_unsigned T \<and> (b = 0x40 \<or> b = 0x7f) then
                (case ReadByte r of (b', err, r) \<Rightarrow>
                  if err = Some ErrEOF then (Inl ErrUnexpectedEOF, r)
                  else if (b = 0x40 \<and> b' \<ge> 0x80) \<or> (b \<noteq> 0x40 \<and> b' < 0x80)
                  then (Inl (Status InvalidArgument), r)
                  else read_finish T (-1) (len - 1) b' r)
              else (Inl (Status InvalidArgument), r))
        else read_finish T (int leadingZeros) len b r)"

section \<open>The encoding as a reference definition\<close>

text \<open>
  \<open>varint_code k x\<close>: the \<open>k\<close> bytes, most significant first, of the number that has bit
  \<open>7 k\<close> set and the low \<open>7 k\<close> bits of \<open>x\<close> below it.
\<close>

definition varint_number :: "nat \<Rightarrow> int \<Rightarrow> int" where
  "varint_number k x = 2 ^ (7 * k) OR take_bit (7 * k) x"

definition varint_code :: "nat \<Rightarrow> int \<Rightarrow> bytes" where
  "varint_code k x = rev (map (\<lambda>i. word_of_int (drop_bit (8 * i) (varint_number k x))) [0..<k])"

lemma bit_varint_number: "bit (varint_number k x) n \<longleftrightarrow> n = 7 * k \<or> n < 7 * k \<and> bit x n"
  by (auto simp: varint_number_def bit_simps)

lemma length_varint_code [simp]: "length (varint_code k x) = k"
  by (simp add: varint_code_def)

lemma bit_neg_high: "- (2 ^ m) \<le> x \<Longrightarrow> x < 0 \<Longrightarrow> m \<le> i \<Longrightarrow> bit (x::int) i"
proof -
  assume x: "- (2 ^ m) \<le> x" "x < 0" and i: "m \<le> i"
  have "(2::int) ^ m \<le> 2 ^ i" using i by (intro power_increasing) auto
  then have "x div 2 ^ i = -1" using x by (intro int_div_pos_eq [of _ _ _ "x + 2 ^ i"]) linarith+
  then show ?thesis by (simp add: bit_iff_odd)
qed

lemma bit_nonneg_high: "0 \<le> x \<Longrightarrow> x < 2 ^ m \<Longrightarrow> m \<le> i \<Longrightarrow> \<not> bit (x::int) i"
proof -
  assume x: "0 \<le> x" "x < 2 ^ m" and i: "m \<le> i"
  have "(2::int) ^ m \<le> 2 ^ i" using i by (intro power_increasing) auto
  then have "x div 2 ^ i = 0" using x by (intro div_pos_pos_trivial) linarith+
  then show ?thesis by (simp add: bit_iff_odd)
qed

lemma byte_eqI:
  assumes "bit a 0 = bit b 0" "bit a 1 = bit b 1" "bit a 2 = bit b 2" "bit a 3 = bit b 3"
    "bit a 4 = bit b 4" "bit a 5 = bit b 5" "bit a 6 = bit b 6" "bit a 7 = bit (b::byte) 7"
  shows "a = b"
proof (rule bit_word_eqI)
  fix n assume "n < LENGTH(8)"
  then have "n \<in> {0, 1, 2, 3, 4, 5, 6, 7}" by auto
  then show "bit a n = bit b n" using assms by auto
qed

lemma sint_word_of_int64: "- (2 ^ 63) \<le> x \<Longrightarrow> x < 2 ^ 63 \<Longrightarrow> sint (word_of_int x :: uint64) = x"
  by (simp add: sint_sbintrunc' signed_take_bit_int_eq_self_iff)

lemma le_bytes_unfold [codec_simps]:
  "le_bytes 2 w = [ucast w, ucast (drop_bit 8 w)]"
  "le_bytes 4 w = [ucast w, ucast (drop_bit 8 w), ucast (drop_bit 16 w), ucast (drop_bit 24 w)]"
  "le_bytes 8 w = [ucast w, ucast (drop_bit 8 w), ucast (drop_bit 16 w), ucast (drop_bit 24 w),
     ucast (drop_bit 32 w), ucast (drop_bit 40 w), ucast (drop_bit 48 w), ucast (drop_bit 56 w)]"
  by (simp_all add: le_bytes_def upt_rec)


text \<open>The branches of the encoder for negative and for non-negative values.\<close>

lemma forward_negative_branches:
  fixes x :: int
  defines "v \<equiv> word_of_int x :: uint64"
  shows
    "(\<And>i. 6 \<le> i \<Longrightarrow> bit x i) \<Longrightarrow> [ucast v] = varint_code 1 x"
    "(\<And>i. 13 \<le> i \<Longrightarrow> bit x i) \<Longrightarrow>
       AppendUintBE 2 [] ((ucast v :: uint16) AND 0x7fff) = varint_code 2 x"
    "(\<And>i. 20 \<le> i \<Longrightarrow> bit x i) \<Longrightarrow>
       AppendUintBE 2 [ucast (signed_drop_bit 16 v) AND 0x3f] (ucast v :: uint16) = varint_code 3 x"
    "(\<And>i. 27 \<le> i \<Longrightarrow> bit x i) \<Longrightarrow>
       AppendUintBE 4 [] ((ucast v :: uint32) AND 0x1fffffff) = varint_code 4 x"
    "(\<And>i. 34 \<le> i \<Longrightarrow> bit x i) \<Longrightarrow>
       AppendUintBE 4 [ucast (signed_drop_bit 32 v) AND 0x0f] (ucast v :: uint32) = varint_code 5 x"
    "(\<And>i. 41 \<le> i \<Longrightarrow> bit x i) \<Longrightarrow>
       AppendUintBE 4 (AppendUintBE 2 [] ((ucast (signed_drop_bit 32 v) :: uint16) AND 0x07ff))
         (ucast v :: uint32) = varint_code 6 x"
    "(\<And>i. 48 \<le> i \<Longrightarrow> bit x i) \<Longrightarrow>
       AppendUintBE 4 (AppendUintBE 2 [0x03] (ucast (signed_drop_bit 32 v) :: uint16))
         (ucast v :: uint32) = varint_code 7 x"
    "(\<And>i. 55 \<le> i \<Longrightarrow> bit x i) \<Longrightarrow>
       AppendUintBE 8 [] (v AND 0x01ffffffffffffff) = varint_code 8 x"
    "(\<And>i. 62 \<le> i \<Longrightarrow> bit x i) \<Longrightarrow> AppendUintBE 8 [0x00] v = varint_code 9 x"
    "(\<And>i. 63 \<le> i \<Longrightarrow> bit x i) \<Longrightarrow> AppendUintBE 8 [0x00, 0x7f] v = varint_code 10 x"
  by (simp_all add: v_def AppendUintBE_def varint_code_def codec_simps upt_rec)
     (intro conjI byte_eqI; simp add: bit_simps bit_varint_number)+

lemma forward_nonnegative_branches:
  fixes x :: int
  defines "v \<equiv> word_of_int x :: uint64"
  shows
    "(\<And>i. 6 \<le> i \<Longrightarrow> \<not> bit x i) \<Longrightarrow> [ucast v OR 0x80] = varint_code 1 x"
    "(\<And>i. 13 \<le> i \<Longrightarrow> \<not> bit x i) \<Longrightarrow>
       AppendUintBE 2 [] ((ucast v :: uint16) OR 0x4000) = varint_code 2 x"
    "(\<And>i. 20 \<le> i \<Longrightarrow> \<not> bit x i) \<Longrightarrow>
       AppendUintBE 2 [ucast (drop_bit 16 v) OR 0x20] (ucast v :: uint16) = varint_code 3 x"
    "(\<And>i. 27 \<le> i \<Longrightarrow> \<not> bit x i) \<Longrightarrow>
       AppendUintBE 4 [] ((ucast v :: uint32) OR 0x10000000) = varint_code 4 x"
    "(\<And>i. 34 \<le> i \<Longrightarrow> \<not> bit x i) \<Longrightarrow>
       AppendUintBE 4 [ucast (drop_bit 32 v) OR 0x08] (ucast v :: uint32) = varint_code 5 x"
    "(\<And>i. 41 \<le> i \<Longrightarrow> \<not> bit x i) \<Longrightarrow>
       AppendUintBE 4 (AppendUintBE 2 [] ((ucast (drop_bit 32 v) :: uint16) OR 0x0400))
         (ucast v :: uint32) = varint_code 6 x"
    "(\<And>i. 48 \<le> i \<Longrightarrow> \<not> bit x i) \<Longrightarrow>
       AppendUintBE 4 (AppendUintBE 2 [0x02] (ucast (drop_bit 32 v) :: uint16))
         (ucast v :: uint32) = varint_code 7 x"
    "(\<And>i. 55 \<le> i \<Longrightarrow> \<not> bit x i) \<Longrightarrow>
       AppendUintBE 8 [] (v OR 0x0100000000000000) = varint_code 8 x"
    "(\<And>i. 62 \<le> i \<Longrightarrow> \<not> bit x i) \<Longrightarrow>
       AppendUintBE 8 [0x00] (v OR 0x8000000000000000) = varint_code 9 x"
    "(\<And>i. 64 \<le> i \<Longrightarrow> \<not> bit x i) \<Longrightarrow> AppendUintBE 8 [0x00, 0x40] v = varint_code 10 x"
  by (simp_all add: v_def AppendUintBE_def varint_code_def codec_simps upt_rec)
     (intro conjI byte_eqI; simp add: bit_simps bit_varint_number)+


section \<open>The encoder equals the reference definition\<close>

definition varint_magnitude :: "int \<Rightarrow> nat" where
  "varint_magnitude x = nat (if x < 0 then NOT x else x)"

definition varint_range :: "int set" where
  "varint_range = {- (2 ^ 63) ..< 2 ^ 64}"

lemma SizeBytes_magnitude:
  assumes "x \<in> varint_range"
  shows "SizeBytes x = bit_length (varint_magnitude x) div 7 + 1"
proof -
  have "unat (word_of_int y :: uint64) = nat y" if "0 \<le> y" "y < 2 ^ 64" for y :: int
    using that by (simp add: unsigned_of_int take_bit_int_eq_self)
  moreover have "NOT (word_of_int x) = (word_of_int (NOT x) :: uint64)"
    by (simp add: of_int_not_eq)
  moreover have "0 \<le> NOT x \<and> NOT x < 2 ^ 64" if "x < 0"
    using that assms by (simp add: not_int_def varint_range_def)
  ultimately show ?thesis using assms
    by (auto simp: SizeBytes_def bits_Len_def varint_magnitude_def varint_range_def)
qed

lemma bit_length_div_7:
  assumes "n < 2 ^ (7 * k + 6)" "k = 0 \<or> 2 ^ (7 * k - 1) \<le> n"
  shows "bit_length n div 7 = k"
proof -
  have "bit_length n \<le> 7 * k + 6" using assms(1) by (rule bit_length_le)
  moreover have "7 * k \<le> bit_length n"
    using assms(2) bit_length_le_iff [of n "7 * k - 1"] by (cases k) auto
  ultimately show ?thesis by (intro div_nat_eqI) auto
qed

lemma SizeBytes_eqI:
  assumes "x \<in> varint_range" "int (varint_magnitude x) < 2 ^ (7 * k + 6)"
    "k = 0 \<or> 2 ^ (7 * k - 1) \<le> int (varint_magnitude x)"
  shows "SizeBytes x = k + 1"
proof -
  have "varint_magnitude x < 2 ^ (7 * k + 6)"
    using assms(2) by (metis of_nat_less_iff of_nat_numeral of_nat_power)
  moreover have "k = 0 \<or> 2 ^ (7 * k - 1) \<le> varint_magnitude x"
    using assms(3) by (metis of_nat_le_iff of_nat_numeral of_nat_power)
  ultimately show ?thesis
    using bit_length_div_7 SizeBytes_magnitude [OF assms(1)] by simp
qed

lemma AppendForward_append: "AppendForward dst x = dst @ AppendForward [] x"
  by (simp add: AppendForward_def AppendUintBE_def Let_def)

lemma AppendForward_negative:
  assumes x: "x \<in> varint_range" "x < 0"
  shows "AppendForward [] x = varint_code (SizeBytes x) x"
proof -
  have b: "- (2 ^ 63) \<le> x" using x by (simp add: varint_range_def)
  then have s: "sint (word_of_int x :: uint64) = x" using x by (intro sint_word_of_int64) auto
  have m: "int (varint_magnitude x) = - x - 1" using x by (simp add: varint_magnitude_def not_int_def)
  note size = SizeBytes_eqI [OF x(1), unfolded m]
  note sizes = size [of 0] size [of 1] size [of 2] size [of 3] size [of 4]
    size [of 5] size [of 6] size [of 7] size [of 8] size [of 9]
  note hi = bit_neg_high [OF _ x(2)]
  note branches =
    forward_negative_branches(1) [OF hi [of 6]] forward_negative_branches(2) [OF hi [of 13]]
    forward_negative_branches(3) [OF hi [of 20]] forward_negative_branches(4) [OF hi [of 27]]
    forward_negative_branches(5) [OF hi [of 34]] forward_negative_branches(6) [OF hi [of 41]]
    forward_negative_branches(7) [OF hi [of 48]] forward_negative_branches(8) [OF hi [of 55]]
    forward_negative_branches(9) [OF hi [of 62]] forward_negative_branches(10) [OF hi [of 63]]
  show ?thesis unfolding AppendForward_def Let_def s using x(2) b
    by (simp add: sizes branches del: One_nat_def)
qed

lemma AppendForward_nonnegative:
  assumes x: "x \<in> varint_range" "0 \<le> x"
  shows "AppendForward [] x = varint_code (SizeBytes x) x"
proof -
  have b: "x < 2 ^ 64" using x by (simp add: varint_range_def)
  have lt: "(word_of_int x :: uint64) < 2 ^ n \<longleftrightarrow> x < 2 ^ n" if "n < 64" for n
  proof -
    have "uint (word_of_int (2 ^ n) :: uint64) = 2 ^ n"
      using that by (subst unsigned_of_int) simp
    then have "uint (2 ^ n :: uint64) = 2 ^ n" by simp
    moreover have "uint (word_of_int x :: uint64) = x"
      using x b by (simp add: unsigned_of_int take_bit_int_eq_self)
    ultimately show ?thesis by (simp add: word_less_def)
  qed
  let ?v = "word_of_int x :: uint64"
  have lts:
    "?v < 2 ^ 6 \<longleftrightarrow> x < 2 ^ 6" "?v < 2 ^ 13 \<longleftrightarrow> x < 2 ^ 13" "?v < 2 ^ 20 \<longleftrightarrow> x < 2 ^ 20"
    "?v < 2 ^ 27 \<longleftrightarrow> x < 2 ^ 27" "?v < 2 ^ 34 \<longleftrightarrow> x < 2 ^ 34" "?v < 2 ^ 41 \<longleftrightarrow> x < 2 ^ 41"
    "?v < 2 ^ 48 \<longleftrightarrow> x < 2 ^ 48" "?v < 2 ^ 55 \<longleftrightarrow> x < 2 ^ 55" "?v < 2 ^ 62 \<longleftrightarrow> x < 2 ^ 62"
    by (rule lt; simp)+
  have m: "int (varint_magnitude x) = x" using x by (simp add: varint_magnitude_def)
  note size = SizeBytes_eqI [OF x(1), unfolded m]
  note sizes = size [of 0] size [of 1] size [of 2] size [of 3] size [of 4]
    size [of 5] size [of 6] size [of 7] size [of 8] size [of 9]
  note hi = bit_nonneg_high [OF x(2)]
  note branches =
    forward_nonnegative_branches(1) [OF hi [of 6]]
    forward_nonnegative_branches(2) [OF hi [of 13]]
    forward_nonnegative_branches(3) [OF hi [of 20]]
    forward_nonnegative_branches(4) [OF hi [of 27]]
    forward_nonnegative_branches(5) [OF hi [of 34]]
    forward_nonnegative_branches(6) [OF hi [of 41]]
    forward_nonnegative_branches(7) [OF hi [of 48]]
    forward_nonnegative_branches(8) [OF hi [of 55]]
    forward_nonnegative_branches(9) [OF hi [of 62]]
    forward_nonnegative_branches(10) [OF hi [of 64]]
  show ?thesis unfolding AppendForward_def Let_def lts using x(2) b
    by (simp add: sizes branches del: One_nat_def)
qed


theorem AppendForward_eq:
  assumes "x \<in> varint_range"
  shows "AppendForward dst x = dst @ varint_code (SizeBytes x) x"
  using assms AppendForward_append [of dst x] AppendForward_negative AppendForward_nonnegative
  by (cases "x < 0") auto


section \<open>The decoders\<close>

lemma varint_code_slice:
  assumes "a + j \<le> k"
  shows "rev (take j (drop a (varint_code k x @ rest)))
    = map (\<lambda>i. word_of_int (drop_bit (8 * i) (varint_number k x))) [k - a - j ..< k - a]"
  using assms by (simp add: varint_code_def rev_take rev_drop take_map drop_map)

lemma UintBE_varint_code:
  assumes "a + j \<le> k" "j \<le> 8"
  shows "UintBE j (drop a (varint_code k x @ rest))
    = word_of_int (take_bit (8 * j) (drop_bit (8 * (k - a - j)) (varint_number k x)))"
proof -
  obtain p where k: "k = a + j + p" using assms(1) le_Suc_ex by blast
  define N where "N = varint_number k x"
  have "UintBE j (drop a (varint_code k x @ rest))
    = of_le (map (\<lambda>i. word_of_int (drop_bit (8 * i) N)) [p ..< j + p])"
    unfolding UintBE_def of_be_def varint_code_slice [OF assms(1)] N_def by (simp add: k add.commute)
  also have "\<dots> = word_of_int (take_bit (8 * j) (drop_bit (8 * p) N))"
  proof (rule bit_word_eqI)
    fix n assume n: "n < LENGTH(64)"
    have "8 * (p + n div 8) + n mod 8 = 8 * p + n" by simp
    moreover have "n div 8 < j \<longleftrightarrow> n < 8 * j" by auto
    ultimately show "bit (of_le (map (\<lambda>i. word_of_int (drop_bit (8 * i) N)) [p ..< j + p]) :: uint64) n
      = bit (word_of_int (take_bit (8 * j) (drop_bit (8 * p) N)) :: uint64) n"
      using n by (auto simp: bit_of_le bit_simps add.commute)
  qed
  finally show ?thesis by (simp add: N_def k)
qed

lemma UintBE_1: "src \<noteq> [] \<Longrightarrow> ucast (src ! 0) = UintBE 1 src"
  by (cases src) (simp_all add: UintBE_def of_be_def)



lemma bit_shl_sar:
  "bit (shl_sar a b w) n \<longleftrightarrow>
     n < 64 \<and> a \<le> (if n + b < 64 then n + b else 63) \<and> bit w ((if n + b < 64 then n + b else 63) - a)"
proof -
  have L: "LENGTH(64) = 64" by simp
  have M: "64 - 1 = (63 :: nat)" by simp
  have p: "bit (push_bit a w) m \<longleftrightarrow> m < 64 \<and> a \<le> m \<and> bit w (m - a)" for m
    using bit_push_bit_iff [of a w m] bit_imp_le_length [of "push_bit a w" m]
    by (auto simp: possible_bit_def)
  show ?thesis unfolding shl_sar_def bit_signed_drop_bit_iff L M p by (auto simp: add.commute)
qed

lemma bit_UintBE_varint_code:
  assumes "a + j \<le> k" "j \<le> 8"
  shows "bit (UintBE j (drop a (varint_code k x @ rest))) n \<longleftrightarrow>
    n < 8 * j \<and> (n + 8 * (k - a - j) = 7 * k \<or> n + 8 * (k - a - j) < 7 * k \<and> bit x (n + 8 * (k - a - j)))"
  unfolding UintBE_varint_code [OF assms] using assms
  by (auto simp: bit_simps bit_varint_number add.commute)

lemmas bit_UintBE_varint_code_0 = bit_UintBE_varint_code [of 0, simplified drop_0]

text \<open>All bits of \<open>x\<close> from position \<open>m\<close> upwards are equal.\<close>

definition sign_from :: "nat \<Rightarrow> int \<Rightarrow> bool" where
  "sign_from m x \<longleftrightarrow> (\<forall>i\<ge>m. bit x i = bit x m)"

lemma sign_fromD: "sign_from m x \<Longrightarrow> m \<le> n \<Longrightarrow> bit x n = bit x m"
  unfolding sign_from_def by blast

lemma sign_extend_eqI:
  fixes w :: uint64
  assumes h: "sign_from m x"
    and "\<And>n. n < m \<Longrightarrow> n < 64 \<Longrightarrow> bit w n = bit x n"
    and "m < 64 \<Longrightarrow> bit w m = bit x m"
    and "\<And>n. m < n \<Longrightarrow> n < 64 \<Longrightarrow> bit w n = bit x m"
  shows "w = word_of_int x"
proof (rule bit_word_eqI)
  fix n assume "n < LENGTH(64)"
  then show "bit w n = bit (word_of_int x :: uint64) n"
    using sign_fromD [OF h, of n] assms(2,4) [of n] assms(3)
    by (cases n m rule: linorder_cases) (simp_all add: bit_word_of_int_iff)
qed

lemma forward_decode_branches:
  fixes x :: int
  shows
    "sign_from 6 x \<Longrightarrow>
       shl_sar 57 57 (UintBE 1 (varint_code 1 x @ rest)) = word_of_int x"
    "sign_from 13 x \<Longrightarrow>
       shl_sar 50 50 (UintBE 2 (varint_code 2 x @ rest)) = word_of_int x"
    "sign_from 20 x \<Longrightarrow>
       shl_sar 59 43 (UintBE 1 (varint_code 3 x @ rest)) OR UintBE 2 (drop 1 (varint_code 3 x @ rest)) = word_of_int x"
    "sign_from 27 x \<Longrightarrow>
       shl_sar 36 36 (UintBE 4 (varint_code 4 x @ rest)) = word_of_int x"
    "sign_from 34 x \<Longrightarrow>
       shl_sar 61 29 (UintBE 1 (varint_code 5 x @ rest)) OR UintBE 4 (drop 1 (varint_code 5 x @ rest)) = word_of_int x"
    "sign_from 41 x \<Longrightarrow>
       shl_sar 54 22 (UintBE 2 (varint_code 6 x @ rest)) OR UintBE 4 (drop 2 (varint_code 6 x @ rest)) = word_of_int x"
    "sign_from 48 x \<Longrightarrow>
       shl_sar 63 15 (UintBE 1 (varint_code 7 x @ rest)) OR push_bit 32 (UintBE 2 (drop 1 (varint_code 7 x @ rest))) OR UintBE 4 (drop 3 (varint_code 7 x @ rest)) = word_of_int x"
    "sign_from 55 x \<Longrightarrow>
       shl_sar 8 8 (UintBE 8 (varint_code 8 x @ rest)) = word_of_int x"
    "sign_from 62 x \<Longrightarrow>
       shl_sar 1 1 (UintBE 8 (drop 1 (varint_code 9 x @ rest))) = word_of_int x"
    "UintBE 8 (drop 2 (varint_code 10 x @ rest)) = word_of_int x"
proof -
  note s = bit_shl_sar bit_UintBE_varint_code_0 bit_UintBE_varint_code bit_word_of_int_iff
    bit_or_iff bit_push_bit_iff
  show "shl_sar 57 57 (UintBE 1 (varint_code 1 x @ rest)) = word_of_int x" if h: "sign_from 6 x"
    by (rule sign_extend_eqI [OF h]) (auto simp: s simp del: drop_append)
  show "shl_sar 50 50 (UintBE 2 (varint_code 2 x @ rest)) = word_of_int x" if h: "sign_from 13 x"
    by (rule sign_extend_eqI [OF h]) (auto simp: s simp del: drop_append)
  show "shl_sar 59 43 (UintBE 1 (varint_code 3 x @ rest)) OR UintBE 2 (drop 1 (varint_code 3 x @ rest)) = word_of_int x" if h: "sign_from 20 x"
    by (rule sign_extend_eqI [OF h]) (auto simp: s simp del: drop_append)
  show "shl_sar 36 36 (UintBE 4 (varint_code 4 x @ rest)) = word_of_int x" if h: "sign_from 27 x"
    by (rule sign_extend_eqI [OF h]) (auto simp: s simp del: drop_append)
  show "shl_sar 61 29 (UintBE 1 (varint_code 5 x @ rest)) OR UintBE 4 (drop 1 (varint_code 5 x @ rest)) = word_of_int x" if h: "sign_from 34 x"
    by (rule sign_extend_eqI [OF h]) (auto simp: s simp del: drop_append)
  show "shl_sar 54 22 (UintBE 2 (varint_code 6 x @ rest)) OR UintBE 4 (drop 2 (varint_code 6 x @ rest)) = word_of_int x" if h: "sign_from 41 x"
    by (rule sign_extend_eqI [OF h]) (auto simp: s simp del: drop_append)
  show "shl_sar 63 15 (UintBE 1 (varint_code 7 x @ rest)) OR push_bit 32 (UintBE 2 (drop 1 (varint_code 7 x @ rest))) OR UintBE 4 (drop 3 (varint_code 7 x @ rest)) = word_of_int x" if h: "sign_from 48 x"
    by (rule sign_extend_eqI [OF h]) (auto simp: s simp del: drop_append)
  show "shl_sar 8 8 (UintBE 8 (varint_code 8 x @ rest)) = word_of_int x" if h: "sign_from 55 x"
    by (rule sign_extend_eqI [OF h]) (auto simp: s simp del: drop_append)
  show "shl_sar 1 1 (UintBE 8 (drop 1 (varint_code 9 x @ rest))) = word_of_int x" if h: "sign_from 62 x"
    by (rule sign_extend_eqI [OF h]) (auto simp: s simp del: drop_append)
  show "UintBE 8 (drop 2 (varint_code 10 x @ rest)) = word_of_int x"
    by (rule bit_word_eqI) (auto simp: s simp del: drop_append)
qed

lemma varint_code_nth:
  "i < k \<Longrightarrow> varint_code k x ! i = word_of_int (drop_bit (8 * (k - 1 - i)) (varint_number k x))"
  by (simp add: varint_code_def rev_nth)

lemma bit_varint_code_nth:
  "i < k \<Longrightarrow> bit (varint_code k x ! i) n \<longleftrightarrow>
     n < 8 \<and> (n + 8 * (k - 1 - i) = 7 * k \<or> n + 8 * (k - 1 - i) < 7 * k \<and> bit x (n + 8 * (k - 1 - i)))"
  by (auto simp: varint_code_nth bit_simps bit_varint_number add.commute)

lemma LeadingZeros8_eqI:
  assumes "m < 8" "bit b m" "\<And>i. m < i \<Longrightarrow> i < 8 \<Longrightarrow> \<not> bit b i"
  shows "LeadingZeros8 b = 7 - m"
proof -
  have "b = take_bit (Suc m) b"
    using assms by (intro bit_word_eqI) (force simp: bit_simps less_Suc_eq_le not_less)
  then have "unat b = take_bit (Suc m) (unat b)" by (metis unsigned_take_bit_eq)
  then have "unat b < 2 ^ Suc m" by (metis take_bit_nat_less_exp)
  moreover have "2 ^ m \<le> unat b"
  proof (rule ccontr)
    assume "\<not> 2 ^ m \<le> unat b"
    then have "unat b div 2 ^ m = 0" by simp
    then have "\<not> bit (unat b) m" by (simp add: bit_iff_odd)
    with assms show False by (simp add: bit_unsigned_iff)
  qed
  ultimately have "bit_length (unat b) = Suc m" by (intro bit_length_eqI)
  then show ?thesis using assms(1) by (simp add: LeadingZeros8_def bits_Len_def)
qed

lemma varint_code_leading_zeros:
  "1 \<le> k \<Longrightarrow> k \<le> 8 \<Longrightarrow> LeadingZeros8 (varint_code k x ! 0) = k - 1"
proof -
  assume k: "1 \<le> k" "k \<le> 8"
  then have "8 - k + 8 * (k - 1 - 0) = 7 * k" by linarith
  then have "LeadingZeros8 (varint_code k x ! 0) = 7 - (8 - k)"
    using k by (intro LeadingZeros8_eqI) (auto simp: bit_varint_code_nth)
  then show ?thesis using k by simp
qed

lemma varint_code_zero_byte: "k = 9 \<or> k = 10 \<Longrightarrow> varint_code k x ! 0 = 0"
  by (auto intro!: bit_word_eqI simp: bit_varint_code_nth)

lemma varint_code_9_leading_zeros: "LeadingZeros8 (varint_code 9 x ! 1) = 0"
  using LeadingZeros8_eqI [of 7 "varint_code 9 x ! 1"] by (simp add: bit_varint_code_nth)

lemma LeadingZeros8_0 [simp]: "LeadingZeros8 0 = 8"
  by (simp add: LeadingZeros8_def bits_Len_def)

lemma LeadingZeros8_prefixes [simp]: "LeadingZeros8 0x40 = 1" "LeadingZeros8 0x7f = 1"
  by (simp_all add: LeadingZeros8_def bits_Len_def bit_length_pos)

lemma varint_code_10_second:
  assumes "x \<in> varint_range"
  shows "varint_code 10 x ! 1 = (if x < 0 then 0x7f else 0x40)"
proof -
  have "bit x i = (x < 0)" if "64 \<le> i" for i
    using assms that bit_neg_high [of 64 x i] bit_nonneg_high [of x 64 i]
    by (cases "x < 0") (auto simp: varint_range_def)
  then show ?thesis
    by (auto intro!: byte_eqI simp: bit_varint_code_nth)
qed

lemma SizeBytes_bounds:
  assumes "x \<in> varint_range"
  shows "1 \<le> SizeBytes x" "SizeBytes x \<le> 10"
    "- (2 ^ (7 * SizeBytes x - 1)) \<le> x" "x < 2 ^ (7 * SizeBytes x - 1)"
proof -
  define m where "m = varint_magnitude x"
  have s: "SizeBytes x = bit_length m div 7 + 1" using SizeBytes_magnitude [OF assms] by (simp add: m_def)
  then show "1 \<le> SizeBytes x" by simp
  have "int m < 2 ^ 64" using assms by (auto simp: m_def varint_magnitude_def varint_range_def not_int_def)
  then have "m < 2 ^ 64" by simp
  then have "bit_length m \<le> 64" by (rule bit_length_le)
  then have "bit_length m div 7 \<le> 64 div 7" by (rule div_le_mono)
  then show "SizeBytes x \<le> 10" by (simp add: s)
  have "bit_length m \<le> 7 * SizeBytes x - 1" unfolding s by presburger
  then have "m < 2 ^ (7 * SizeBytes x - 1)" by (simp add: bit_length_le_iff)
  then have "int m < 2 ^ (7 * SizeBytes x - 1)" by (metis of_nat_less_iff of_nat_numeral of_nat_power)
  then show "- (2 ^ (7 * SizeBytes x - 1)) \<le> x" "x < 2 ^ (7 * SizeBytes x - 1)"
    by (auto simp: m_def varint_magnitude_def not_int_def split: if_splits)
qed


lemma sign_from_range:
  "- (2 ^ m) \<le> x \<Longrightarrow> x < 2 ^ m \<Longrightarrow> sign_from m x"
  unfolding sign_from_def
proof (intro allI impI)
  fix i assume "- (2 ^ m) \<le> x" "x < 2 ^ m" "m \<le> i"
  then show "bit x i = bit x m"
    using bit_neg_high [of m x i] bit_nonneg_high [of x m i] bit_neg_high [of m x m] bit_nonneg_high [of x m m]
    by (cases "x < 0") simp_all
qed

lemma int_type_range_varint: "int_type_wf T \<Longrightarrow> int_type_range T \<subseteq> varint_range"
  by (cases T) (auto simp: varint_range_def)

lemma convert_range: "int_type_wf T \<Longrightarrow> x \<in> int_type_range T \<Longrightarrow> convert T x = x"
  by (cases T) (auto simp: take_bit_int_eq_self signed_take_bit_int_eq_self)

lemma check_bounds_in_range:
  assumes "int_type_wf T" "x \<in> int_type_range T" "- (2 ^ 63) \<le> x" "x < 2 ^ 63"
  shows "check_bounds T (word_of_int x) len = (x, len)"
proof -
  have s: "sint (word_of_int x :: uint64) = x" using assms by (intro sint_word_of_int64) auto
  have "\<not> (is_unsigned T \<and> x < 0)" using assms by (cases T) auto
  then show ?thesis using s convert_range [OF assms(1,2)] by (simp add: check_bounds_def Let_def)
qed

lemma nth_eq_UintBE_1: "i < length src \<Longrightarrow> ucast (src ! i) = UintBE 1 (drop i src)"
  by (simp add: UintBE_def of_be_def Cons_nth_drop_Suc [symmetric])

lemma ConsumeForward_code_short:
  assumes k: "1 \<le> k" "k \<le> 9" and bits: "sign_from (7 * k - 1) x"
  shows "ConsumeForward T (varint_code k x @ rest) = check_bounds T (word_of_int x) (int k)"
proof -
  define src where "src = varint_code k x @ rest"
  have first: "ucast (src ! 0) = UintBE 1 src"
    using nth_eq_UintBE_1 [of 0 src] k by (simp add: src_def)
  have lz: "LeadingZeros8 (src ! 0) = (if k \<le> 8 then k - 1 else 8)"
    using k varint_code_leading_zeros [of k x] varint_code_zero_byte [of k x]
    by (cases "k = 9") (auto simp: src_def nth_append)
  have lz1: "LeadingZeros8 ((varint_code 9 x @ rest) ! 1) = 0"
    using varint_code_9_leading_zeros [of x] by (simp add: nth_append)
  have len: "length src = k + length rest" by (simp add: src_def)
  note d = forward_decode_branches [where x = x and rest = rest]
  have "k = 1 \<or> k = 2 \<or> k = 3 \<or> k = 4 \<or> k = 5 \<or> k = 6 \<or> k = 7 \<or> k = 8 \<or> k = 9"
    using k by linarith
  then have "ConsumeForward T src = check_bounds T (word_of_int x) (int k)"
    unfolding ConsumeForward_def Let_def first lz len
    by (elim disjE; use bits in \<open>simp add: d lz1 src_def del: drop_append One_nat_def\<close>)
  then show ?thesis by (simp add: src_def)
qed

lemma varint_code_10_third:
  assumes "- (2 ^ 63) \<le> x" "x < 2 ^ 63"
  shows "varint_code 10 x ! 2 < 0x80 \<longleftrightarrow> 0 \<le> x"
proof -
  define b where "b = varint_code 10 x ! 2"
  have "bit x 63 = (x < 0)"
    using assms bit_neg_high [of 63 x 63] bit_nonneg_high [of x 63 63] by (cases "x < 0") auto
  then have "bit b 7 = (x < 0)" by (simp add: b_def bit_varint_code_nth)
  moreover have "b < 0x80 \<longleftrightarrow> \<not> bit b 7"
  proof -
    have "unat b < 2 * 2 ^ 7" using unat_less_exp [of b] by simp
    then have "unat b div 2 ^ 7 = 0 \<or> unat b div 2 ^ 7 = 1"
      using less_mult_imp_div_less [of "unat b" 2 "2 ^ 7"] by linarith
    then have "bit (unat b) 7 \<longleftrightarrow> \<not> unat b < 128"
      by (auto simp: bit_iff_odd div_eq_0_iff)
    then show ?thesis by (simp add: bit_unsigned_iff word_less_nat_alt)
  qed
  ultimately show ?thesis by (simp add: b_def not_less)
qed

lemma ConsumeForward_code_10:
  assumes T: "int_type_wf T" "x \<in> int_type_range T"
  shows "ConsumeForward T (varint_code 10 x @ rest) = (x, 10)"
proof -
  define src where "src = varint_code 10 x @ rest"
  have x: "x \<in> varint_range" using T int_type_range_varint by blast
  have bytes: "src ! 0 = 0" "src ! 1 = (if x < 0 then 0x7f else 0x40)"
    "src ! 2 = varint_code 10 x ! 2" "length src = 10 + length rest"
    using varint_code_zero_byte [of 10 x] varint_code_10_second [OF x]
    by (auto simp: src_def nth_append simp del: One_nat_def)
  have v: "UintBE 8 (drop 2 src) = word_of_int x"
    unfolding src_def by (rule forward_decode_branches(10))
  have "ConsumeForward T src = (x, 10)"
  proof (cases "is_unsigned T")
    case True
    then have "0 \<le> x" "x < 2 ^ 64" using T x by (cases T; auto simp: varint_range_def)+
    then have "uint (word_of_int x :: uint64) = x" by (simp add: unsigned_of_int take_bit_int_eq_self)
    then show ?thesis using True \<open>0 \<le> x\<close> convert_range [OF T]
      by (simp add: ConsumeForward_def Let_def bytes v del: One_nat_def)
  next
    case False
    then have b: "- (2 ^ 63) \<le> x" "x < 2 ^ 63" using T by (cases T; auto)+
    show ?thesis using False varint_code_10_third [OF b] check_bounds_in_range [OF T b]
      by (cases "x < 0") (simp_all add: ConsumeForward_def Let_def bytes v not_less del: One_nat_def)
  qed
  then show ?thesis by (simp add: src_def)
qed

lemma ConsumeForward_code:
  assumes T: "int_type_wf T" "x \<in> int_type_range T"
  shows "ConsumeForward T (varint_code (SizeBytes x) x @ rest) = (x, int (SizeBytes x))"
proof -
  have x: "x \<in> varint_range" using T int_type_range_varint by blast
  note b = SizeBytes_bounds [OF x]
  show ?thesis
  proof (cases "SizeBytes x = 10")
    case True
    then show ?thesis using ConsumeForward_code_10 [OF T, of rest] by simp
  next
    case False
    then have k: "SizeBytes x \<le> 9" using b(2) by simp
    then have "(2::int) ^ (7 * SizeBytes x - 1) \<le> 2 ^ 63" by (intro power_increasing) auto
    then have "- (2 ^ 63) \<le> x" "x < 2 ^ 63" using b(3,4) by linarith+
    then show ?thesis
      using ConsumeForward_code_short [OF b(1) k sign_from_range [OF b(3,4)], of T rest]
        check_bounds_in_range [OF T] by simp
  qed
qed


lemma AppendBackward_eq: "AppendBackward dst x = dst @ rev (AppendForward [] x)"
  by (simp add: AppendBackward_def AppendForward_def AppendUintLE_def AppendUintBE_def Let_def)

lemma UintLE_drop_rev:
  assumes "k \<le> m" "m \<le> length src"
  shows "UintLE k (drop (length src - m) src) = UintBE k (drop (m - k) (rev src))"
proof -
  have "take k (drop (length src - m) src) = rev (take k (drop (m - k) (rev src)))"
    using assms by (intro nth_equalityI) (auto simp: rev_nth)
  then show ?thesis by (simp add: UintLE_def UintBE_def of_be_def)
qed

lemma nth_last_rev: "1 \<le> i \<Longrightarrow> i \<le> length src \<Longrightarrow> src ! (length src - i) = rev src ! (i - 1)"
  by (simp add: rev_nth)

lemma LeadingZeros8_le: "LeadingZeros8 b \<le> 8"
  by (simp add: LeadingZeros8_def)

lemma ConsumeBackward_eq: "ConsumeBackward T src = ConsumeForward T (rev src)"
proof (cases "1 \<le> length src")
  case True
  define z where "z = LeadingZeros8 (rev src ! 0)"
  have last: "src ! (length src - 1) = rev src ! 0" using True nth_last_rev [of 1 src] by simp
  note u = UintLE_drop_rev [where src = src] nth_last_rev [where src = src]
  have "z \<le> 8" by (simp add: z_def LeadingZeros8_le)
  then consider "length src < 1 + z" | "1 + z \<le> length src" "z = 0 \<or> z = 1 \<or> z = 2 \<or> z = 3"
    | "1 + z \<le> length src" "z = 4 \<or> z = 5 \<or> z = 6 \<or> z = 7"
    | "9 \<le> length src" "z = 8"
    by linarith
  then show ?thesis
  proof cases
    case 1
    then show ?thesis using True
      by (simp add: ConsumeBackward_def ConsumeForward_def last z_def [symmetric] del: One_nat_def)
  next
    case 2
    from 2(2) show ?thesis unfolding ConsumeBackward_def ConsumeForward_def Let_def last z_def [symmetric]
      by (elim disjE; use 2(1) in \<open>simp add: u\<close>)
  next
    case 3
    from 3(2) show ?thesis unfolding ConsumeBackward_def ConsumeForward_def Let_def last z_def [symmetric]
      by (elim disjE; use 3(1) in \<open>simp add: u\<close>)
  next
    case 4
    define y where "y = LeadingZeros8 (rev src ! 1)"
    have "src ! (length src - 2) = rev src ! 1" "src ! (length src - 3) = rev src ! 2"
      using u(2) [of 2] u(2) [of 3] 4 by simp_all
    note snd = this
    show ?thesis unfolding ConsumeBackward_def ConsumeForward_def Let_def last z_def [symmetric] snd
      y_def [symmetric] 4(2)
      using 4(1) u(1) [of 8 9] u(1) [of 8 10] by (cases "y = 0"; cases "length src < 9 + y") simp_all
  qed
qed (simp add: ConsumeBackward_def ConsumeForward_def)

lemma check_bounds_cases:
  assumes "int_type_wf T"
  shows "check_bounds T v len = (0, -1) \<or> (\<exists>x \<in> int_type_range T. check_bounds T v len = (x, len))"
proof -
  have "convert T y \<in> int_type_range T" for y
    using assms by (cases T) (auto simp: signed_take_bit_int_greater_eq_minus_exp signed_take_bit_int_less_exp take_bit_int_less_exp)
  then show ?thesis by (auto simp: check_bounds_def Let_def)
qed

text \<open>What a decoder may return for a given input.\<close>

definition consume_ok :: "int_type \<Rightarrow> bytes \<Rightarrow> int \<times> int \<Rightarrow> bool" where
  "consume_ok T src r \<longleftrightarrow>
     r = (0, -1) \<or> fst r \<in> int_type_range T \<and> 1 \<le> snd r \<and> snd r \<le> int (length src)"

lemma consume_ok_intros:
  "consume_ok T src (0, -1)"
  "int_type_wf T \<Longrightarrow> 1 \<le> len \<Longrightarrow> len \<le> length src \<Longrightarrow> consume_ok T src (check_bounds T v (int len))"
  "int_type_wf T \<Longrightarrow> 1 \<le> len \<Longrightarrow> len \<le> length src \<Longrightarrow> consume_ok T src (convert T y, int len)"
  "(b \<Longrightarrow> consume_ok T src r) \<Longrightarrow> (\<not> b \<Longrightarrow> consume_ok T src s) \<Longrightarrow> consume_ok T src (if b then r else s)"
proof -
  show "int_type_wf T \<Longrightarrow> 1 \<le> len \<Longrightarrow> len \<le> length src \<Longrightarrow> consume_ok T src (check_bounds T v (int len))"
    using check_bounds_cases [of T v "int len"] by (auto simp: consume_ok_def)
  show "int_type_wf T \<Longrightarrow> 1 \<le> len \<Longrightarrow> len \<le> length src \<Longrightarrow> consume_ok T src (convert T y, int len)"
    by (cases T) (auto simp: consume_ok_def signed_take_bit_int_greater_eq_minus_exp signed_take_bit_int_less_exp take_bit_int_less_exp)
qed (auto simp: consume_ok_def)

lemma ConsumeForward_ok: "int_type_wf T \<Longrightarrow> consume_ok T src (ConsumeForward T src)"
  unfolding ConsumeForward_def Let_def by (intro consume_ok_intros) (auto simp: Suc_le_eq)

section \<open>The streaming decoder\<close>

lemma read_remaining_bytes:
  "length bs = n \<Longrightarrow> rd_bytes r = bs @ rest \<Longrightarrow>
   read_remaining n v r = (Inr (push_bit (8 * n) v OR UintBE n bs), r\<lparr>rd_bytes := rest\<rparr>)"
proof (induction n v r arbitrary: bs rule: read_remaining.induct)
  case (1 v r)
  then show ?case by (simp add: UintBE_def of_be_def)
next
  case (2 n v r)
  then obtain b bs' where bs: "bs = b # bs'" "length bs' = n" by (cases bs) auto
  then show ?case using 2
    by (simp add: ReadByte_def UintBE_def of_be_Cons push_bit_or or.assoc add.commute)
qed

lemma read_remaining_eof:
  "rd_err r = ErrEOF \<Longrightarrow> length (rd_bytes r) < n \<Longrightarrow> fst (read_remaining n v r) = Inl ErrUnexpectedEOF"
proof (induction n v r rule: read_remaining.induct)
  case (2 n v r)
  then show ?case by (cases "rd_bytes r") (auto simp: ReadByte_def)
qed simp

lemma UintBE_0 [simp]: "UintBE 0 bs = 0"
  by (simp add: UintBE_def of_be_def)

lemmas bit_UintBE_code =
  bit_UintBE_varint_code_0 [where rest = "[]", unfolded append_Nil2]
  bit_UintBE_varint_code [where rest = "[]", unfolded append_Nil2]

lemma read_decode_short:
  assumes k: "1 \<le> k" "k \<le> 7" and x: "sign_from (7 * k - 1) x"
  shows "push_bit (8 * (k - 1)) (shl_sar (56 + k) (56 + k) (UintBE 1 (varint_code k x)))
    OR UintBE (k - 1) (drop 1 (varint_code k x)) = word_of_int x"
proof -
  have "k = 1 \<or> k = 2 \<or> k = 3 \<or> k = 4 \<or> k = 5 \<or> k = 6 \<or> k = 7" using k by linarith
  moreover have e: "40 \<le> n \<Longrightarrow> n < 41 \<Longrightarrow> n = 40" for n :: nat by simp
  ultimately show ?thesis
    by (elim disjE; intro sign_extend_eqI [OF x])
       (auto simp: bit_UintBE_code bit_shl_sar bit_or_iff bit_push_bit_iff not_less
          simp del: One_nat_def dest: e)
qed

lemma read_decode_8:
  "push_bit 56 (shl_sar 64 64 (UintBE 1 (varint_code 8 x)))
    OR UintBE 7 (drop 1 (varint_code 8 x)) = word_of_int (take_bit 56 x)"
  by (rule bit_word_eqI) (auto simp: bit_UintBE_code bit_shl_sar bit_or_iff bit_push_bit_iff bit_simps simp del: One_nat_def)

lemma read_decode_9:
  assumes x: "sign_from 62 x"
  shows "push_bit 56 (shl_sar 57 57 (UintBE 1 (drop 1 (varint_code 9 x))))
    OR UintBE 7 (drop 2 (varint_code 9 x)) = word_of_int x"
  by (rule sign_extend_eqI [OF x])
     (auto simp: bit_UintBE_code bit_shl_sar bit_or_iff bit_push_bit_iff simp del: One_nat_def)

lemma read_decode_10:
  "push_bit 56 (shl_sar 56 56 (UintBE 1 (drop 2 (varint_code 10 x))))
    OR UintBE 7 (drop 3 (varint_code 10 x)) = word_of_int x"
  by (rule bit_word_eqI)
     (auto simp: bit_UintBE_code bit_shl_sar bit_or_iff bit_push_bit_iff bit_word_of_int_iff simp del: One_nat_def)

lemma read_finish_bytes:
  assumes "length bs = len" "rd_bytes r = bs @ rest"
    and "push_bit (8 * len) (shl_sar s s (ucast b)) OR UintBE len bs = word_of_int y"
    and "nat (57 + lz) = s" "int_type_wf T" "y \<in> int_type_range T" "- (2 ^ 63) \<le> y" "y < 2 ^ 63"
  shows "read_finish T lz len b r = (Inr y, r\<lparr>rd_bytes := rest\<rparr>)"
proof -
  have s: "sint (word_of_int y :: uint64) = y" using assms by (intro sint_word_of_int64) auto
  have "\<not> (is_unsigned T \<and> y < 0)" using assms by (cases T) auto
  then show ?thesis
    using assms s convert_range [OF assms(5,6)]
    by (simp add: read_finish_def Let_def read_remaining_bytes)
qed

lemma ReadForward_short:
  assumes x: "sign_from (7 * k - 1) x" and k: "1 \<le> k" "k \<le> 8" and r: "rd_bytes r = varint_code k x @ rest"
    and T: "int_type_wf T" "y \<in> int_type_range T" "- (2 ^ 63) \<le> y" "y < 2 ^ 63"
    and y: "y = (if k = 8 then take_bit 56 x else x)"
  shows "ReadForward T r = (Inr y, r\<lparr>rd_bytes := rest\<rparr>)"
proof -
  obtain b bs where c: "varint_code k x = b # bs" "length bs = k - 1"
    using length_varint_code [of k x] k by (cases "varint_code k x") auto
  have lz: "LeadingZeros8 b = k - 1" using varint_code_leading_zeros [OF k, of x] c by simp
  have b1: "ucast b = UintBE 1 (varint_code k x)" "UintBE (k - 1) bs = UintBE (k - 1) (drop 1 (varint_code k x))"
    by (simp_all add: c UintBE_def of_be_def)
  have "push_bit (8 * (k - 1)) (shl_sar (56 + k) (56 + k) (ucast b)) OR UintBE (k - 1) bs = word_of_int y"
    unfolding b1 using read_decode_short [OF k(1) _ x] read_decode_8 [of x] k y by (cases "k = 8") auto
  then have "read_finish T (int (k - 1)) (k - 1) b (r\<lparr>rd_bytes := bs @ rest\<rparr>)
    = (Inr y, r\<lparr>rd_bytes := rest\<rparr>)"
    using c k T by (subst read_finish_bytes [where s = "56 + k" and y = y and rest = rest and bs = bs]) auto
  moreover have "k - 1 \<noteq> 8" using k by simp
  ultimately show ?thesis using r c lz by (simp add: ReadForward_def ReadByte_def Let_def)
qed

lemma ReadForward_9:
  assumes x: "sign_from 62 x" and r: "rd_bytes r = varint_code 9 x @ rest"
    and T: "int_type_wf T" "x \<in> int_type_range T" "- (2 ^ 63) \<le> x" "x < 2 ^ 63"
  shows "ReadForward T r = (Inr x, r\<lparr>rd_bytes := rest\<rparr>)"
proof -
  obtain a b bs where c: "varint_code 9 x = a # b # bs" "length bs = 7"
    using length_varint_code [of 9 x] by (cases "varint_code 9 x"; cases "tl (varint_code 9 x)") auto
  have lz: "a = 0" "LeadingZeros8 b = 0"
    using varint_code_zero_byte [of 9 x] varint_code_9_leading_zeros [of x] c by simp_all
  have "ucast b = UintBE 1 (drop 1 (varint_code 9 x))" "UintBE 7 bs = UintBE 7 (drop 2 (varint_code 9 x))"
    by (simp_all add: c UintBE_def of_be_def)
  then have "push_bit 56 (shl_sar 57 57 (ucast b)) OR UintBE 7 bs = word_of_int x"
    using read_decode_9 [OF x] by simp
  then have "read_finish T 0 7 b (r\<lparr>rd_bytes := bs @ rest\<rparr>) = (Inr x, r\<lparr>rd_bytes := rest\<rparr>)"
    using c T by (subst read_finish_bytes [where s = 57 and y = x and rest = rest and bs = bs]) auto
  then show ?thesis using r c lz by (simp add: ReadForward_def ReadByte_def Let_def)
qed


lemma ReadForward_10:
  assumes r: "rd_bytes r = varint_code 10 x @ rest"
    and T: "int_type_wf T" "x \<in> int_type_range T"
  shows "ReadForward T r = (Inr x, r\<lparr>rd_bytes := rest\<rparr>)"
proof -
  have x: "x \<in> varint_range" using T int_type_range_varint by blast
  obtain a b b' bs where c: "varint_code 10 x = a # b # b' # bs" "length bs = 7"
    using length_varint_code [of 10 x]
    by (cases "varint_code 10 x"; cases "tl (varint_code 10 x)"; cases "tl (tl (varint_code 10 x))") auto
  have first: "a = 0" "b = (if x < 0 then 0x7f else 0x40)" "b' = varint_code 10 x ! 2"
    using varint_code_zero_byte [of 10 x] varint_code_10_second [OF x] c by simp_all
  have v: "UintBE 8 (b' # bs) = word_of_int x"
    using forward_decode_branches(10) [of x "[]"] by (simp add: c)
  show ?thesis
  proof (cases "is_unsigned T")
    case True
    then have u: "0 \<le> x" "x < 2 ^ 64" using T x by (cases T; auto simp: varint_range_def)+
    then have "uint (word_of_int x :: uint64) = x" by (simp add: unsigned_of_int take_bit_int_eq_self)
    moreover have "read_remaining 8 0 (r\<lparr>rd_bytes := b' # bs @ rest\<rparr>) = (Inr (word_of_int x), r\<lparr>rd_bytes := rest\<rparr>)"
      using c v by (subst read_remaining_bytes [where bs = "b' # bs" and rest = rest]) simp_all
    ultimately show ?thesis using True r c first(1,2) u convert_range [OF T]
      by (simp add: ReadForward_def ReadByte_def Let_def)
  next
    case False
    then have b: "- (2 ^ 63) \<le> x" "x < 2 ^ 63" using T by (cases T; auto)+
    have "ucast b' = UintBE 1 (drop 2 (varint_code 10 x))" "UintBE 7 bs = UintBE 7 (drop 3 (varint_code 10 x))"
      by (simp_all add: c UintBE_def of_be_def)
    then have "push_bit 56 (shl_sar 56 56 (ucast b')) OR UintBE 7 bs = word_of_int x"
      using read_decode_10 [of x] by simp
    then have "read_finish T (-1) 7 b' (r\<lparr>rd_bytes := bs @ rest\<rparr>) = (Inr x, r\<lparr>rd_bytes := rest\<rparr>)"
      using c T b by (subst read_finish_bytes [where s = 56 and y = x and rest = rest and bs = bs]) auto
    moreover have "b' < 0x80 \<longleftrightarrow> 0 \<le> x" using varint_code_10_third [OF b] first(3) by simp
    ultimately show ?thesis using False r c first(1,2)
      by (cases "x < 0") (simp_all add: ReadForward_def ReadByte_def Let_def not_less not_le)
  qed
qed

lemma SizeBytes_le_7:
  assumes "x \<in> varint_range" "- (2 ^ 48) \<le> x" "x < 0"
  shows "SizeBytes x \<le> 7"
proof -
  have "varint_magnitude x < 2 ^ 48" using assms by (simp add: varint_magnitude_def not_int_def)
  then have "bit_length (varint_magnitude x) div 7 \<le> 48 div 7" by (intro div_le_mono bit_length_le)
  then show ?thesis using SizeBytes_magnitude [OF assms(1)] by simp
qed

lemma ReadForward_code:
  assumes T: "int_type_wf T" "x \<in> int_type_range T" and x: "x < - (2 ^ 55) \<or> - (2 ^ 48) \<le> x"
    and r: "rd_bytes r = varint_code (SizeBytes x) x @ rest"
  shows "ReadForward T r = (Inr x, r\<lparr>rd_bytes := rest\<rparr>)"
proof -
  have v: "x \<in> varint_range" using T int_type_range_varint by blast
  note b = SizeBytes_bounds [OF v]
  note sf = sign_from_range [OF b(3,4)]
  consider "SizeBytes x = 10" | "SizeBytes x \<le> 9" using b(2) by linarith
  then show ?thesis
  proof cases
    case 2
    then have "(2::int) ^ (7 * SizeBytes x - 1) \<le> 2 ^ 63" by (intro power_increasing) auto
    then have i: "- (2 ^ 63) \<le> x" "x < 2 ^ 63" using b(3,4) by linarith+
    have "x = take_bit 56 x" if "SizeBytes x = 8"
      using x b(3,4) SizeBytes_le_7 [OF v] that
      by (cases "x < 0") (auto simp: take_bit_int_eq_self)
    then show ?thesis using ReadForward_short [OF sf b(1) _ r T i] ReadForward_9 [of x r rest T] sf r T i 2
      by (cases "SizeBytes x = 9") auto
  qed (use ReadForward_10 [OF _ T] r in simp)
qed

lemma ReadForward_deviation:
  assumes x: "- (2 ^ 55) \<le> x" "x < - (2 ^ 48)" and r: "rd_bytes r = varint_code (SizeBytes x) x @ rest"
  shows "ReadForward (Signed 64) r = (Inr (x + 2 ^ 56), r\<lparr>rd_bytes := rest\<rparr>)"
proof -
  have v: "x \<in> varint_range" using x by (auto simp: varint_range_def)
  have k: "SizeBytes x = 8"
    using SizeBytes_eqI [OF v, of 7] x by (auto simp: varint_magnitude_def not_int_def)
  have "take_bit 56 x = x + 2 ^ 56"
    using x mod_add_self2 [of x "2 ^ 56"] mod_pos_pos_trivial [of "x + 2 ^ 56" "2 ^ 56"]
    by (simp add: take_bit_eq_mod)
  then show ?thesis
    using ReadForward_short [of 8 x r rest "Signed 64"] x r k sign_from_range [of 55 x] by auto
qed

section \<open>Properties\<close>

text \<open>
  C27. Forward encoding round trip: for every value of every Go integer type, \<open>AppendForward\<close>
  produces the reference encoding of \<open>SizeBytes\<close> bytes, and \<open>ConsumeForward\<close> at the
  same type recovers the value and consumes exactly these bytes, whatever follows them.
\<close>

theorem varint_forward_roundtrip:
  assumes "int_type_wf T" "x \<in> int_type_range T"
  shows "AppendForward dst x = dst @ varint_code (SizeBytes x) x
    \<and> length (AppendForward [] x) = SizeBytes x
    \<and> ConsumeForward T (AppendForward [] x @ rest) = (x, int (SizeBytes x))"
proof -
  have "x \<in> varint_range" using assms int_type_range_varint by blast
  then show ?thesis using ConsumeForward_code [OF assms, of rest]
    AppendForward_eq [of x dst] AppendForward_eq [of x "[]"] by simp
qed

theorem varint_forward_roundtrip_witness:
  "ConsumeForward (Signed 64) (AppendForward [] (-300) @ [1, 2]) = (-300, int (SizeBytes (-300)))"
  by (rule varint_forward_roundtrip [of "Signed 64" "-300" "[]" "[1, 2]", THEN conjunct2, THEN conjunct2])
     simp_all

text \<open>
  C28. The backward encoding is the mirror image of the forward one: \<open>AppendBackward\<close> appends
  the reversed bytes of \<open>AppendForward\<close>, \<open>ConsumeBackward\<close> behaves on every input
  like \<open>ConsumeForward\<close> on the reversed input, and therefore recovers any value appended to
  any prefix.
\<close>

theorem varint_backward_roundtrip:
  assumes "int_type_wf T" "x \<in> int_type_range T"
  shows "AppendBackward dst x = dst @ rev (AppendForward [] x)
    \<and> ConsumeBackward T src = ConsumeForward T (rev src)
    \<and> ConsumeBackward T (AppendBackward dst x) = (x, int (SizeBytes x))"
proof -
  have "x \<in> varint_range" using assms int_type_range_varint by blast
  then show ?thesis using ConsumeForward_code [OF assms, of "rev dst"] AppendForward_eq [of x "[]"]
    by (simp add: AppendBackward_eq ConsumeBackward_eq)
qed

theorem varint_backward_roundtrip_witness:
  "ConsumeBackward (Unsigned 64) (AppendBackward [7] 18446744073709551615)
     = (18446744073709551615, int (SizeBytes 18446744073709551615))"
  by (rule varint_backward_roundtrip [of "Unsigned 64" 18446744073709551615 "[7]" "[]",
        THEN conjunct2, THEN conjunct2]) simp_all

text \<open>
  C29. Decoding arbitrary bytes is safe: both decoders either report failure, as \<open>(0, -1)\<close>, or
  consume at least one byte and no more than there are, and yield a value of the requested type.
\<close>

theorem varint_consume_safe:
  assumes "int_type_wf T"
  shows "consume_ok T src (ConsumeForward T src) \<and> consume_ok T src (ConsumeBackward T src)"
  using ConsumeForward_ok [OF assms, of src] ConsumeForward_ok [OF assms, of "rev src"]
  by (simp add: ConsumeBackward_eq consume_ok_def)

theorem varint_consume_safe_witness:
  "consume_ok (Signed 16) [0x00, 0x7f, 1] (ConsumeForward (Signed 16) [0x00, 0x7f, 1])"
  using varint_consume_safe [of "Signed 16" "[0x00, 0x7f, 1]"] by simp

text \<open>
  C38. The streaming decoder \<open>ReadForward\<close> inverts \<open>AppendForward\<close> and leaves the
  reader right behind the value, except for the values from \<open>-2^55\<close> up to but excluding
  \<open>-2^48\<close>: their eight byte encoding has no sign bit in its first byte, the shift count is 64,
  and at type \<open>int64\<close> the result is too large by \<open>2^56\<close>.
\<close>

theorem varint_read_forward:
  assumes "int_type_wf T" "x \<in> int_type_range T" "rd_bytes r = AppendForward [] x @ rest"
  shows "(x < - (2 ^ 55) \<or> - (2 ^ 48) \<le> x \<longrightarrow> ReadForward T r = (Inr x, r\<lparr>rd_bytes := rest\<rparr>))
    \<and> (- (2 ^ 55) \<le> x \<and> x < - (2 ^ 48) \<and> T = Signed 64 \<longrightarrow>
         ReadForward T r = (Inr (x + 2 ^ 56), r\<lparr>rd_bytes := rest\<rparr>))"
proof -
  have "x \<in> varint_range" using assms int_type_range_varint by blast
  then have "rd_bytes r = varint_code (SizeBytes x) x @ rest"
    using assms(3) by (simp add: AppendForward_eq)
  then show ?thesis using ReadForward_code [OF assms(1,2)] ReadForward_deviation by blast
qed

theorem varint_read_forward_witness:
  "fst (ReadForward (Signed 64) \<lparr>rd_bytes = AppendForward [] (- (2 ^ 50)), rd_err = ErrEOF\<rparr>)
     = Inr (2 ^ 56 - 2 ^ 50)
   \<and> fst (ReadForward (Signed 64) \<lparr>rd_bytes = AppendForward [] 5000, rd_err = ErrEOF\<rparr>) = Inr 5000"
  using varint_read_forward [of "Signed 64" "- (2 ^ 50)"
      "\<lparr>rd_bytes = AppendForward [] (- (2 ^ 50)), rd_err = ErrEOF\<rparr>" "[]"]
    varint_read_forward [of "Signed 64" 5000 "\<lparr>rd_bytes = AppendForward [] 5000, rd_err = ErrEOF\<rparr>" "[]"]
  by simp

end
