(* ===== verification/Lossy_Map.thy ===== *)
theory Lossy_Map
  imports Prelude
begin

text \<open>
  The fixed size, lossy hash map of \<open>pkg/ds/lossymap\<close>. Interfaces of Go become records of
  functions on an explicit state: \<open>RecordArray\<close> is the backing store. The locale
  \<open>record_array\<close> states what the hash map expects of its backing store; the probing invariant,
  the functional correctness of \<open>Get\<close> and the effect of \<open>Put\<close> are proved once for every
  backing store that satisfies it.
\<close>

section \<open>Records and record arrays\<close>

record 'k RecordKey =
  Key :: 'k
  Attempt :: uint8

record ('k, 'v) Record =
  RecordKey :: "'k RecordKey"
  Value :: 'v

record ('a, 'k, 'v, 'e) RecordArray =
  ra_Get :: "'a \<Rightarrow> uint64 \<Rightarrow> 'e \<Rightarrow> ('k, 'v) Record result"
  ra_Put :: "'a \<Rightarrow> uint64 \<Rightarrow> ('k, 'v) Record \<Rightarrow> 'e \<Rightarrow> go_error option \<times> 'a"

type_synonym 'v ValueComparator = "'v \<Rightarrow> 'v \<Rightarrow> int"

text \<open>\<open>simpleRecordArray\<close>: a slice that resides in memory. Indexing out of range panics.\<close>

definition NewSimpleRecordArray :: "('k, 'v) Record \<Rightarrow> nat \<Rightarrow> ('k, 'v) Record list" where
  "NewSimpleRecordArray zero count = replicate count zero"

definition simpleRecordArray_Get ::
  "('k, 'v) Record list \<Rightarrow> uint64 \<Rightarrow> unit \<Rightarrow> ('k, 'v) Record result" where
  "simpleRecordArray_Get records index unused =
     (if unat index < length records then Inr (records ! unat index) else Inl Panic)"

definition simpleRecordArray_Put ::
  "('k, 'v) Record list \<Rightarrow> uint64 \<Rightarrow> ('k, 'v) Record \<Rightarrow> unit \<Rightarrow> go_error option \<times> ('k, 'v) Record list" where
  "simpleRecordArray_Put records index record unused =
     (if unat index < length records then (None, records[unat index := record]) else (Some Panic, records))"

definition simpleRecordArray :: "(('k, 'v) Record list, 'k, 'v, unit) RecordArray" where
  "simpleRecordArray = \<lparr>ra_Get = simpleRecordArray_Get, ra_Put = simpleRecordArray_Put\<rparr>"

text \<open>\<open>lowerBoundComparingRecordArray\<close>: suppresses records below a provided value.\<close>

definition lowerBoundComparingRecordArray_Get ::
  "('a, 'k, 'v, unit) RecordArray \<Rightarrow> 'v ValueComparator \<Rightarrow> 'a \<Rightarrow> uint64 \<Rightarrow> 'v \<Rightarrow> ('k, 'v) Record result" where
  "lowerBoundComparingRecordArray_Get base valueComparator a index lowestValidValue =
     (case ra_Get base a index () of
        Inl err \<Rightarrow> Inl err
      | Inr record \<Rightarrow>
          if valueComparator (Value record) lowestValidValue < 0 then Inl ErrRecordInvalidOrExpired
          else Inr record)"

definition lowerBoundComparingRecordArray_Put ::
  "('a, 'k, 'v, unit) RecordArray \<Rightarrow> 'v ValueComparator \<Rightarrow> 'a \<Rightarrow> uint64 \<Rightarrow> ('k, 'v) Record \<Rightarrow> 'v
     \<Rightarrow> go_error option \<times> 'a" where
  "lowerBoundComparingRecordArray_Put base valueComparator a index record lowestValidValue =
     (if valueComparator (Value record) lowestValidValue < 0 then (None, a)
      else ra_Put base a index record ())"

definition NewLowerBoundComparingRecordArray ::
  "('a, 'k, 'v, unit) RecordArray \<Rightarrow> 'v ValueComparator \<Rightarrow> ('a, 'k, 'v, 'v) RecordArray" where
  "NewLowerBoundComparingRecordArray base valueComparator =
     \<lparr>ra_Get = lowerBoundComparingRecordArray_Get base valueComparator,
      ra_Put = lowerBoundComparingRecordArray_Put base valueComparator\<rparr>"

section \<open>The hash map\<close>

record ('a, 'k, 'v, 'e) hashMap =
  recordArray :: "('a, 'k, 'v, 'e) RecordArray"
  recordCount :: uint64
  recordKeyHasher :: "'k RecordKey \<Rightarrow> uint64"
  valueComparator :: "'v ValueComparator"
  maximumGetAttempts :: uint8
  maximumPutAttempts :: int

definition NewHashMap ::
  "('a, 'k, 'v, 'e) RecordArray \<Rightarrow> ('k RecordKey \<Rightarrow> uint64) \<Rightarrow> uint64 \<Rightarrow> 'v ValueComparator
     \<Rightarrow> uint8 \<Rightarrow> int \<Rightarrow> ('a, 'k, 'v, 'e) hashMap" where
  "NewHashMap ra hasher count cmp maxGet maxPut =
     \<lparr>recordArray = ra, recordCount = count, recordKeyHasher = hasher, valueComparator = cmp,
      maximumGetAttempts = maxGet, maximumPutAttempts = maxPut\<rparr>"

text \<open>The index at which a record is stored. The remainder by zero panics.\<close>

definition record_index :: "('a, 'k, 'v, 'e) hashMap \<Rightarrow> 'k RecordKey \<Rightarrow> uint64" where
  "record_index m rk = recordKeyHasher m rk mod recordCount m"

definition next_attempt :: "'k RecordKey \<Rightarrow> 'k RecordKey" where
  "next_attempt rk = rk\<lparr>Attempt := Attempt rk + 1\<rparr>"

function Get_loop ::
  "('a, 'k, 'v, 'e) hashMap \<Rightarrow> 'a \<Rightarrow> 'e \<Rightarrow> 'k RecordKey \<Rightarrow> 'v result" where
  "Get_loop m a expirationData recordKey =
    (if recordCount m = 0 then Inl Panic
     else
       case ra_Get (recordArray m) a (record_index m recordKey) expirationData of
         Inl err \<Rightarrow>
           if err = ErrRecordInvalidOrExpired then Inl (Status NotFound) else Inl err
       | Inr record \<Rightarrow>
           if RecordKey record = recordKey then Inr (Value record)
           else
             let recordKey = next_attempt recordKey in
             if Attempt recordKey \<ge> maximumGetAttempts m then Inl (Status NotFound)
             else Get_loop m a expirationData recordKey)"
  by pat_completeness auto

lemma unat_byte_Suc: "unat (b + 1 :: byte) = (if unat b = 255 then 0 else unat b + 1)"
  using unat_less_exp [of b] by (auto simp: unat_word_ariths)

text \<open>
  The probe sequence ends: the attempt counter approaches the maximum, or wraps around once.
\<close>

termination Get_loop
proof (relation "measure (\<lambda>(m, a, e, rk).
    if Attempt rk \<ge> maximumGetAttempts m then 256
    else unat (maximumGetAttempts m) - unat (Attempt rk))", goal_cases)
  case (2 m a e rk r x)
  then have "unat (Attempt rk + 1) < unat (maximumGetAttempts m)"
    by (simp add: next_attempt_def word_le_nat_alt)
  moreover have "unat (maximumGetAttempts m) < 256" using unat_bounds(1) by blast
  ultimately show ?case using 2(4)
    by (auto simp: next_attempt_def word_le_nat_alt unat_byte_Suc split: if_splits)
qed simp

declare Get_loop.simps [simp del]

definition hashMap_Get :: "('a, 'k, 'v, 'e) hashMap \<Rightarrow> 'a \<Rightarrow> 'k \<Rightarrow> 'e \<Rightarrow> 'v result" where
  "hashMap_Get m a key expirationData =
     Get_loop m a expirationData \<lparr>Key = key, Attempt = 0\<rparr>"

text \<open>The loop of \<open>Put\<close>; the first argument counts the iterations that are left.\<close>

fun Put_loop ::
  "nat \<Rightarrow> ('a, 'k, 'v, 'e) hashMap \<Rightarrow> 'a \<Rightarrow> ('k, 'v) Record \<Rightarrow> 'e \<Rightarrow> go_error option \<times> 'a" where
  "Put_loop 0 m a record expirationData = (None, a)"
| "Put_loop (Suc n) m a record expirationData =
    (if recordCount m = 0 then (Some Panic, a)
     else
       let index = record_index m (RecordKey record) in
       case ra_Get (recordArray m) a index expirationData of
         Inl err \<Rightarrow>
           if err = ErrRecordInvalidOrExpired
           then ra_Put (recordArray m) a index record expirationData
           else (Some err, a)
       | Inr oldRecord \<Rightarrow>
           if RecordKey oldRecord = RecordKey record then
             if valueComparator m (Value oldRecord) (Value record) < 0
             then ra_Put (recordArray m) a index record expirationData
             else (None, a)
           else
             let older = valueComparator m (Value oldRecord) (Value record) < 0 in
             case (if older then ra_Put (recordArray m) a index record expirationData else (None, a)) of
               (Some err, a) \<Rightarrow> (Some err, a)
             | (None, a) \<Rightarrow>
                 let record = (if older then oldRecord else record);
                     record = record\<lparr>RecordKey := next_attempt (RecordKey record)\<rparr>
                 in if Attempt (RecordKey record) \<ge> maximumGetAttempts m then (None, a)
                    else Put_loop n m a record expirationData)"

declare Put_loop.simps [simp del]

definition hashMap_Put ::
  "('a, 'k, 'v, 'e) hashMap \<Rightarrow> 'a \<Rightarrow> 'k \<Rightarrow> 'v \<Rightarrow> 'e \<Rightarrow> go_error option \<times> 'a" where
  "hashMap_Put m a key value expirationData =
     Put_loop (nat (maximumPutAttempts m)) m a
       \<lparr>RecordKey = \<lparr>Key = key, Attempt = 0\<rparr>, Value = value\<rparr> expirationData"


section \<open>What the hash map expects of its backing store\<close>

locale value_order =
  fixes cmp :: "'v ValueComparator"
  assumes cmp_asym: "cmp v w < 0 \<Longrightarrow> \<not> cmp w v < 0"
    and cmp_trans: "\<not> cmp v w < 0 \<Longrightarrow> \<not> cmp w x < 0 \<Longrightarrow> \<not> cmp v x < 0"
begin

lemma cmp_refl: "\<not> cmp v v < 0"
  using cmp_asym [of v v] by blast

lemma cmp_less_trans: "cmp v w < 0 \<Longrightarrow> \<not> cmp x w < 0 \<Longrightarrow> \<not> cmp x v < 0"
  using cmp_trans cmp_asym by blast

end

locale record_array = value_order cmp
  for cmp :: "'v ValueComparator" +
  fixes ra :: "('a, 'k, 'v, 'e) RecordArray"
    and ainv :: "'a \<Rightarrow> bool"
    and count :: nat
    and einv :: "'e \<Rightarrow> bool"
    and valid :: "'e \<Rightarrow> ('k, 'v) Record \<Rightarrow> bool"
    and wf :: "'k \<Rightarrow> bool"
  assumes ra_inv: "einv e \<Longrightarrow> ainv a \<Longrightarrow> unat i < count \<Longrightarrow> wf (Key (RecordKey r)) \<Longrightarrow>
      ra_Put ra a i r e = (None, a') \<Longrightarrow> ainv a'"
    and ra_get_wf: "ainv a \<Longrightarrow> unat i < count \<Longrightarrow> ra_Get ra a i e = Inr r \<Longrightarrow> wf (Key (RecordKey r))"
    and ra_get_put: "einv e \<Longrightarrow> ainv a \<Longrightarrow> unat i < count \<Longrightarrow> unat j < count \<Longrightarrow>
      wf (Key (RecordKey r)) \<Longrightarrow> ra_Put ra a i r e = (None, a') \<Longrightarrow>
      ra_Get ra a' j e = (if i = j \<and> valid e r then Inr r else ra_Get ra a j e)"

text \<open>
  The probing invariant: every record that can be read has, at each position that a lookup of its
  key probes before it, a record that is at least as new.
\<close>

definition probe_inv :: "('a, 'k, 'v, 'e) hashMap \<Rightarrow> 'e \<Rightarrow> 'a \<Rightarrow> bool" where
  "probe_inv m e a \<longleftrightarrow>
    (\<forall>i r. unat i < unat (recordCount m) \<longrightarrow> ra_Get (recordArray m) a i e = Inr r \<longrightarrow>
       (\<forall>j \<le> Attempt (RecordKey r). \<exists>r'.
          ra_Get (recordArray m) a (record_index m ((RecordKey r)\<lparr>Attempt := j\<rparr>)) e = Inr r'
          \<and> \<not> valueComparator m (Value r') (Value r) < 0))"

text \<open>The values that the hash map holds for a key, at the positions that a lookup may probe.\<close>

definition stored :: "('a, 'k, 'v, 'e) hashMap \<Rightarrow> 'e \<Rightarrow> 'a \<Rightarrow> 'k \<Rightarrow> 'v \<Rightarrow> bool" where
  "stored m e a k v \<longleftrightarrow>
    (\<exists>i. (i = 0 \<or> i < maximumGetAttempts m) \<and>
       ra_Get (recordArray m) a (record_index m \<lparr>Key = k, Attempt = i\<rparr>) e
         = Inr \<lparr>RecordKey = \<lparr>Key = k, Attempt = i\<rparr>, Value = v\<rparr>)"

lemma storedI:
  assumes "ra_Get (recordArray m) a (record_index m (RecordKey x)) e = Inr x"
    "Attempt (RecordKey x) = 0 \<or> Attempt (RecordKey x) < maximumGetAttempts m"
  shows "stored m e a (Key (RecordKey x)) (Value x)"
proof -
  obtain k i v where "x = \<lparr>RecordKey = \<lparr>Key = k, Attempt = i\<rparr>, Value = v\<rparr>"
    by (metis Record.surjective RecordKey.surjective old.unit.exhaust)
  then show ?thesis using assms by (auto simp: stored_def)
qed

text \<open>All keys and values that can be read from the array.\<close>

definition map_contents :: "('a, 'k, 'v, 'e) hashMap \<Rightarrow> 'e \<Rightarrow> 'a \<Rightarrow> ('k \<times> 'v) set" where
  "map_contents m e a = {(Key (RecordKey r), Value r) | i r.
     unat i < unat (recordCount m) \<and> ra_Get (recordArray m) a i e = Inr r}"

lemma record_index_less: "recordCount m \<noteq> 0 \<Longrightarrow> unat (record_index m rk) < unat (recordCount m)"
  by (simp add: record_index_def unat_mod_distrib) (metis bot_nat_0.not_eq_extremum mod_less_divisor unat_eq_zero)

lemma Get_loop_steps:
  assumes "recordCount m \<noteq> 0"
  shows "ra_Get (recordArray m) a (record_index m rk) e = Inl err \<Longrightarrow>
      Get_loop m a e rk = Inl (if err = ErrRecordInvalidOrExpired then Status NotFound else err)"
    and "ra_Get (recordArray m) a (record_index m rk) e = Inr r \<Longrightarrow> RecordKey r = rk \<Longrightarrow>
      Get_loop m a e rk = Inr (Value r)"
    and "ra_Get (recordArray m) a (record_index m rk) e = Inr r \<Longrightarrow> RecordKey r \<noteq> rk \<Longrightarrow>
      Get_loop m a e rk = (if maximumGetAttempts m \<le> Attempt rk + 1 then Inl (Status NotFound)
        else Get_loop m a e (next_attempt rk))"
  using assms by (subst Get_loop.simps; simp add: next_attempt_def)+

text \<open>A lookup never makes up values.\<close>

lemma Get_loop_stored:
  "Get_loop m a e rk = Inr v \<Longrightarrow> Attempt rk = 0 \<or> Attempt rk < maximumGetAttempts m \<Longrightarrow> stored m e a (Key rk) v"
proof (induction m a e rk rule: Get_loop.induct)
  case (1 m a e rk)
  have c: "recordCount m \<noteq> 0" using 1(2) by (auto simp: Get_loop.simps)
  then obtain r where r: "ra_Get (recordArray m) a (record_index m rk) e = Inr r"
    using 1(2) Get_loop_steps(1) [OF c, of a rk e] by (cases "ra_Get (recordArray m) a (record_index m rk) e") auto
  show ?case
  proof (cases "RecordKey r = rk")
    case True
    then show ?thesis using storedI [of m a r e] r 1(2,3) Get_loop_steps(2) [OF c r] by simp
  next
    case False
    then have "\<not> maximumGetAttempts m \<le> Attempt rk + 1" "Get_loop m a e (next_attempt rk) = Inr v"
      using 1(2) Get_loop_steps(3) [OF c r] by (auto split: if_splits)
    then show ?thesis using 1(1) [OF c r False] by (simp add: next_attempt_def not_le)
  qed
qed

lemma Get_loop_finds:
  assumes c: "recordCount m \<noteq> 0" and inv: "probe_inv m e a"
    and r: "ra_Get (recordArray m) a (record_index m (RecordKey r)) e = Inr r"
    and i: "Attempt (RecordKey r) = 0 \<or> Attempt (RecordKey r) < maximumGetAttempts m"
    and refl: "\<not> valueComparator m (Value r) (Value r) < 0"
  shows "j \<le> Attempt (RecordKey r) \<Longrightarrow>
    \<exists>v. Get_loop m a e ((RecordKey r)\<lparr>Attempt := j\<rparr>) = Inr v \<and> \<not> valueComparator m v (Value r) < 0"
proof (induction "unat (Attempt (RecordKey r)) - unat j" arbitrary: j rule: less_induct)
  case less
  define rk where "rk = (RecordKey r)\<lparr>Attempt := j\<rparr>"
  obtain r' where r': "ra_Get (recordArray m) a (record_index m rk) e = Inr r'"
    "\<not> valueComparator m (Value r') (Value r) < 0"
    using inv r record_index_less [OF c] less.prems unfolding probe_inv_def rk_def by blast
  show ?case
  proof (cases "RecordKey r' = rk")
    case True
    then show ?thesis using Get_loop_steps(2) [OF c r'(1)] r'(2) by (auto simp: rk_def)
  next
    case False
    have "j \<noteq> Attempt (RecordKey r)"
    proof
      assume "j = Attempt (RecordKey r)"
      then have "rk = RecordKey r" by (simp add: rk_def)
      then show False using r r'(1) False by simp
    qed
    then have j: "unat j < unat (Attempt (RecordKey r))" using less.prems by (simp add: word_le_nat_alt word_unat_eq_iff)
    then have s: "unat (j + 1) = unat j + 1" using unat_less_exp [of "Attempt (RecordKey r)"] by (simp add: unat_byte_Suc)
    then have le: "j + 1 \<le> Attempt (RecordKey r)" using j by (simp add: word_le_nat_alt)
    moreover have "\<not> maximumGetAttempts m \<le> j + 1"
      using le i j by (auto simp: word_le_nat_alt word_less_nat_alt)
    ultimately show ?thesis using Get_loop_steps(3) [OF c r'(1) False] less.hyps [of "j + 1"] s j
      by (simp add: rk_def next_attempt_def)
  qed
qed


text \<open>
  The loop of \<open>Put\<close> as a proof rule: a precondition on the array and the record that is
  carried, and a postcondition for each way in which an iteration continues or ends.
\<close>

lemma Put_loop_rule:
  assumes "Put_loop n m a r e = (None, a')" "P a r"
    and keep: "\<And>a r. P a r \<Longrightarrow> Q a r a"
    and final: "\<And>a r a'. P a r \<Longrightarrow>
      (\<And>x. ra_Get (recordArray m) a (record_index m (RecordKey r)) e = Inr x \<Longrightarrow>
        RecordKey x = RecordKey r \<and> valueComparator m (Value x) (Value r) < 0) \<Longrightarrow>
      ra_Put (recordArray m) a (record_index m (RecordKey r)) r e = (None, a') \<Longrightarrow> Q a r a'"
    and displace: "\<And>a r a' x. P a r \<Longrightarrow>
      ra_Get (recordArray m) a (record_index m (RecordKey r)) e = Inr x \<Longrightarrow>
      valueComparator m (Value x) (Value r) < 0 \<Longrightarrow> RecordKey x \<noteq> RecordKey r \<Longrightarrow>
      ra_Put (recordArray m) a (record_index m (RecordKey r)) r e = (None, a') \<Longrightarrow>
      P a' (x\<lparr>RecordKey := next_attempt (RecordKey x)\<rparr>) \<and> Q a r a'
      \<and> (\<forall>b. Q a' (x\<lparr>RecordKey := next_attempt (RecordKey x)\<rparr>) b \<longrightarrow> Q a r b)"
    and skip: "\<And>a r x. P a r \<Longrightarrow>
      ra_Get (recordArray m) a (record_index m (RecordKey r)) e = Inr x \<Longrightarrow>
      \<not> valueComparator m (Value x) (Value r) < 0 \<Longrightarrow> RecordKey x \<noteq> RecordKey r \<Longrightarrow>
      P a (r\<lparr>RecordKey := next_attempt (RecordKey r)\<rparr>)
      \<and> (\<forall>b. Q a (r\<lparr>RecordKey := next_attempt (RecordKey r)\<rparr>) b \<longrightarrow> Q a r b)"
  shows "Q a r a'"
  using assms(1,2)
proof (induction n arbitrary: a r)
  case 0
  then show ?case using keep by (simp add: Put_loop.simps)
next
  case (Suc n)
  define i where "i = record_index m (RecordKey r)"
  show ?case
  proof (cases "ra_Get (recordArray m) a i e")
    case (Inl err)
    then show ?thesis using Suc.prems final [of a r a']
      by (auto simp: Put_loop.simps Let_def i_def split: if_splits)
  next
    case (Inr x)
    show ?thesis
    proof (cases "RecordKey x = RecordKey r")
      case True
      then show ?thesis using Suc.prems Inr final [of a r a'] keep [of a r]
        by (auto simp: Put_loop.simps Let_def i_def split: if_splits)
    next
      case key: False
      show ?thesis
      proof (cases "valueComparator m (Value x) (Value r) < 0")
        case True
        then obtain b where b: "ra_Put (recordArray m) a i r e = (None, b)"
          using Suc.prems(1) key Inr
          by (auto simp: Put_loop.simps Let_def i_def split: if_splits prod.splits option.splits)
        note d = displace [OF Suc.prems(2) Inr [unfolded i_def] True key b [unfolded i_def]]
        show ?thesis using Suc.prems(1) Suc.IH [of b "x\<lparr>RecordKey := next_attempt (RecordKey x)\<rparr>"] b d key Inr True
          by (auto simp: Put_loop.simps Let_def i_def split: if_splits)
      next
        case False
        note d = skip [OF Suc.prems(2) Inr [unfolded i_def] False key]
        show ?thesis using Suc.prems Suc.IH [of a "r\<lparr>RecordKey := next_attempt (RecordKey r)\<rparr>"] d key Inr False
            keep [of a r]
          by (auto simp: Put_loop.simps Let_def i_def split: if_splits)
      qed
    qed
  qed
qed

locale hash_map = record_array cmp ra ainv count einv valid wf
  for cmp :: "'v ValueComparator"
    and ra :: "('a, 'k, 'v, 'e) RecordArray"
    and ainv :: "'a \<Rightarrow> bool"
    and count :: nat
    and einv :: "'e \<Rightarrow> bool"
    and valid :: "'e \<Rightarrow> ('k, 'v) Record \<Rightarrow> bool"
    and wf :: "'k \<Rightarrow> bool" +
  fixes m :: "('a, 'k, 'v, 'e) hashMap"
    and e :: 'e
  assumes e_inv: "einv e"
    and m_ra: "recordArray m = ra"
    and m_cmp: "valueComparator m = cmp"
    and m_count: "recordCount m \<noteq> 0" "unat (recordCount m) \<le> count"
begin

lemma index_less: "unat (record_index m rk) < unat (recordCount m)"
  by (rule record_index_less [OF m_count(1)])

lemma index_less_count: "unat (record_index m rk) < count"
  using index_less m_count(2) by (rule order_less_le_trans)

lemma get_loop_newest:
  assumes "probe_inv m e a" "stored m e a k w"
  shows "\<exists>v. hashMap_Get m a k e = Inr v \<and> \<not> cmp v w < 0"
proof -
  obtain i where i: "i = 0 \<or> i < maximumGetAttempts m"
    and r: "ra_Get (recordArray m) a (record_index m \<lparr>Key = k, Attempt = i\<rparr>) e
         = Inr \<lparr>RecordKey = \<lparr>Key = k, Attempt = i\<rparr>, Value = w\<rparr>"
    using assms(2) unfolding stored_def by blast
  show ?thesis
    using Get_loop_finds [OF m_count(1) assms(1), of "\<lparr>RecordKey = \<lparr>Key = k, Attempt = i\<rparr>, Value = w\<rparr>" 0]
      i r cmp_refl by (simp add: hashMap_Get_def m_cmp)
qed

text \<open>The values at the probed positions only ever become newer.\<close>

definition slots_le :: "'a \<Rightarrow> 'a \<Rightarrow> bool" where
  "slots_le a a' \<longleftrightarrow> (\<forall>i x. unat i < unat (recordCount m) \<longrightarrow> ra_Get ra a i e = Inr x \<longrightarrow>
     (\<exists>x'. ra_Get ra a' i e = Inr x' \<and> \<not> cmp (Value x') (Value x) < 0))"

definition reached :: "'a \<Rightarrow> ('k, 'v) Record \<Rightarrow> uint8 \<Rightarrow> bool" where
  "reached a r n \<longleftrightarrow> (\<forall>j < n. \<exists>r'. ra_Get ra a (record_index m ((RecordKey r)\<lparr>Attempt := j\<rparr>)) e = Inr r'
     \<and> \<not> cmp (Value r') (Value r) < 0)"

lemma slots_le_refl: "slots_le a a"
  using cmp_refl by (auto simp: slots_le_def)

lemma slots_le_trans: "slots_le a b \<Longrightarrow> slots_le b c \<Longrightarrow> slots_le a c"
  unfolding slots_le_def using cmp_trans by blast

lemma slots_leD:
  assumes "slots_le a a'" "ra_Get ra a (record_index m rk) e = Inr x" "\<not> cmp (Value x) v < 0"
  shows "\<exists>x'. ra_Get ra a' (record_index m rk) e = Inr x' \<and> \<not> cmp (Value x') v < 0"
proof -
  obtain x' where "ra_Get ra a' (record_index m rk) e = Inr x'" "\<not> cmp (Value x') (Value x) < 0"
    using assms(1,2) index_less unfolding slots_le_def by blast
  then show ?thesis using cmp_trans assms(3) by blast
qed

lemma reached_mono: "slots_le a a' \<Longrightarrow> reached a r n \<Longrightarrow> reached a' r n"
  unfolding reached_def using slots_leD by blast

lemma probe_invD:
  assumes "probe_inv m e a" "unat i < unat (recordCount m)" "ra_Get ra a i e = Inr x"
    "j \<le> Attempt (RecordKey x)"
  shows "\<exists>r'. ra_Get ra a (record_index m ((RecordKey x)\<lparr>Attempt := j\<rparr>)) e = Inr r'
    \<and> \<not> cmp (Value r') (Value x) < 0"
  using assms unfolding probe_inv_def m_ra m_cmp by blast

lemma overwrite:
  assumes a: "ainv a" and wf: "wf (Key (RecordKey r))" and put: "ra_Put ra a (record_index m (RecordKey r)) r e = (None, a')"
    and old: "\<And>x. ra_Get ra a (record_index m (RecordKey r)) e = Inr x \<Longrightarrow> cmp (Value x) (Value r) < 0"
  shows "slots_le a a'"
  unfolding slots_le_def
proof (intro allI impI)
  fix i x assume i: "unat i < unat (recordCount m)" and x: "ra_Get ra a i e = Inr x"
  have "unat i < count" using i m_count(2) by simp
  then have "ra_Get ra a' i e = (if record_index m (RecordKey r) = i \<and> valid e r then Inr r else ra_Get ra a i e)"
    using ra_get_put [OF e_inv a index_less_count _ wf put] by simp
  then show "\<exists>x'. ra_Get ra a' i e = Inr x' \<and> \<not> cmp (Value x') (Value x) < 0"
    using x old cmp_refl cmp_asym by auto
qed

lemma overwrite_probe_inv:
  assumes a: "ainv a" and wf: "wf (Key (RecordKey r))" and put: "ra_Put ra a (record_index m (RecordKey r)) r e = (None, a')"
    and old: "\<And>x. ra_Get ra a (record_index m (RecordKey r)) e = Inr x \<Longrightarrow> cmp (Value x) (Value r) < 0"
    and inv: "probe_inv m e a" and r: "reached a r (Attempt (RecordKey r))"
  shows "probe_inv m e a'"
  unfolding probe_inv_def m_ra m_cmp
proof (intro allI impI)
  fix i x j assume i: "unat i < unat (recordCount m)" and x: "ra_Get ra a' i e = Inr x"
    and j: "j \<le> Attempt (RecordKey x)"
  have le: "slots_le a a'" using overwrite [OF a wf put old] .
  have "unat i < count" using i m_count(2) by simp
  then have new: "ra_Get ra a' i e = (if record_index m (RecordKey r) = i \<and> valid e r then Inr r else ra_Get ra a i e)"
    using ra_get_put [OF e_inv a index_less_count _ wf put] by simp
  show "\<exists>r'. ra_Get ra a' (record_index m ((RecordKey x)\<lparr>Attempt := j\<rparr>)) e = Inr r'
    \<and> \<not> cmp (Value r') (Value x) < 0"
  proof (cases "record_index m (RecordKey r) = i \<and> valid e r")
    case True
    then have "x = r" using new x by simp
    then show ?thesis using j reached_mono [OF le r] True new cmp_refl
      by (cases "j = Attempt (RecordKey r)") (auto simp: reached_def order.strict_iff_order)
  next
    case False
    then have "ra_Get ra a i e = Inr x" using new x unfolding if_not_P [OF False] by simp
    then show ?thesis using probe_invD [OF inv i _ j] slots_leD [OF le] by blast
  qed
qed

lemma byte_less_SucD: "j < n + 1 \<Longrightarrow> j \<le> (n :: byte)"
  by (auto simp: word_less_nat_alt word_le_nat_alt unat_byte_Suc split: if_splits)

lemma reached_next:
  assumes "\<And>j. j \<le> Attempt (RecordKey x) \<Longrightarrow>
    \<exists>r'. ra_Get ra a (record_index m ((RecordKey x)\<lparr>Attempt := j\<rparr>)) e = Inr r' \<and> \<not> cmp (Value r') (Value x) < 0"
  shows "reached a (x\<lparr>RecordKey := next_attempt (RecordKey x)\<rparr>) (Attempt (RecordKey x) + 1)"
  using assms byte_less_SucD by (auto simp: reached_def next_attempt_def)

lemma Put_loop_inv:
  assumes "Put_loop n m a r e = (None, a')" "ainv a" "wf (Key (RecordKey r))" "probe_inv m e a"
    "reached a r (Attempt (RecordKey r))"
  shows "ainv a' \<and> probe_inv m e a' \<and> slots_le a a'"
proof (rule Put_loop_rule [OF assms(1), where
      P = "\<lambda>a r. ainv a \<and> wf (Key (RecordKey r)) \<and> probe_inv m e a \<and> reached a r (Attempt (RecordKey r))" and
      Q = "\<lambda>a r a'. ainv a' \<and> probe_inv m e a' \<and> slots_le a a'"], unfold m_ra m_cmp, goal_cases)
  case 1
  then show ?case using assms by simp
next
  case (2 a r)
  then show ?case by (simp add: slots_le_refl)
next
  case (3 a r a')
  then show ?case using overwrite_probe_inv [of a r a'] overwrite [of a r a']
      ra_inv [OF e_inv _ index_less_count] by blast
next
  case (4 a r a' x)
  have w: "ainv a'" "probe_inv m e a'" "slots_le a a'"
    using 4 overwrite_probe_inv [of a r a'] overwrite [of a r a']
      ra_inv [OF e_inv _ index_less_count, of a r "RecordKey r" a'] by auto
  have "reached a' (x\<lparr>RecordKey := next_attempt (RecordKey x)\<rparr>) (Attempt (RecordKey x) + 1)"
    using 4 probe_invD [OF _ index_less, of a "RecordKey r" x] slots_leD [OF w(3)]
    by (intro reached_next) blast
  then show ?case using 4 w slots_le_trans ra_get_wf [OF _ index_less_count, of a "RecordKey r" e x]
    by (auto simp: next_attempt_def)
next
  case (5 a r x)
  have "reached a (r\<lparr>RecordKey := next_attempt (RecordKey r)\<rparr>) (Attempt (RecordKey r) + 1)"
  proof (rule reached_next)
    fix j assume "j \<le> Attempt (RecordKey r)"
    then show "\<exists>r'. ra_Get ra a (record_index m (RecordKey r\<lparr>Attempt := j\<rparr>)) e = Inr r' \<and> \<not> cmp (Value r') (Value r) < 0"
      using 5 by (cases "j = Attempt (RecordKey r)") (auto simp: reached_def order.strict_iff_order)
  qed
  then show ?case using 5 by (simp add: next_attempt_def)
qed

lemma Put_loop_untouched:
  assumes "Put_loop n m a r e = (None, a')" "ainv a" "wf (Key (RecordKey r))"
    and i: "unat i < unat (recordCount m)" and y: "ra_Get ra a i e = Inr y" "\<not> cmp (Value y) (Value r) < 0"
  shows "ra_Get ra a' i e = Inr y"
proof -
  have w: "ra_Get ra a' i e = Inr y"
    if "ainv a" "ra_Get ra a i e = Inr y" "\<not> cmp (Value y) (Value r) < 0"
      "wf (Key (RecordKey r))" "ra_Put ra a (record_index m (RecordKey r)) r e = (None, a')"
      "\<And>x. ra_Get ra a (record_index m (RecordKey r)) e = Inr x \<Longrightarrow> cmp (Value x) (Value r) < 0"
    for a r a'
    using that ra_get_put [OF e_inv that(1) index_less_count _ that(4,5), of i] i m_count(2) by auto
  have "ainv a \<and> ra_Get ra a i e = Inr y \<and> \<not> cmp (Value y) (Value r) < 0 \<longrightarrow> ra_Get ra a' i e = Inr y"
  proof (rule Put_loop_rule [OF assms(1), where P = "\<lambda>a r. ainv a \<and> wf (Key (RecordKey r))"], unfold m_ra m_cmp, goal_cases)
    case (3 a r a')
    then show ?case using w by blast
  next
    case (4 a r a' x)
    then show ?case
      using w [of a r a'] ra_get_wf [OF _ index_less_count, of a "RecordKey r" e x] ra_inv [OF e_inv _ index_less_count, of a r "RecordKey r" a']
        cmp_less_trans [of "Value x" "Value r" "Value y"] by (auto simp: next_attempt_def)
  qed (use assms in \<open>auto simp: next_attempt_def\<close>)
  then show ?thesis using assms by blast
qed

lemma Put_loop_contents:
  assumes "Put_loop n m a r e = (None, a')" "ainv a" "wf (Key (RecordKey r))"
  shows "map_contents m e a' \<subseteq> insert (Key (RecordKey r), Value r) (map_contents m e a)"
proof -
  have w: "map_contents m e a' \<subseteq> insert (Key (RecordKey r), Value r) (map_contents m e a)"
    if "ainv a" "wf (Key (RecordKey r))" "ra_Put ra a (record_index m (RecordKey r)) r e = (None, a')" for a r a'
  proof
    fix z assume "z \<in> map_contents m e a'"
    then obtain i x where "unat i < unat (recordCount m)" "ra_Get ra a' i e = Inr x"
      "z = (Key (RecordKey x), Value x)" unfolding map_contents_def m_ra by blast
    then show "z \<in> insert (Key (RecordKey r), Value r) (map_contents m e a)"
      using ra_get_put [OF e_inv that(1) index_less_count _ that(2,3), of i] m_count(2)
      by (auto simp: map_contents_def m_ra split: if_splits)
  qed
  have x: "(Key (RecordKey x), Value x) \<in> map_contents m e a"
    if "ra_Get ra a (record_index m rk) e = Inr x" for a rk x
    using that index_less unfolding map_contents_def m_ra by blast
  have "ainv a \<longrightarrow> map_contents m e a' \<subseteq> insert (Key (RecordKey r), Value r) (map_contents m e a)"
  proof (rule Put_loop_rule [OF assms(1), where P = "\<lambda>a r. ainv a \<and> wf (Key (RecordKey r))"], unfold m_ra m_cmp, goal_cases)
    case (3 a r a')
    then show ?case using w by blast
  next
    case (4 a r a' x)
    then show ?case using w [of a r a'] x [of a "RecordKey r" x] ra_get_wf [OF _ index_less_count, of a "RecordKey r" e x]
        ra_inv [OF e_inv _ index_less_count, of a r "RecordKey r" a']
      by (auto simp: next_attempt_def)
  qed (use assms in \<open>auto simp: next_attempt_def\<close>)
  then show ?thesis using assms by blast
qed

lemma Put_loop_fresh:
  assumes "Put_loop n m a r e = (None, a')" "ainv a" "valid e r"
    and "\<And>i. valid e (r\<lparr>RecordKey := (RecordKey r)\<lparr>Attempt := i\<rparr>\<rparr>)"
    and "\<And>j. j < Attempt (RecordKey r) \<Longrightarrow>
      \<exists>x. ra_Get ra a (record_index m ((RecordKey r)\<lparr>Attempt := j\<rparr>)) e = Inr x \<and> RecordKey x \<noteq> (RecordKey r)\<lparr>Attempt := j\<rparr>"
    and "0 < n" "unat (maximumGetAttempts m) \<le> unat (Attempt (RecordKey r)) + n"
    and "Attempt (RecordKey r) = 0 \<or> Attempt (RecordKey r) < maximumGetAttempts m"
    and "wf (Key (RecordKey r))"
  shows "(\<exists>w. stored m e a' (Key (RecordKey r)) w \<and> \<not> cmp w (Value r) < 0)
    \<or> (\<forall>w. \<not> stored m e a' (Key (RecordKey r)) w)"
  using assms
proof (induction n arbitrary: r)
  case 0
  then show ?case by simp
next
  case (Suc n)
  define i where "i = record_index m (RecordKey r)"
  have i: "unat i < unat (recordCount m)" "unat i < count" using index_less index_less_count by (simp_all add: i_def)
  have found: ?case if "ra_Get ra a' i e = Inr x" "RecordKey x = RecordKey r" "\<not> cmp (Value x) (Value r) < 0" for x
    using storedI [of m a' x e] that Suc.prems(8) by (auto simp: i_def m_ra)
  have put: "ra_Get ra b i e = Inr r" if "ra_Put ra a i r e = (None, b)" for b
    using ra_get_put [OF e_inv Suc.prems(2) i(2) i(2) Suc.prems(9) that] Suc.prems(3) by simp
  show ?case
  proof (cases "ra_Get ra a i e")
    case (Inl err)
    then have "ra_Put ra a i r e = (None, a')"
      using Suc.prems(1) by (auto simp: Put_loop.simps Let_def i_def m_ra m_count(1) split: if_splits)
    then show ?thesis using found put cmp_refl by blast
  next
    case (Inr x)
    note step = Suc.prems(1) [unfolded Put_loop.simps Let_def m_ra m_cmp, folded i_def]
    have noat: "\<exists>x. ra_Get ra a (record_index m ((RecordKey r)\<lparr>Attempt := j\<rparr>)) e = Inr x
        \<and> RecordKey x \<noteq> (RecordKey r)\<lparr>Attempt := j\<rparr>"
      if "j \<le> Attempt (RecordKey r)" "RecordKey x \<noteq> RecordKey r" for j
      using that Suc.prems(5) [of j] Inr by (cases "j = Attempt (RecordKey r)") (auto simp: i_def)
    consider (same) "RecordKey x = RecordKey r"
      | (displace) "RecordKey x \<noteq> RecordKey r" "cmp (Value x) (Value r) < 0"
      | (skip) "RecordKey x \<noteq> RecordKey r" "\<not> cmp (Value x) (Value r) < 0" by blast
    then show ?thesis
    proof cases
      case same
      then show ?thesis using step Inr found put cmp_refl m_count(1) by (auto split: if_splits)
    next
      case displace
      then obtain b where b: "ra_Put ra a i r e = (None, b)"
        using step Inr m_count(1) by (auto split: if_splits prod.splits option.splits)
      then have "ra_Get ra a' i e = Inr r"
        using step Inr m_count(1) displace put [OF b] cmp_asym [OF displace(2)] ra_inv [OF e_inv Suc.prems(2) i(2) Suc.prems(9) b]
          ra_get_wf [OF Suc.prems(2) i(2) Inr]
          Put_loop_untouched [of n b "x\<lparr>RecordKey := next_attempt (RecordKey x)\<rparr>" a' i r] i(1)
        by (auto simp: next_attempt_def split: if_splits)
      then show ?thesis using found cmp_refl by blast
    next
      case skip
      have no_wrap: "unat (Attempt (RecordKey r) + 1) = unat (Attempt (RecordKey r)) + 1"
        using Suc.prems(8) unat_bounds(1) [of "maximumGetAttempts m"] by (auto simp: word_less_nat_alt unat_byte_Suc)
      let ?r = "r\<lparr>RecordKey := next_attempt (RecordKey r)\<rparr>"
      show ?thesis
      proof (cases "maximumGetAttempts m \<le> Attempt (RecordKey r) + 1")
        case True
        then have "a' = a" using step Inr skip m_count(1) by (auto simp: next_attempt_def)
        moreover have "\<not> stored m e a (Key (RecordKey r)) w" for w
        proof
          assume "stored m e a (Key (RecordKey r)) w"
          then obtain j where j: "j = 0 \<or> j < maximumGetAttempts m"
            and x: "ra_Get ra a (record_index m \<lparr>Key = Key (RecordKey r), Attempt = j\<rparr>) e
              = Inr \<lparr>RecordKey = \<lparr>Key = Key (RecordKey r), Attempt = j\<rparr>, Value = w\<rparr>"
            unfolding stored_def m_ra by blast
          have "j \<le> Attempt (RecordKey r)"
            using j True no_wrap by (auto simp: word_less_nat_alt word_le_nat_alt)
          moreover have k: "(RecordKey r)\<lparr>Attempt := j\<rparr> = \<lparr>Key = Key (RecordKey r), Attempt = j\<rparr>" by simp
          ultimately show False using noat [OF _ skip(1), of j] x unfolding k by auto
        qed
        ultimately show ?thesis by blast
      next
        case False
        then have "Put_loop n m a ?r e = (None, a')" using step Inr skip m_count(1) by (auto simp: next_attempt_def)
        then show ?thesis using Suc.IH [of ?r] Suc.prems(2-4,7,9) False no_wrap noat [OF byte_less_SucD skip(1)]
          by (auto simp: next_attempt_def word_le_nat_alt word_less_nat_alt)
      qed
    qed
  qed
qed

lemma Get_correct:
  assumes "probe_inv m e a"
  shows "hashMap_Get m a k e = Inr v \<Longrightarrow> stored m e a k v"
    and "hashMap_Get m a k e = Inr v \<Longrightarrow> stored m e a k w \<Longrightarrow> \<not> cmp v w < 0"
    and "stored m e a k w \<Longrightarrow> \<exists>v. hashMap_Get m a k e = Inr v"
  using get_loop_newest [OF assms, of k w] Get_loop_stored [of m a e "\<lparr>Key = k, Attempt = 0\<rparr>" v]
  by (auto simp: hashMap_Get_def)

lemma Put_correct:
  assumes put: "hashMap_Put m a k v e = (None, a')" and a: "ainv a" and wf: "wf k"
  shows "map_contents m e a' \<subseteq> insert (k, v) (map_contents m e a)"
    and "probe_inv m e a \<Longrightarrow> ainv a' \<and> probe_inv m e a'"
  using Put_loop_contents [OF put [unfolded hashMap_Put_def] a]
    Put_loop_inv [OF put [unfolded hashMap_Put_def] a] wf by (auto simp: reached_def)

lemma Put_Get:
  assumes put: "hashMap_Put m a k v e = (None, a')" and a: "ainv a" and wf: "wf k" and inv: "probe_inv m e a"
    and valid: "\<And>i. valid e \<lparr>RecordKey = \<lparr>Key = k, Attempt = i\<rparr>, Value = v\<rparr>"
    and n: "1 \<le> maximumPutAttempts m" "unat (maximumGetAttempts m) \<le> nat (maximumPutAttempts m)"
    and get: "hashMap_Get m a' k e = Inr w"
  shows "\<not> cmp w v < 0"
proof -
  have "(\<exists>w. stored m e a' k w \<and> \<not> cmp w v < 0) \<or> (\<forall>w. \<not> stored m e a' k w)"
    using Put_loop_fresh [OF put [unfolded hashMap_Put_def] a] valid n wf by auto
  moreover have "probe_inv m e a'" using Put_correct(2) [OF put a wf inv] by blast
  ultimately show ?thesis using Get_correct [of a' k w] get cmp_trans by blast
qed

text \<open>A value that is newer than all others in the map can always be read after its insertion.\<close>

lemma Put_newest:
  assumes put: "hashMap_Put m a k v e = (None, a')" and a: "ainv a" and wf: "wf k"
    and valid: "valid e \<lparr>RecordKey = \<lparr>Key = k, Attempt = 0\<rparr>, Value = v\<rparr>" and n: "1 \<le> maximumPutAttempts m"
    and newest: "\<And>i x. unat i < unat (recordCount m) \<Longrightarrow> ra_Get ra a i e = Inr x \<Longrightarrow> cmp (Value x) v < 0"
  shows "hashMap_Get m a' k e = Inr v"
proof -
  define r where "r = \<lparr>RecordKey = \<lparr>Key = k, Attempt = 0\<rparr>, Value = v\<rparr>"
  define i where "i = record_index m (RecordKey r)"
  have i: "unat i < unat (recordCount m)" "unat i < count" using index_less index_less_count by (simp_all add: i_def)
  have r: "Value r = v" "wf (Key (RecordKey r))" "valid e r" using wf valid by (simp_all add: r_def)
  obtain p where p: "nat (maximumPutAttempts m) = Suc p" using n by (cases "nat (maximumPutAttempts m)") auto
  note loop = put [unfolded hashMap_Put_def p, folded r_def, unfolded Put_loop.simps Let_def m_ra m_cmp, folded i_def]
  have put_get: "ra_Get ra b i e = Inr r" if "ra_Put ra a i r e = (None, b)" for b
    using ra_get_put [OF e_inv a i(2) i(2) r(2) that] r by simp
  have "ra_Get ra a' i e = Inr r"
  proof (cases "ra_Get ra a i e")
    case (Inl err)
    then show ?thesis using loop put_get m_count(1) by (auto split: if_splits)
  next
    case (Inr x)
    have x: "cmp (Value x) v < 0" by (rule newest [OF i(1) Inr])
    then obtain b where b: "ra_Put ra a i r e = (None, b)"
      using loop Inr m_count(1) r(1) by (auto split: if_splits prod.splits option.splits)
    have "ainv b" "wf (Key (RecordKey x))" using ra_inv [OF e_inv a i(2) r(2) b] ra_get_wf [OF a i(2) Inr] by simp_all
    then show ?thesis
      using loop Inr x b put_get [OF b] m_count(1) cmp_asym [OF x] i(1) r(1)
        Put_loop_untouched [of p b "x\<lparr>RecordKey := next_attempt (RecordKey x)\<rparr>" a' i r]
      by (auto simp: next_attempt_def split: if_splits)
  qed
  then show ?thesis using Get_loop_steps(2) [OF m_count(1), of a' "RecordKey r" e r] r(1) by (simp add: hashMap_Get_def i_def m_ra r_def)
qed

end

text \<open>Backing stores whose records expire as the lower bound on their values advances.\<close>

locale expiring_record_array = record_array cmp ra ainv count einv valid wf
  for cmp :: "'v ValueComparator"
    and ra :: "('a, 'k, 'v, 'e) RecordArray"
    and ainv :: "'a \<Rightarrow> bool"
    and count :: nat
    and einv :: "'e \<Rightarrow> bool"
    and valid :: "'e \<Rightarrow> ('k, 'v) Record \<Rightarrow> bool"
    and wf :: "'k \<Rightarrow> bool" +
  fixes later :: "'e \<Rightarrow> 'e \<Rightarrow> bool"
  assumes later_get: "later e e' \<Longrightarrow> ra_Get ra a i e' = Inr r \<longleftrightarrow> ra_Get ra a i e = Inr r \<and> valid e' r"
    and valid_newer: "valid e r \<Longrightarrow> \<not> cmp (Value r') (Value r) < 0 \<Longrightarrow> valid e r'"
begin

lemma probe_inv_later:
  assumes "recordArray m = ra" "valueComparator m = cmp" "probe_inv m e a" "later e e'"
  shows "probe_inv m e' a"
  unfolding probe_inv_def assms(1,2)
proof (intro allI impI)
  fix i r j assume i: "unat i < unat (recordCount m)" and r: "ra_Get ra a i e' = Inr r"
    and j: "j \<le> Attempt (RecordKey r)"
  have r': "ra_Get ra a i e = Inr r" "valid e' r" using later_get [OF assms(4)] r by auto
  then obtain x where "ra_Get ra a (record_index m ((RecordKey r)\<lparr>Attempt := j\<rparr>)) e = Inr x"
    "\<not> cmp (Value x) (Value r) < 0"
    using assms(3) i j unfolding probe_inv_def assms(1,2) by blast
  then show "\<exists>x. ra_Get ra a (record_index m ((RecordKey r)\<lparr>Attempt := j\<rparr>)) e' = Inr x
    \<and> \<not> cmp (Value x) (Value r) < 0"
    using later_get [OF assms(4)] valid_newer [OF r'(2)] by blast
qed

end

section \<open>The arrays that reside in memory\<close>

sublocale value_order \<subseteq> simple: record_array cmp
  "simpleRecordArray :: (('k, 'v) Record list, 'k, 'v, unit) RecordArray" "\<lambda>a. length a = n" n "\<lambda>_. True" "\<lambda>_ _. True" "\<lambda>_. True" for n
  by unfold_locales (auto simp: simpleRecordArray_def simpleRecordArray_Get_def
      simpleRecordArray_Put_def nth_list_update word_unat_eq_iff split: if_splits)

sublocale value_order \<subseteq> lower: expiring_record_array cmp
  "NewLowerBoundComparingRecordArray (simpleRecordArray :: (('k, 'v) Record list, 'k, 'v, unit) RecordArray) cmp"
  "\<lambda>a. length a = n" n "\<lambda>_. True" "\<lambda>e r. \<not> cmp (Value r) e < 0" "\<lambda>_. True" "\<lambda>e e'. \<not> cmp e' e < 0" for n
proof (unfold_locales, goal_cases)
  case (1 e a i r a')
  then show ?case
    using simple.ra_inv [where e = "()" and a = a and n = n and i = i and r = r and a' = a']
    by (auto simp: NewLowerBoundComparingRecordArray_def lowerBoundComparingRecordArray_Put_def split: if_splits)
next
  case (3 e a i j r a')
  then show ?case
    using simple.ra_get_put [where e = "()" and a = a and n = n and i = i and j = j and r = r and a' = a']
    by (auto simp: NewLowerBoundComparingRecordArray_def lowerBoundComparingRecordArray_Put_def
        lowerBoundComparingRecordArray_Get_def split: if_splits sum.splits)
next
  case (4 e e' a i r)
  then show ?case using cmp_trans
    by (auto simp: NewLowerBoundComparingRecordArray_def lowerBoundComparingRecordArray_Get_def split: sum.splits)
next
  case (5 e r r')
  then show ?case using cmp_trans by blast
qed simp

interpretation linear: value_order "cmp_Compare :: 'v::linorder ValueComparator"
  by unfold_locales auto


section \<open>Construction from a configuration\<close>

text \<open>
  The block device of \<open>github.com/buildbarn/bb-storage/pkg/blockdevice\<close> is opened by the
  parameter \<open>newBlockDevice\<close>, which yields the device, its sector size and its sector count.
\<close>

datatype 'c Backend = InMemory uint64 | OnBlockDevice 'c | NoBackend

record 'c HashMapConfiguration =
  cfgBackend :: "'c Backend"
  MaximumGetAttempts :: uint32
  MaximumPutAttempts :: int

record ('d, 'a, 'k, 'v, 'e) RecordArrayFactory =
  GetBlockDeviceBackedRecordSize :: int
  NewInMemoryRecordArray :: "int \<Rightarrow> ('a, 'k, 'v, 'e) RecordArray \<times> 'a"
  NewBlockDeviceBackedRecordArray :: "'d \<Rightarrow> ('a, 'k, 'v, 'e) RecordArray \<times> 'a"

definition NewHashMapFromConfiguration ::
  "('c \<Rightarrow> bool \<Rightarrow> ('d \<times> int \<times> int) result) \<Rightarrow> 'c HashMapConfiguration option
    \<Rightarrow> ('d, 'a, 'k, 'v, 'e) RecordArrayFactory \<Rightarrow> ('k RecordKey \<Rightarrow> uint64) \<Rightarrow> 'v ValueComparator \<Rightarrow> bool
    \<Rightarrow> (('a, 'k, 'v, 'e) hashMap \<times> 'a) result" where
  "NewHashMapFromConfiguration newBlockDevice configuration factory hasher cmp persistent =
    (case configuration of
       None \<Rightarrow> Inl (Status InvalidArgument)
     | Some configuration \<Rightarrow>
         if MaximumGetAttempts configuration < 1 then Inl (Status InvalidArgument)
         else if MaximumPutAttempts configuration < 1 then Inl (Status InvalidArgument)
         else
           bindE
             (case cfgBackend configuration of
                InMemory entries \<Rightarrow>
                  Inr (entries, NewInMemoryRecordArray factory (sint entries))
              | OnBlockDevice c \<Rightarrow>
                  bindE (newBlockDevice c (\<not> persistent)) (\<lambda>(blockDevice, sectorSizeBytes, sectorCount).
                    Inr ((word_of_int sectorSizeBytes * word_of_int sectorCount)
                           div word_of_int (GetBlockDeviceBackedRecordSize factory),
                         NewBlockDeviceBackedRecordArray factory blockDevice))
              | NoBackend \<Rightarrow> Inl (Status InvalidArgument))
             (\<lambda>(recordCount, recordArray, a).
                Inr (NewHashMap recordArray hasher recordCount cmp
                       (ucast (MaximumGetAttempts configuration)) (MaximumPutAttempts configuration), a)))"

section \<open>Properties\<close>

text \<open>
  The states of a hash map in memory whose records expire: it starts with zero records, and values
  are inserted while the lowest valid value never decreases.
\<close>

definition lower_bound_hash_map ::
  "('k RecordKey \<Rightarrow> uint64) \<Rightarrow> uint64 \<Rightarrow> uint8 \<Rightarrow> int \<Rightarrow> (('k, 'v::linorder) Record list, 'k, 'v, 'v) hashMap" where
  "lower_bound_hash_map hasher count maxGet maxPut =
     NewHashMap (NewLowerBoundComparingRecordArray simpleRecordArray cmp_Compare) hasher count
       cmp_Compare maxGet maxPut"

inductive hash_map_reachable ::
  "('k, 'v::linorder) Record \<Rightarrow> (('k, 'v) Record list, 'k, 'v, 'v) hashMap \<Rightarrow> 'v \<Rightarrow> ('k, 'v) Record list \<Rightarrow> bool"
  for zero m where
  start: "hash_map_reachable zero m e (NewSimpleRecordArray zero (unat (recordCount m)))"
| put: "hash_map_reachable zero m e a \<Longrightarrow> e \<le> e' \<Longrightarrow> hashMap_Put m a k v e' = (None, a')
    \<Longrightarrow> hash_map_reachable zero m e' a'"
| expire: "hash_map_reachable zero m e a \<Longrightarrow> e \<le> e' \<Longrightarrow> hash_map_reachable zero m e' a"

lemma lower_bound_hash_map_simps [simp]:
  "recordArray (lower_bound_hash_map h c g p) = NewLowerBoundComparingRecordArray simpleRecordArray cmp_Compare"
  "valueComparator (lower_bound_hash_map h c g p) = cmp_Compare"
  "recordCount (lower_bound_hash_map h c g p) = c"
  "maximumGetAttempts (lower_bound_hash_map h c g p) = g"
  "maximumPutAttempts (lower_bound_hash_map h c g p) = p"
  by (simp_all add: lower_bound_hash_map_def NewHashMap_def)

text \<open>A hash map has at least one record: with none, every operation panics.\<close>

interpretation lower_bound: hash_map "cmp_Compare :: 'v::linorder ValueComparator"
  "NewLowerBoundComparingRecordArray simpleRecordArray cmp_Compare"
  "\<lambda>a. length a = unat (max 1 c)" "unat (max 1 c)" "\<lambda>_. True" "\<lambda>e r. \<not> cmp_Compare (Value r) e < 0" "\<lambda>_. True"
  "lower_bound_hash_map h (max 1 c) g p" e
  for h :: "'k RecordKey \<Rightarrow> uint64" and c g p e
proof (unfold_locales, simp_all)
  show "max 1 c \<noteq> 0" by (metis max.cobounded1 word_le_0_iff zero_neq_one)
qed

lemma max_1_word [simp]: "c \<noteq> 0 \<Longrightarrow> max 1 c = (c :: 'a::len word)"
  by (metis max.absorb2 word_le_0_iff word_le_less_eq not_less not_le word_less_1)

lemma probe_inv_start:
  assumes "c \<noteq> 0" "Attempt (RecordKey zero) = 0"
  shows "probe_inv (lower_bound_hash_map h c g p) e (NewSimpleRecordArray zero (unat c))"
proof -
  have "unat (record_index (lower_bound_hash_map h c g p) rk) < unat c" for rk
    using record_index_less [of "lower_bound_hash_map h c g p" rk] assms(1) by simp
  then show ?thesis using assms(2)
    by (auto simp: probe_inv_def NewLowerBoundComparingRecordArray_def lowerBoundComparingRecordArray_Get_def
        simpleRecordArray_def simpleRecordArray_Get_def NewSimpleRecordArray_def split: if_splits)
qed

lemma hash_map_reachable_inv:
  assumes "hash_map_reachable zero (lower_bound_hash_map h c g p) e a" "c \<noteq> 0"
    "Attempt (RecordKey zero) = 0"
  shows "length a = unat c \<and> probe_inv (lower_bound_hash_map h c g p) e a"
  using assms
proof (induction rule: hash_map_reachable.induct)
  case (start e)
  then show ?case using probe_inv_start by (simp add: NewSimpleRecordArray_def)
next
  case (put e a e' k v a')
  then have "probe_inv (lower_bound_hash_map h c g p) e' a"
    using linear.lower.probe_inv_later [of "lower_bound_hash_map h c g p" e a e'] by simp
  then show ?case using lower_bound.Put_correct(2) [of h c g p a k v e' a'] put by simp
next
  case (expire e a e')
  then show ?case using linear.lower.probe_inv_later [of "lower_bound_hash_map h c g p" e a e'] by simp
qed

text \<open>
  C10. Lookups in a lossy hash map whose records expire: in every state that is reached by insertions
  under a lower bound that never decreases, \<open>Get\<close> succeeds if the map holds any value for the
  key that has not expired, at any position of its probe sequence, and it yields the newest one.
\<close>

theorem hash_map_get_newest:
  assumes "hash_map_reachable zero (lower_bound_hash_map hasher count maxGet maxPut) e a"
    "count \<noteq> 0" "Attempt (RecordKey zero) = 0"
  shows "(hashMap_Get (lower_bound_hash_map hasher count maxGet maxPut) a k e = Inr v \<longrightarrow>
      stored (lower_bound_hash_map hasher count maxGet maxPut) e a k v
      \<and> (\<forall>w. stored (lower_bound_hash_map hasher count maxGet maxPut) e a k w \<longrightarrow> w \<le> v))
    \<and> (stored (lower_bound_hash_map hasher count maxGet maxPut) e a k w \<longrightarrow>
      (\<exists>v. hashMap_Get (lower_bound_hash_map hasher count maxGet maxPut) a k e = Inr v))"
  using lower_bound.Get_correct [of hasher count maxGet maxPut e a k] hash_map_reachable_inv [OF assms] assms(2)
  by (auto simp: not_less)

theorem hash_map_get_newest_witness:
  "\<exists>v. hashMap_Get (lower_bound_hash_map (\<lambda>_. 0) 4 2 8)
     (NewSimpleRecordArray \<lparr>RecordKey = \<lparr>Key = 0 :: nat, Attempt = 0\<rparr>, Value = 3 :: nat\<rparr> 4) 0 2 = Inr v"
proof -
  let ?m = "lower_bound_hash_map (\<lambda>_. 0) 4 2 8 :: ((nat, nat) Record list, nat, nat, nat) hashMap"
  let ?zero = "\<lparr>RecordKey = \<lparr>Key = 0 :: nat, Attempt = 0\<rparr>, Value = 3 :: nat\<rparr>"
  have r: "hash_map_reachable ?zero ?m 2 (NewSimpleRecordArray ?zero 4)"
    using hash_map_reachable.start [of ?zero ?m 2] by simp
  have "stored ?m 2 (NewSimpleRecordArray ?zero 4) 0 3"
    using storedI [of ?m "NewSimpleRecordArray ?zero 4" ?zero 2]
    by (simp add: record_index_def NewLowerBoundComparingRecordArray_def simpleRecordArray_def
        lowerBoundComparingRecordArray_Get_def simpleRecordArray_Get_def NewSimpleRecordArray_def
        lower_bound_hash_map_def NewHashMap_def)
  then show ?thesis using hash_map_get_newest [OF r] by simp
qed

lemma Put_loop_total:
  assumes c: "recordCount m \<noteq> 0" and a: "P a"
    and get: "\<And>a i err. P a \<Longrightarrow> unat i < unat (recordCount m) \<Longrightarrow>
      ra_Get (recordArray m) a i e = Inl err \<Longrightarrow> err = ErrRecordInvalidOrExpired"
    and put: "\<And>a i r. P a \<Longrightarrow> unat i < unat (recordCount m) \<Longrightarrow>
      \<exists>a'. ra_Put (recordArray m) a i r e = (None, a') \<and> P a'"
  shows "\<exists>a'. Put_loop n m a r e = (None, a') \<and> P a'"
  using a
proof (induction n arbitrary: a r)
  case 0
  then show ?case by (simp add: Put_loop.simps)
next
  case (Suc n)
  define i where "i = record_index m (RecordKey r)"
  have i: "unat i < unat (recordCount m)" using record_index_less [OF c] by (simp add: i_def)
  obtain a' where a': "ra_Put (recordArray m) a i r e = (None, a')" "P a'" using put [OF Suc.prems i] by blast
  show ?case
  proof (cases "ra_Get (recordArray m) a i e")
    case (Inl err)
    then show ?thesis using get [OF Suc.prems i] a' c by (simp add: Put_loop.simps i_def)
  next
    case (Inr x)
    then show ?thesis using Suc.IH [OF a'(2)] Suc.IH [OF Suc.prems] Suc.prems a' c
      by (simp add: Put_loop.simps Let_def i_def)
  qed
qed

lemma lower_bound_Put_total:
  assumes "c \<noteq> 0" "length a = unat c"
  shows "\<exists>a'. Put_loop n (lower_bound_hash_map h c g p) a r e = (None, a') \<and> length a' = unat c"
  by (rule Put_loop_total [where P = "\<lambda>a. length a = unat c"])
     (use assms in \<open>auto simp: NewLowerBoundComparingRecordArray_def simpleRecordArray_def
        lowerBoundComparingRecordArray_Get_def lowerBoundComparingRecordArray_Put_def
        simpleRecordArray_Get_def simpleRecordArray_Put_def split: if_splits\<close>)

text \<open>
  C11. Insertion into such a hash map keeps its promises: it succeeds and makes up no entries, and a
  lookup of the key afterwards never yields a value older than the one inserted. The entry may only
  get lost altogether. This needs \<open>maximumPutAttempts\<close> to be at least
  \<open>maximumGetAttempts\<close>.
\<close>

theorem hash_map_put_then_get:
  assumes "hash_map_reachable zero (lower_bound_hash_map hasher count maxGet maxPut) e a"
    "count \<noteq> 0" "Attempt (RecordKey zero) = 0" "e \<le> v"
    "1 \<le> maxPut" "unat maxGet \<le> nat maxPut"
  shows "\<exists>a'. hashMap_Put (lower_bound_hash_map hasher count maxGet maxPut) a k v e = (None, a')
    \<and> map_contents (lower_bound_hash_map hasher count maxGet maxPut) e a'
        \<subseteq> insert (k, v) (map_contents (lower_bound_hash_map hasher count maxGet maxPut) e a)
    \<and> (\<forall>w. hashMap_Get (lower_bound_hash_map hasher count maxGet maxPut) a' k e = Inr w \<longrightarrow> v \<le> w)"
proof -
  note inv = hash_map_reachable_inv [OF assms(1-3)]
  obtain a' where put: "hashMap_Put (lower_bound_hash_map hasher count maxGet maxPut) a k v e = (None, a')"
    using lower_bound_Put_total [OF assms(2)] inv unfolding hashMap_Put_def by blast
  show ?thesis
    using lower_bound.Put_correct(1) [of hasher count maxGet maxPut a k v e a']
      lower_bound.Put_Get [of hasher count maxGet maxPut a k v e a'] put inv assms
    by (auto simp: not_less)
qed

theorem hash_map_put_then_get_witness:
  "\<exists>a'. hashMap_Put (lower_bound_hash_map (\<lambda>rk. ucast (Attempt rk)) 4 2 8)
     (NewSimpleRecordArray \<lparr>RecordKey = \<lparr>Key = 0 :: nat, Attempt = 0\<rparr>, Value = 0 :: nat\<rparr> 4) 7 5 1 = (None, a')"
proof -
  let ?m = "lower_bound_hash_map (\<lambda>rk. ucast (Attempt rk)) 4 2 8 :: ((nat, nat) Record list, nat, nat, nat) hashMap"
  let ?zero = "\<lparr>RecordKey = \<lparr>Key = 0 :: nat, Attempt = 0\<rparr>, Value = 0 :: nat\<rparr>"
  have "hash_map_reachable ?zero ?m 1 (NewSimpleRecordArray ?zero 4)"
    using hash_map_reachable.start [of ?zero ?m 1] by simp
  then show ?thesis
    using hash_map_put_then_get [of ?zero "\<lambda>rk. ucast (Attempt rk)" 4 2 8 1 "NewSimpleRecordArray ?zero 4" 5 7]
    by auto
qed

end
