(* ===== verification/Sha256.thy ===== *)
theory Sha256
  imports Prelude
begin

text \<open>
  \<open>crypto/sha256\<close> of the Go standard library, as specified by FIPS 180-4. The properties of
  the development only rely on the length of the result; the definition is complete, so that
  references of concrete objects can be computed.
\<close>

unbundle bit_operations_syntax

text \<open>
  The constants are the first 32 bits of the fractional parts of the cube roots of the first 64
  primes, and of the square roots of the first eight. They are computed with integer roots that are
  determined bit by bit.
\<close>

fun int_root :: "nat \<Rightarrow> nat \<Rightarrow> nat \<Rightarrow> nat \<Rightarrow> nat" where
  "int_root k n 0 r = r"
| "int_root k n (Suc b) r = int_root k n b (if (r + 2 ^ b) ^ k \<le> n then r + 2 ^ b else r)"

definition sha256_primes :: "nat list" where
  "sha256_primes = filter (\<lambda>n. list_all (\<lambda>d. n mod d \<noteq> 0) [2..<n]) [2..<312]"

definition sha256_K :: "uint32 list" where
  "sha256_K = map (\<lambda>p. of_nat (int_root 3 (p * 2 ^ 96) 36 0)) sha256_primes"

definition sha256_init :: "uint32 list" where
  "sha256_init = map (\<lambda>p. of_nat (int_root 2 (p * 2 ^ 64) 36 0)) (take 8 sha256_primes)"

text \<open>Padding: a one bit, zeroes, and the length in bits, to a multiple of 64 bytes.\<close>

definition sha256_pad :: "bytes \<Rightarrow> bytes" where
  "sha256_pad bs =
     (let n = length bs; z = (119 - n mod 64) mod 64
      in bs @ 0x80 # replicate z 0 @ rev (le_bytes 8 (of_nat (8 * n) :: uint64)))"

fun be_words :: "bytes \<Rightarrow> uint32 list" where
  "be_words (a # b # c # d # bs) = of_be [a, b, c, d] # be_words bs"
| "be_words _ = []"

text \<open>The message schedule, with the most recent word first.\<close>

fun sha256_extend :: "nat \<Rightarrow> uint32 list \<Rightarrow> uint32 list" where
  "sha256_extend 0 w = w"
| "sha256_extend (Suc k) w =
     (let w15 = w ! 14; w2 = w ! 1;
          s0 = word_rotr 7 w15 XOR word_rotr 18 w15 XOR drop_bit 3 w15;
          s1 = word_rotr 17 w2 XOR word_rotr 19 w2 XOR drop_bit 10 w2
      in sha256_extend k ((w ! 15 + s0 + w ! 6 + s1) # w))"

definition sha256_schedule :: "uint32 list \<Rightarrow> uint32 list" where
  "sha256_schedule block = rev (sha256_extend 48 (rev block))"

record sha256_state =
  sa :: uint32
  sb :: uint32
  sc :: uint32
  sd :: uint32
  se :: uint32
  sf :: uint32
  sg :: uint32
  sh :: uint32

definition sha256_round :: "sha256_state \<Rightarrow> uint32 \<times> uint32 \<Rightarrow> sha256_state" where
  "sha256_round s kw =
     (let S1 = word_rotr 6 (se s) XOR word_rotr 11 (se s) XOR word_rotr 25 (se s);
          ch = (se s AND sf s) XOR (NOT (se s) AND sg s);
          temp1 = sh s + S1 + ch + fst kw + snd kw;
          S0 = word_rotr 2 (sa s) XOR word_rotr 13 (sa s) XOR word_rotr 22 (sa s);
          maj = (sa s AND sb s) XOR (sa s AND sc s) XOR (sb s AND sc s);
          temp2 = S0 + maj
      in \<lparr>sa = temp1 + temp2, sb = sa s, sc = sb s, sd = sc s,
          se = sd s + temp1, sf = se s, sg = sf s, sh = sg s\<rparr>)"

definition sha256_add :: "sha256_state \<Rightarrow> sha256_state \<Rightarrow> sha256_state" where
  "sha256_add s t =
     \<lparr>sa = sa s + sa t, sb = sb s + sb t, sc = sc s + sc t, sd = sd s + sd t,
      se = se s + se t, sf = sf s + sf t, sg = sg s + sg t, sh = sh s + sh t\<rparr>"

definition sha256_block :: "sha256_state \<Rightarrow> uint32 list \<Rightarrow> sha256_state" where
  "sha256_block s block =
     sha256_add s (foldl sha256_round s (zip sha256_K (sha256_schedule block)))"

fun sha256_blocks :: "nat \<Rightarrow> sha256_state \<Rightarrow> uint32 list \<Rightarrow> sha256_state" where
  "sha256_blocks 0 s ws = s"
| "sha256_blocks (Suc n) s ws = sha256_blocks n (sha256_block s (take 16 ws)) (drop 16 ws)"

definition sha256_start :: sha256_state where
  "sha256_start =
     \<lparr>sa = sha256_init ! 0, sb = sha256_init ! 1, sc = sha256_init ! 2, sd = sha256_init ! 3,
      se = sha256_init ! 4, sf = sha256_init ! 5, sg = sha256_init ! 6, sh = sha256_init ! 7\<rparr>"

definition Sum256 :: "bytes \<Rightarrow> bytes" where
  "Sum256 bs =
     (let ws = be_words (sha256_pad bs);
          s = sha256_blocks (length ws div 16) sha256_start ws
      in concat (map (\<lambda>w. rev (le_bytes 4 w)) [sa s, sb s, sc s, sd s, se s, sf s, sg s, sh s]))"

lemma length_Sum256 [simp]: "length (Sum256 bs) = 32"
  by (simp add: Sum256_def Let_def)

end
