(* ===== verification/Reference.thy ===== *)
theory Reference
  imports Prelude Float16 Sha256
begin

text \<open>
  References to objects and object contents: \<open>pkg/storage/object\<close>. A local reference is an
  array of 40 bytes that holds the SHA-256 hash, size, height and degree of an object, and the
  maximum total size of the parents along the paths to its leaves. Sizes, heights and degrees are
  natural numbers: they are far below the range of Go's \<open>int\<close>. The lemmas show that object
  construction and parsing are inverse, that construction never panics, and how much of the resource
  budget of an object covers its children.
\<close>

section \<open>Local references\<close>

definition minimumObjectSizeBytes :: nat where "minimumObjectSizeBytes = 1"
definition maximumObjectSizeBytes :: nat where "maximumObjectSizeBytes = 2 ^ 21"
definition SHA256V1ReferenceSizeBytes :: nat where "SHA256V1ReferenceSizeBytes = 40"
definition SHA256V1FlatReferenceSizeBytes :: nat where "SHA256V1FlatReferenceSizeBytes = 35"

lemmas size_consts = minimumObjectSizeBytes_def maximumObjectSizeBytes_def
  SHA256V1ReferenceSizeBytes_def SHA256V1FlatReferenceSizeBytes_def

record LocalReference =
  rawReference :: bytes

record FlatReference =
  rawFlatReference :: bytes

text \<open>\<open>binary.LittleEndian.Uint16(b[off:])\<close> and \<open>binary.LittleEndian.Uint32(b[off:])\<close>.\<close>

definition Uint16_at :: "bytes \<Rightarrow> nat \<Rightarrow> uint16" where
  "Uint16_at b off = of_le (take 2 (drop off b))"

definition Uint32_at :: "bytes \<Rightarrow> nat \<Rightarrow> uint32" where
  "Uint32_at b off = of_le (take 4 (drop off b))"

definition Uint64_at :: "bytes \<Rightarrow> nat \<Rightarrow> uint64" where
  "Uint64_at b off = of_le (take 8 (drop off b))"

definition GetRawReference :: "LocalReference \<Rightarrow> bytes" where
  "GetRawReference r = rawReference r"

definition GetHash :: "LocalReference \<Rightarrow> bytes" where
  "GetHash r = take 32 (rawReference r)"

definition GetSizeBytes :: "LocalReference \<Rightarrow> nat" where
  "GetSizeBytes r = unat (Uint32_at (rawReference r) 32 AND 0xffffff)"

definition GetHeight :: "LocalReference \<Rightarrow> nat" where
  "GetHeight r = unat (rawReference r ! 35)"

definition GetDegree :: "LocalReference \<Rightarrow> nat" where
  "GetDegree r = unat (Uint16_at (rawReference r) 36)"

definition getRawMaximumTotalParentsSizeBytes :: "LocalReference \<Rightarrow> uint16" where
  "getRawMaximumTotalParentsSizeBytes r = Uint16_at (rawReference r) 38"

definition GetMaximumTotalParentsSizeBytes :: "LocalReference \<Rightarrow> bool \<Rightarrow> nat" where
  "GetMaximumTotalParentsSizeBytes r includeSelf =
     (let sizeBytes = unat (ToUint64 (getRawMaximumTotalParentsSizeBytes r))
      in if includeSelf \<and> GetHeight r > 0 then sizeBytes + GetSizeBytes r else sizeBytes)"

text \<open>Copying into a zero initialised array of 35 or 40 bytes.\<close>

definition Flatten :: "LocalReference \<Rightarrow> FlatReference" where
  "Flatten r = \<lparr>rawFlatReference = take SHA256V1FlatReferenceSizeBytes (rawReference r)\<rparr>"

definition FlatReference_GetLocalReference :: "FlatReference \<Rightarrow> LocalReference" where
  "FlatReference_GetLocalReference r =
     \<lparr>rawReference = put_bytes (replicate SHA256V1ReferenceSizeBytes 0) 0 (rawFlatReference r)\<rparr>"

definition FlatReference_GetSizeBytes :: "FlatReference \<Rightarrow> nat" where
  "FlatReference_GetSizeBytes r =
     unat (rawFlatReference r ! 32) OR push_bit 8 (unat (rawFlatReference r ! 33))
       OR push_bit 16 (unat (rawFlatReference r ! 34))"

definition FlatReference_GetHash :: "FlatReference \<Rightarrow> bytes" where
  "FlatReference_GetHash r = take 32 (rawFlatReference r)"

definition CompareByHeight :: "LocalReference \<Rightarrow> LocalReference \<Rightarrow> int" where
  "CompareByHeight r other =
     (let c = cmp_Compare (GetHeight r) (GetHeight other) in
      if c \<noteq> 0 then c
      else
        let c = cmp_Compare (GetMaximumTotalParentsSizeBytes r True) (GetMaximumTotalParentsSizeBytes other True)
        in if c \<noteq> 0 then c else bytes_Compare (GetRawReference r) (GetRawReference other))"

section \<open>Reference formats\<close>

text \<open>The table of permitted maximum total parents sizes, by height, computed by \<open>init\<close>.\<close>

record maximumTotalParentsSizeBytesBoundsEntry =
  bounds_minimum :: uint16
  bounds_maximum :: uint16

fun init_bounds ::
  "nat \<Rightarrow> maximumTotalParentsSizeBytesBoundsEntry \<Rightarrow> maximumTotalParentsSizeBytesBoundsEntry list result" where
  "init_bounds 0 bounds = Inr []"
| "init_bounds (Suc n) bounds =
     (case FromUint64RoundUp (ToUint64 (bounds_minimum bounds) + of_nat SHA256V1ReferenceSizeBytes) of
        (minimum, ok) \<Rightarrow>
          if \<not> ok then Inl Panic
          else
            case FromUint64RoundUp (ToUint64 (bounds_maximum bounds) + of_nat maximumObjectSizeBytes) of
              (maximum, ok) \<Rightarrow>
                if \<not> ok then Inl Panic
                else
                  let bounds = \<lparr>bounds_minimum = minimum, bounds_maximum = maximum\<rparr>
                  in bindE (init_bounds n bounds) (\<lambda>rest. Inr (bounds # rest)))"

definition maximumTotalParentsSizeBytesBounds :: "maximumTotalParentsSizeBytesBoundsEntry list" where
  "maximumTotalParentsSizeBytesBounds =
     (let zero = \<lparr>bounds_minimum = 0, bounds_maximum = 0\<rparr>
      in case init_bounds 254 zero of Inl _ \<Rightarrow> [] | Inr rest \<Rightarrow> zero # zero # rest)"

definition validateObjectSizeBytes :: "nat \<Rightarrow> go_error option" where
  "validateObjectSizeBytes sizeBytes =
     (if sizeBytes < minimumObjectSizeBytes \<or> sizeBytes > maximumObjectSizeBytes
      then Some (Status InvalidArgument) else None)"

definition NewLocalReference :: "bytes \<Rightarrow> LocalReference result" where
  "NewLocalReference raw =
     (if length raw \<noteq> SHA256V1ReferenceSizeBytes then Inl (Status InvalidArgument)
      else
        let r = \<lparr>rawReference = raw\<rparr>; sizeBytes = GetSizeBytes r in
        case validateObjectSizeBytes sizeBytes of
          Some err \<Rightarrow> Inl err
        | None \<Rightarrow>
            let maximumDegree = sizeBytes div SHA256V1ReferenceSizeBytes; degree = GetDegree r;
                height = GetHeight r in
            if degree > maximumDegree then Inl (Status InvalidArgument)
            else if (degree > 0) \<noteq> (height > 0) then Inl (Status InvalidArgument)
            else
              let bounds = maximumTotalParentsSizeBytesBounds ! height;
                  parentsSizeBytes = Uint16_at raw 38 in
              if parentsSizeBytes < bounds_minimum bounds \<or> parentsSizeBytes > bounds_maximum bounds
              then Inl (Status InvalidArgument)
              else Inr r)"

definition NewFlatReference :: "bytes \<Rightarrow> FlatReference result" where
  "NewFlatReference raw =
     (if length raw \<noteq> SHA256V1FlatReferenceSizeBytes then Inl (Status InvalidArgument)
      else
        let r = \<lparr>rawFlatReference = raw\<rparr> in
        case validateObjectSizeBytes (FlatReference_GetSizeBytes r) of
          Some err \<Rightarrow> Inl err
        | None \<Rightarrow> Inr r)"

section \<open>Contents\<close>

record Contents =
  contents_reference :: LocalReference
  contents_data :: bytes

record referenceStatsComputer =
  lastRawReference :: "bytes option"
  rcs_height :: nat
  rcs_degree :: nat
  rcs_maximumTotalParentsSizeBytes :: nat

definition new_rcs :: referenceStatsComputer where
  "new_rcs = \<lparr>lastRawReference = None, rcs_height = 0, rcs_degree = 0,
     rcs_maximumTotalParentsSizeBytes = 0\<rparr>"

definition addChildReference ::
  "referenceStatsComputer \<Rightarrow> LocalReference \<Rightarrow> referenceStatsComputer result" where
  "addChildReference rcs outgoingReference =
     (let raw = rawReference outgoingReference in
      if (case lastRawReference rcs of None \<Rightarrow> False | Some l \<Rightarrow> bytes_Compare l raw \<ge> 0)
      then Inl (Status InvalidArgument)
      else
        let rcs = rcs\<lparr>lastRawReference := Some raw\<rparr>;
            newHeight = GetHeight outgoingReference + 1 in
        if rcs_height rcs < newHeight \<and> newHeight > 255 then Inl (Status InvalidArgument)
        else
          let rcs = (if rcs_height rcs < newHeight then rcs\<lparr>rcs_height := newHeight\<rparr> else rcs);
              rcs = rcs\<lparr>rcs_degree := rcs_degree rcs + 1\<rparr>;
              newSize = GetMaximumTotalParentsSizeBytes outgoingReference True
          in Inr (if rcs_maximumTotalParentsSizeBytes rcs < newSize
                  then rcs\<lparr>rcs_maximumTotalParentsSizeBytes := newSize\<rparr> else rcs))"

fun addChildReferences ::
  "referenceStatsComputer \<Rightarrow> LocalReference list \<Rightarrow> referenceStatsComputer result" where
  "addChildReferences rcs [] = Inr rcs"
| "addChildReferences rcs (r # rs) =
     bindE (addChildReference rcs r) (\<lambda>rcs. addChildReferences rcs rs)"

definition getStats :: "referenceStatsComputer \<Rightarrow> bytes result" where
  "getStats rcs =
     (let stats = replicate 5 (0 :: byte);
          stats = stats[0 := of_nat (rcs_height rcs)];
          stats = put_bytes stats 1 (le_bytes 2 (of_nat (rcs_degree rcs) :: uint16)) in
      case FromUint64RoundUp (of_nat (rcs_maximumTotalParentsSizeBytes rcs)) of
        (f16, ok) \<Rightarrow>
          if \<not> ok then Inl Panic else Inr (put_bytes stats 3 (le_bytes 2 f16)))"

text \<open>The hash, the size and the statistics of the children, in the layout of a reference.\<close>

definition assemble_reference :: "bytes \<Rightarrow> nat \<Rightarrow> bytes \<Rightarrow> LocalReference" where
  "assemble_reference hash sizeBytes stats =
     (let raw = replicate SHA256V1ReferenceSizeBytes 0;
          raw = put_bytes raw 0 hash;
          raw = put_bytes raw 32 (le_bytes 4 (of_nat sizeBytes :: uint32));
          raw = put_bytes raw 35 stats
      in \<lparr>rawReference = raw\<rparr>)"

definition NewContents :: "LocalReference list \<Rightarrow> bytes \<Rightarrow> Contents result" where
  "NewContents outgoingReferences payload =
     (let sizeBytes = length outgoingReferences * SHA256V1ReferenceSizeBytes + length payload in
      case validateObjectSizeBytes sizeBytes of
        Some err \<Rightarrow> Inl err
      | None \<Rightarrow>
          bindE (addChildReferences new_rcs outgoingReferences) (\<lambda>rcs.
            let data = concat (map GetRawReference outgoingReferences) @ payload in
            bindE (getStats rcs) (\<lambda>stats.
              Inr \<lparr>contents_reference = assemble_reference (Sum256 data) sizeBytes stats,
                   contents_data = data\<rparr>)))"

text \<open>
  \<open>NewLocalReferenceFromData\<close> feeds an incremental hasher; \<open>hash.Hash\<close> is the
  sequence of bytes written so far.
\<close>

definition NewLocalReferenceFromData :: "LocalReference list \<Rightarrow> bytes \<Rightarrow> LocalReference result" where
  "NewLocalReferenceFromData outgoingReferences payload =
     (let degree = length outgoingReferences;
          sizeBytes = degree * SHA256V1ReferenceSizeBytes + length payload in
      case validateObjectSizeBytes sizeBytes of
        Some err \<Rightarrow> Inl err
      | None \<Rightarrow>
          bindE (foldl (\<lambda>acc r. bindE acc (\<lambda>(rcs, hasher).
                   bindE (addChildReference rcs r) (\<lambda>rcs. Inr (rcs, hasher @ GetRawReference r))))
                 (Inr (new_rcs, [])) outgoingReferences)
            (\<lambda>(rcs, hasher).
               let hasher = hasher @ payload in
               bindE (getStats rcs) (\<lambda>stats. Inr (assemble_reference (Sum256 hasher) sizeBytes stats))))"

text \<open>
  \<open>validateOutgoingReferences\<close>: the loop over the outgoing references that are stored at the
  start of the data. Slicing beyond its end panics.
\<close>

fun validate_loop ::
  "bytes \<Rightarrow> nat \<Rightarrow> nat \<Rightarrow> referenceStatsComputer \<Rightarrow> referenceStatsComputer result" where
  "validate_loop data i 0 rcs = Inr rcs"
| "validate_loop data i (Suc n) rcs =
     (if (i + 1) * SHA256V1ReferenceSizeBytes > length data then Inl Panic
      else
        bindE (NewLocalReference (take SHA256V1ReferenceSizeBytes (drop (i * SHA256V1ReferenceSizeBytes) data)))
          (\<lambda>outgoingReference. bindE (addChildReference rcs outgoingReference)
            (\<lambda>rcs. validate_loop data (i + 1) n rcs)))"

definition validateOutgoingReferences :: "Contents \<Rightarrow> go_error option" where
  "validateOutgoingReferences c =
     (case validate_loop (contents_data c) 0 (GetDegree (contents_reference c)) new_rcs of
        Inl err \<Rightarrow> Some err
      | Inr rcs \<Rightarrow>
          if rcs_height rcs \<noteq> GetHeight (contents_reference c) then Some (Status InvalidArgument)
          else
            case FromUint64RoundUp (of_nat (rcs_maximumTotalParentsSizeBytes rcs)) of
              (actual, ok) \<Rightarrow>
                if \<not> ok then Some Panic
                else if actual \<noteq> getRawMaximumTotalParentsSizeBytes (contents_reference c)
                then Some (Status InvalidArgument)
                else None)"

definition NewContentsFromFullData :: "LocalReference \<Rightarrow> bytes \<Rightarrow> Contents result" where
  "NewContentsFromFullData reference data =
     (let c = \<lparr>contents_reference = reference, contents_data = data\<rparr> in
      if length data \<noteq> GetSizeBytes reference then Inl (Status InvalidArgument)
      else if Sum256 data \<noteq> GetHash reference then Inl (Status InvalidArgument)
      else case validateOutgoingReferences c of Some err \<Rightarrow> Inl err | None \<Rightarrow> Inr c)"

definition GetOutgoingReference :: "Contents \<Rightarrow> nat \<Rightarrow> LocalReference result" where
  "GetOutgoingReference c i =
     (let n = GetDegree (contents_reference c) * SHA256V1ReferenceSizeBytes in
      if n > length (contents_data c) \<or> (i + 1) * SHA256V1ReferenceSizeBytes > n then Inl Panic
      else Inr \<lparr>rawReference = take SHA256V1ReferenceSizeBytes
             (drop (i * SHA256V1ReferenceSizeBytes) (contents_data c))\<rparr>)"

definition GetPayload :: "Contents \<Rightarrow> bytes result" where
  "GetPayload c =
     (let n = GetDegree (contents_reference c) * SHA256V1ReferenceSizeBytes in
      if n > length (contents_data c) then Inl Panic else Inr (drop n (contents_data c)))"

definition cloneWithReference :: "Contents \<Rightarrow> LocalReference \<Rightarrow> Contents" where
  "cloneWithReference c r =
     (if r = contents_reference c then c
      else \<lparr>contents_reference = r, contents_data = contents_data c\<rparr>)"

definition FlattenContents :: "Contents \<Rightarrow> Contents" where
  "FlattenContents c =
     cloneWithReference c (FlatReference_GetLocalReference (Flatten (contents_reference c)))"

definition Unflatten :: "Contents \<Rightarrow> LocalReference \<Rightarrow> Contents result" where
  "Unflatten c newReference =
     (if take 35 (rawReference newReference) \<noteq> take 35 (rawReference (contents_reference c))
      then Inl (Status InvalidArgument)
      else
        let cFlat = cloneWithReference c newReference in
        case validateOutgoingReferences cFlat of Some err \<Rightarrow> Inl err | None \<Rightarrow> Inr cFlat)"

text \<open>\<open>DetachOutgoingReferences\<close> of contents: a list of all outgoing references.\<close>

fun detach_loop :: "bytes \<Rightarrow> nat \<Rightarrow> nat \<Rightarrow> LocalReference list result" where
  "detach_loop data i 0 = Inr []"
| "detach_loop data i (Suc n) =
     (if (i + 1) * SHA256V1ReferenceSizeBytes > length data then Inl Panic
      else bindE (detach_loop data (i + 1) n) (\<lambda>rest.
        Inr (\<lparr>rawReference = take SHA256V1ReferenceSizeBytes (drop (i * SHA256V1ReferenceSizeBytes) data)\<rparr> # rest)))"

definition DetachOutgoingReferences :: "Contents \<Rightarrow> LocalReference list result" where
  "DetachOutgoingReferences c = detach_loop (contents_data c) 0 (GetDegree (contents_reference c))"

definition GetFullData :: "Contents \<Rightarrow> bytes" where
  "GetFullData c = contents_data c"

section \<open>The table of bounds\<close>

abbreviation f16 :: "uint16 \<Rightarrow> nat" where
  "f16 g \<equiv> unat (ToUint64 g)"

lemma unat_of_nat64: "n < 2 ^ 64 \<Longrightarrow> unat (of_nat n :: uint64) = n"
  by (simp add: unat_of_nat take_bit_nat_eq_self)

lemma f16_le_iff: "f16 f \<le> f16 g \<longleftrightarrow> f \<le> g"
  using ToUint64_le_iff [of f g] by (simp add: word_le_nat_alt)

lemma f16_0 [simp]: "f16 0 = 0"
  by (simp add: unat_ToUint64 float16_value_def)

lemma FromUint64RoundUp_nat_le_iff:
  "n < 2 ^ 64 \<Longrightarrow>
   n \<le> f16 g \<longleftrightarrow> snd (FromUint64RoundUp (of_nat n)) \<and> fst (FromUint64RoundUp (of_nat n)) \<le> g"
  by (simp only: FromUint64RoundUp_le_iff [symmetric]) (simp add: word_le_nat_alt unat_of_nat)

lemma FromUint64RoundUp_multiple:
  assumes "k < 256"
  obtains r where "FromUint64RoundUp (of_nat (k * 2 ^ 21)) = (r, True)" "f16 r = k * 2 ^ 21"
proof (cases "k = 0")
  case True
  then show ?thesis using that [of 0] FromUint64RoundUp_ToUint64 [of 0] f16_0
    by (metis mult_zero_left of_nat_0 unat_eq_zero)
next
  case False
  define v :: uint64 where "v = of_nat (k * 2 ^ 21)"
  have v: "unat v = k * 2 ^ 21" unfolding v_def using assms by (intro unat_of_nat64) simp
  have "2048 \<le> unat v" "unat v \<le> 4095 * 2 ^ 30" using v False assms by auto
  then obtain r e where r: "FromUint64RoundUp v = (r, True)" and lo: "2 ^ (11 + e) \<le> unat v"
    and val: "float16_value (unat r) = (unat v + (2 ^ e - 1)) div 2 ^ e * 2 ^ e"
    by (rule FromUint64RoundUp_normal)
  have "(2::nat) ^ (11 + e) < 2 ^ 29" using lo v assms by simp
  then have "11 + e < 29" by (rule power_less_imp_less_exp [rotated]) simp
  then have "e \<le> 17" by simp
  then have "(2::nat) ^ e dvd unat v" unfolding v by (intro dvd_mult le_imp_power_dvd) simp
  then have "(unat v + (2 ^ e - 1)) div 2 ^ e * 2 ^ e = unat v"
    using ceil_mult [of "2 ^ e" "unat v"] by (simp add: le_antisym)
  then show ?thesis using that [of r] r val v by (simp add: unat_ToUint64 v_def)
qed

text \<open>The relation between consecutive entries of the table.\<close>

definition bounds_step ::
  "maximumTotalParentsSizeBytesBoundsEntry \<Rightarrow> maximumTotalParentsSizeBytesBoundsEntry \<Rightarrow> bool" where
  "bounds_step b b' \<longleftrightarrow>
     FromUint64RoundUp (of_nat (f16 (bounds_minimum b) + 40)) = (bounds_minimum b', True)
     \<and> FromUint64RoundUp (of_nat (f16 (bounds_maximum b) + 2 ^ 21)) = (bounds_maximum b', True)"

lemma bounds_step_exists:
  assumes "f16 (bounds_maximum b) = k * 2 ^ 21" "k < 255" "bounds_minimum b \<le> bounds_maximum b"
  obtains b' where "bounds_step b b'" "f16 (bounds_maximum b') = (k + 1) * 2 ^ 21"
    "bounds_minimum b' \<le> bounds_maximum b'"
proof -
  obtain r where r: "FromUint64RoundUp (of_nat ((k + 1) * 2 ^ 21)) = (r, True)" "f16 r = (k + 1) * 2 ^ 21"
    using FromUint64RoundUp_multiple [of "k + 1"] assms(2) by auto
  have le: "f16 (bounds_minimum b) + 40 \<le> f16 r"
    using assms f16_le_iff [of "bounds_minimum b" "bounds_maximum b"] r(2) by simp
  moreover have "f16 r < 2 ^ 64" using unat_less_exp [of "ToUint64 r"] by simp
  ultimately have "snd (FromUint64RoundUp (of_nat (f16 (bounds_minimum b) + 40)))"
    "fst (FromUint64RoundUp (of_nat (f16 (bounds_minimum b) + 40))) \<le> r"
    using FromUint64RoundUp_nat_le_iff [of "f16 (bounds_minimum b) + 40" r] by auto
  then show ?thesis
    using that [of "\<lparr>bounds_minimum = fst (FromUint64RoundUp (of_nat (f16 (bounds_minimum b) + 40))),
        bounds_maximum = r\<rparr>"] r assms(1)
    by (simp add: bounds_step_def prod_eq_iff algebra_simps)
qed

lemma init_bounds_ok:
  assumes "f16 (bounds_maximum b) = k * 2 ^ 21" "k + n < 256" "bounds_minimum b \<le> bounds_maximum b"
  obtains l where "init_bounds n b = Inr l" "length l = n"
    "\<And>i. i < n \<Longrightarrow> bounds_step ((b # l) ! i) ((b # l) ! Suc i)"
    "\<And>i. i < n \<Longrightarrow> f16 (bounds_maximum (l ! i)) = (k + i + 1) * 2 ^ 21"
    "\<And>i. i < n \<Longrightarrow> bounds_minimum (l ! i) \<le> bounds_maximum (l ! i)"
proof -
  have "\<exists>l. init_bounds n b = Inr l \<and> length l = n
    \<and> (\<forall>i < n. bounds_step ((b # l) ! i) ((b # l) ! Suc i))
    \<and> (\<forall>i < n. f16 (bounds_maximum (l ! i)) = (k + i + 1) * 2 ^ 21)
    \<and> (\<forall>i < n. bounds_minimum (l ! i) \<le> bounds_maximum (l ! i))"
    using assms
  proof (induction n arbitrary: b k)
    case (Suc n)
    obtain b' where b': "bounds_step b b'" "f16 (bounds_maximum b') = (k + 1) * 2 ^ 21"
      "bounds_minimum b' \<le> bounds_maximum b'"
      using bounds_step_exists [OF Suc.prems(1) _ Suc.prems(3)] Suc.prems(2) by auto
    then obtain l where l: "init_bounds n b' = Inr l" "length l = n"
      "\<forall>i < n. bounds_step ((b' # l) ! i) ((b' # l) ! Suc i)"
      "\<forall>i < n. f16 (bounds_maximum (l ! i)) = (k + 1 + i + 1) * 2 ^ 21"
      "\<forall>i < n. bounds_minimum (l ! i) \<le> bounds_maximum (l ! i)"
      using Suc.IH [of b' "k + 1"] Suc.prems(2) by auto
    have "init_bounds (Suc n) b = Inr (b' # l)"
      using b'(1) l(1) by (cases b') (simp add: bounds_step_def size_consts Let_def)
    moreover have "bounds_step ((b # b' # l) ! i) ((b # b' # l) ! Suc i)" if "i < Suc n" for i
      using that b'(1) l(3) by (cases i) auto
    moreover have "f16 (bounds_maximum ((b' # l) ! i)) = (k + i + 1) * 2 ^ 21" if "i < Suc n" for i
      using that b'(2) l(4) by (cases i) auto
    moreover have "bounds_minimum ((b' # l) ! i) \<le> bounds_maximum ((b' # l) ! i)" if "i < Suc n" for i
      using that b'(3) l(5) by (cases i) auto
    ultimately show ?case using l(2) by (intro exI [of _ "b' # l"]) auto
  qed simp
  then show ?thesis using that by blast
qed

lemma bounds_table:
  shows "length maximumTotalParentsSizeBytesBounds = 256"
    and "bounds_minimum (maximumTotalParentsSizeBytesBounds ! 0) = 0"
    and "bounds_minimum (maximumTotalParentsSizeBytesBounds ! 1) = 0"
    and "h < 256 \<Longrightarrow> f16 (bounds_maximum (maximumTotalParentsSizeBytesBounds ! h)) = (h - 1) * 2 ^ 21"
    and "1 \<le> h \<Longrightarrow> h < 255 \<Longrightarrow>
      bounds_step (maximumTotalParentsSizeBytesBounds ! h) (maximumTotalParentsSizeBytesBounds ! (h + 1))"
proof -
  let ?z = "\<lparr>bounds_minimum = 0, bounds_maximum = 0\<rparr>"
  obtain l where l: "init_bounds 254 ?z = Inr l" "length l = 254"
    "\<And>i. i < 254 \<Longrightarrow> bounds_step ((?z # l) ! i) ((?z # l) ! Suc i)"
    "\<And>i. i < 254 \<Longrightarrow> f16 (bounds_maximum (l ! i)) = (0 + i + 1) * 2 ^ 21"
    by (rule init_bounds_ok [of ?z 0 254]) (simp, simp, simp, blast)
  have t: "maximumTotalParentsSizeBytesBounds = ?z # ?z # l"
    using l(1) by (simp add: maximumTotalParentsSizeBytesBounds_def Let_def)
  show "length maximumTotalParentsSizeBytesBounds = 256"
    "bounds_minimum (maximumTotalParentsSizeBytesBounds ! 0) = 0"
    "bounds_minimum (maximumTotalParentsSizeBytesBounds ! 1) = 0"
    unfolding t using l(2) by simp_all
  show "f16 (bounds_maximum (maximumTotalParentsSizeBytesBounds ! h)) = (h - 1) * 2 ^ 21" if "h < 256"
    using that l(4) [of "h - 2"] unfolding t by (cases h; cases "h - 1") auto
  show "bounds_step (maximumTotalParentsSizeBytesBounds ! h) (maximumTotalParentsSizeBytesBounds ! (h + 1))"
    if "1 \<le> h" "h < 255"
    using that l(3) [of "h - 1"] unfolding t by (cases h) auto
qed

section \<open>Valid references\<close>

text \<open>References that \<open>NewLocalReference\<close> accepts, and what it establishes.\<close>

definition valid_reference :: "LocalReference \<Rightarrow> bool" where
  "valid_reference r \<longleftrightarrow> NewLocalReference (rawReference r) = Inr r"

lemma GetHeight_less: "GetHeight r < 256"
  unfolding GetHeight_def by (rule unat_bounds)

lemma valid_reference_iff:
  "valid_reference r \<longleftrightarrow>
     length (rawReference r) = 40 \<and> 1 \<le> GetSizeBytes r \<and> GetSizeBytes r \<le> 2 ^ 21
     \<and> 40 * GetDegree r \<le> GetSizeBytes r \<and> (GetDegree r > 0 \<longleftrightarrow> GetHeight r > 0)
     \<and> bounds_minimum (maximumTotalParentsSizeBytesBounds ! GetHeight r) \<le> getRawMaximumTotalParentsSizeBytes r
     \<and> getRawMaximumTotalParentsSizeBytes r \<le> bounds_maximum (maximumTotalParentsSizeBytesBounds ! GetHeight r)"
proof -
  have r: "\<lparr>rawReference = rawReference r\<rparr> = r" by simp
  have d: "GetDegree r \<le> GetSizeBytes r div 40 \<longleftrightarrow> 40 * GetDegree r \<le> GetSizeBytes r"
    by (simp add: less_eq_div_iff_mult_less_eq mult.commute)
  show ?thesis
    unfolding valid_reference_def NewLocalReference_def Let_def validateObjectSizeBytes_def size_consts r
      getRawMaximumTotalParentsSizeBytes_def d [symmetric]
    by (simp add: not_less not_le conj_commute cong: conj_cong)
qed

lemma NewLocalReference_valid: "NewLocalReference raw = Inr r \<Longrightarrow> valid_reference r \<and> rawReference r = raw"
  by (auto simp: valid_reference_def NewLocalReference_def Let_def split: if_splits option.splits)

lemma NewLocalReference_no_panic: "NewLocalReference raw \<noteq> Inl Panic"
  by (auto simp: NewLocalReference_def Let_def validateObjectSizeBytes_def split: if_splits option.splits)

lemma valid_reference_mtps:
  assumes "valid_reference r"
  shows "GetMaximumTotalParentsSizeBytes r False \<le> (GetHeight r - 1) * 2 ^ 21"
    and "GetMaximumTotalParentsSizeBytes r True \<le> GetHeight r * 2 ^ 21"
    and "GetHeight r > 0 \<Longrightarrow>
      f16 (bounds_minimum (maximumTotalParentsSizeBytesBounds ! GetHeight r)) + 40 \<le> GetMaximumTotalParentsSizeBytes r True"
proof -
  note v = assms [unfolded valid_reference_iff]
  have "f16 (getRawMaximumTotalParentsSizeBytes r) \<le> f16 (bounds_maximum (maximumTotalParentsSizeBytesBounds ! GetHeight r))"
    using v f16_le_iff by blast
  then show m: "GetMaximumTotalParentsSizeBytes r False \<le> (GetHeight r - 1) * 2 ^ 21"
    unfolding bounds_table(4) [OF GetHeight_less] by (simp add: GetMaximumTotalParentsSizeBytes_def)
  then show "GetMaximumTotalParentsSizeBytes r True \<le> GetHeight r * 2 ^ 21"
    using v by (cases "GetHeight r") (auto simp: GetMaximumTotalParentsSizeBytes_def Let_def)
  show "f16 (bounds_minimum (maximumTotalParentsSizeBytesBounds ! GetHeight r)) + 40 \<le> GetMaximumTotalParentsSizeBytes r True"
    if "GetHeight r > 0"
  proof -
    have "40 \<le> GetSizeBytes r" using that v by auto
    moreover have "f16 (bounds_minimum (maximumTotalParentsSizeBytesBounds ! GetHeight r)) \<le> f16 (getRawMaximumTotalParentsSizeBytes r)"
      using v f16_le_iff by blast
    ultimately show ?thesis using that by (simp add: GetMaximumTotalParentsSizeBytes_def)
  qed
qed

section \<open>Statistics of the children\<close>

lemma addChildReference_no_panic: "addChildReference rcs r \<noteq> Inl Panic"
  by (auto simp: addChildReference_def Let_def)

lemma addChildReference_ok:
  assumes "addChildReference rcs r = Inr rcs'" "rcs_height rcs \<le> 255"
  shows "rcs_height rcs' = max (rcs_height rcs) (GetHeight r + 1)" "rcs_height rcs' \<le> 255"
    "rcs_degree rcs' = rcs_degree rcs + 1"
    "rcs_maximumTotalParentsSizeBytes rcs' =
       max (rcs_maximumTotalParentsSizeBytes rcs) (GetMaximumTotalParentsSizeBytes r True)"
  using assms by (auto simp: addChildReference_def Let_def split: if_splits option.splits)

lemma addChildReferences_no_panic: "addChildReferences rcs rs \<noteq> Inl Panic"
proof (induction rs arbitrary: rcs)
  case (Cons r rs)
  then show ?case using addChildReference_no_panic [of rcs r] by (cases "addChildReference rcs r") auto
qed simp

text \<open>
  The invariant of the statistics: they cover all children, and the maximum is consistent with the
  height, so that it can be represented.
\<close>

definition rcs_inv :: "LocalReference list \<Rightarrow> referenceStatsComputer \<Rightarrow> bool" where
  "rcs_inv rs rcs \<longleftrightarrow>
     rcs_degree rcs = length rs \<and> rcs_height rcs \<le> 255 \<and> (rcs_height rcs = 0 \<longleftrightarrow> rs = [])
     \<and> (\<forall>r \<in> set rs. GetHeight r < rcs_height rcs)
     \<and> (rs \<noteq> [] \<longrightarrow> (\<exists>r \<in> set rs. GetHeight r + 1 = rcs_height rcs))
     \<and> (\<forall>r \<in> set rs. GetMaximumTotalParentsSizeBytes r True \<le> rcs_maximumTotalParentsSizeBytes rcs)
     \<and> rcs_maximumTotalParentsSizeBytes rcs \<le> (rcs_height rcs - 1) * 2 ^ 21"

lemma rcs_inv_new: "rcs_inv [] new_rcs"
  by (simp add: rcs_inv_def new_rcs_def)

lemma rcs_inv_add:
  assumes inv: "rcs_inv rs rcs" and r: "valid_reference r" and add: "addChildReference rcs r = Inr rcs'"
  shows "rcs_inv (rs @ [r]) rcs'"
proof -
  have h: "rcs_height rcs \<le> 255" using inv by (simp add: rcs_inv_def)
  note ok = addChildReference_ok [OF add h]
  have "rcs_maximumTotalParentsSizeBytes rcs' \<le> (rcs_height rcs' - 1) * 2 ^ 21"
  proof -
    have "(rcs_height rcs - 1) * 2 ^ 21 \<le> (rcs_height rcs' - 1) * (2 ^ 21 :: nat)"
      "GetHeight r * 2 ^ 21 \<le> (rcs_height rcs' - 1) * (2 ^ 21 :: nat)"
      using ok(1) by (auto intro!: mult_le_mono1)
    then show ?thesis using ok(4) inv valid_reference_mtps(2) [OF r] by (simp add: rcs_inv_def)
  qed
  moreover have "\<exists>x \<in> set (rs @ [r]). GetHeight x + 1 = rcs_height rcs'"
    using inv ok(1) by (cases "rs = []") (auto simp: rcs_inv_def max_def)
  ultimately show ?thesis using inv ok by (auto simp: rcs_inv_def)
qed

lemma rcs_inv_adds:
  "rcs_inv rs rcs \<Longrightarrow> \<forall>r \<in> set rs'. valid_reference r \<Longrightarrow> addChildReferences rcs rs' = Inr rcs' \<Longrightarrow>
   rcs_inv (rs @ rs') rcs'"
proof (induction rs' arbitrary: rs rcs)
  case (Cons r rs')
  then obtain rcs1 where "addChildReference rcs r = Inr rcs1" "addChildReferences rcs1 rs' = Inr rcs'"
    by (cases "addChildReference rcs r") auto
  then show ?case using Cons.IH [of "rs @ [r]" rcs1] rcs_inv_add [of rs rcs r rcs1] Cons.prems by simp
qed simp

section \<open>The layout of a reference\<close>

lemma getStats_ok:
  assumes "rcs_maximumTotalParentsSizeBytes rcs \<le> f16 g"
  shows "getStats rcs = Inr (of_nat (rcs_height rcs) # le_bytes 2 (of_nat (rcs_degree rcs) :: uint16)
    @ le_bytes 2 (fst (FromUint64RoundUp (of_nat (rcs_maximumTotalParentsSizeBytes rcs)))))"
proof -
  have "rcs_maximumTotalParentsSizeBytes rcs < 2 ^ 64"
    using assms unat_less_exp [of "ToUint64 g"] by simp
  then have "snd (FromUint64RoundUp (of_nat (rcs_maximumTotalParentsSizeBytes rcs)))"
    using assms FromUint64RoundUp_nat_le_iff by blast
  moreover have "replicate 5 (0 :: byte) = [0, 0, 0, 0, 0]" by (simp add: numeral_eq_Suc)
  ultimately show ?thesis
    by (cases "FromUint64RoundUp (of_nat (rcs_maximumTotalParentsSizeBytes rcs))")
       (simp add: getStats_def put_bytes_def Let_def)
qed

lemma assemble_reference_raw:
  assumes "length hash = 32" "length stats = 5"
  shows "rawReference (assemble_reference hash n stats) = hash @ take 3 (le_bytes 4 (of_nat n :: uint32)) @ stats"
  using assms by (simp add: assemble_reference_def put_bytes_def size_consts Let_def)

lemma and_mask_24: "w AND 0xffffff = take_bit 24 (w :: uint32)"
  by (simp add: take_bit_eq_mask mask_eq_decr_exp)

lemma of_le_16: "of_le (le_bytes 2 w) = (w :: uint16)"
  by (simp add: of_le_le_bytes take_bit_word_eq_self)

lemma assemble_reference_fields:
  fixes f :: uint16
  assumes "length hash = 32" "n < 2 ^ 24" "d < 2 ^ 16" "h < 2 ^ 8"
  defines "r \<equiv> assemble_reference hash n (of_nat h # le_bytes 2 (of_nat d :: uint16) @ le_bytes 2 f)"
  shows "length (rawReference r) = 40" "GetHash r = hash" "GetSizeBytes r = n" "GetHeight r = h"
    "GetDegree r = d" "getRawMaximumTotalParentsSizeBytes r = f"
proof -
  have raw: "rawReference r = hash @ take 3 (le_bytes 4 (of_nat n :: uint32))
      @ of_nat h # le_bytes 2 (of_nat d :: uint16) @ le_bytes 2 f"
    unfolding r_def using assms(1) by (subst assemble_reference_raw) simp_all
  then show "length (rawReference r) = 40" "GetHash r = hash"
    using assms(1) by (simp_all add: GetHash_def)
  have "rawReference r ! 35 = of_nat h" using raw assms(1) by (simp add: nth_append)
  then show "GetHeight r = h" using assms(4) by (simp add: GetHeight_def unat_of_nat take_bit_nat_eq_self)
  have "take 2 (drop 36 (rawReference r)) = le_bytes 2 (of_nat d :: uint16)" using raw assms(1) by simp
  then show "GetDegree r = d" using assms(3)
    by (simp add: GetDegree_def Uint16_at_def of_le_16 unat_of_nat take_bit_nat_eq_self)
  have "take 2 (drop 38 (rawReference r)) = le_bytes 2 f" using raw assms(1) by simp
  then show "getRawMaximumTotalParentsSizeBytes r = f"
    by (simp add: getRawMaximumTotalParentsSizeBytes_def Uint16_at_def of_le_16)
  have "take 4 (drop 32 (rawReference r)) = take 3 (le_bytes 4 (of_nat n :: uint32)) @ [of_nat h]"
    using raw assms(1) by simp
  then have "Uint32_at (rawReference r) 32 = of_le (take 3 (le_bytes 4 (of_nat n :: uint32))) OR push_bit 24 (ucast (of_nat h :: byte))"
    by (simp add: Uint32_at_def of_le_snoc)
  moreover have "take 3 (le_bytes 4 (of_nat n :: uint32)) = le_bytes 3 (of_nat n :: uint32)"
    by (simp add: le_bytes_def take_map)
  ultimately have "Uint32_at (rawReference r) 32 = take_bit 24 (of_nat n) OR push_bit 24 (ucast (of_nat h :: byte))"
    by (simp add: of_le_le_bytes)
  then have "Uint32_at (rawReference r) 32 AND 0xffffff = take_bit 24 (of_nat n)"
    unfolding and_mask_24 by (auto intro!: bit_word_eqI simp: bit_simps)
  then show "GetSizeBytes r = n" using assms(2)
    by (simp add: GetSizeBytes_def unsigned_take_bit_eq unat_of_nat take_bit_nat_eq_self)
qed

section \<open>Construction and parsing\<close>

lemma GetRawReference_eq: "GetRawReference = rawReference"
  by (rule ext) (simp add: GetRawReference_def)

lemma sum_data_length:
  "\<forall>r \<in> set rs. length (rawReference r) = 40 \<Longrightarrow> length (concat (map GetRawReference rs)) = 40 * length rs"
  by (induction rs) (auto simp: GetRawReference_eq)

lemma validate_loop_eq:
  assumes "length pre = i * 40" "\<forall>r \<in> set rs. valid_reference r"
  shows "validate_loop (pre @ concat (map GetRawReference rs) @ payload) i (length rs) rcs = addChildReferences rcs rs"
  using assms
proof (induction rs arbitrary: pre i rcs)
  case (Cons r rs)
  have "valid_reference r" using Cons.prems(2) by simp
  then have l: "length (rawReference r) = 40" and r: "NewLocalReference (rawReference r) = Inr r"
    using valid_reference_iff [of r] by (auto simp: valid_reference_def)
  have "take 40 (drop (i * 40) (pre @ concat (map GetRawReference (r # rs)) @ payload)) = rawReference r"
    using Cons.prems(1) l by (simp add: GetRawReference_eq)
  moreover have "validate_loop (pre @ concat (map GetRawReference (r # rs)) @ payload) (i + 1) (length rs) rcs'
      = addChildReferences rcs' rs" for rcs'
    using Cons.IH [of "pre @ rawReference r" "i + 1" rcs'] Cons.prems l by (simp add: GetRawReference_eq)
  ultimately show ?case using r l Cons.prems(1)
    by (cases "addChildReference rcs r") (simp_all add: size_consts GetRawReference_eq)
qed simp

lemma NewContents_cases:
  assumes refs: "\<forall>r \<in> set rs. valid_reference r"
    and n: "n = length rs * 40 + length payload" "1 \<le> n" "n \<le> 2 ^ 21"
    and add: "addChildReferences new_rcs rs = Inr rcs"
  defines "data \<equiv> concat (map GetRawReference rs) @ payload"
  defines "f \<equiv> fst (FromUint64RoundUp (of_nat (rcs_maximumTotalParentsSizeBytes rcs)))"
  shows "NewContents rs payload = Inr \<lparr>contents_reference = assemble_reference (Sum256 data) n
      (of_nat (rcs_height rcs) # le_bytes 2 (of_nat (length rs) :: uint16) @ le_bytes 2 f), contents_data = data\<rparr>"
    and "bounds_minimum (maximumTotalParentsSizeBytesBounds ! rcs_height rcs) \<le> f"
    and "f \<le> bounds_maximum (maximumTotalParentsSizeBytesBounds ! rcs_height rcs)"
    and "FromUint64RoundUp (of_nat (rcs_maximumTotalParentsSizeBytes rcs)) = (f, True)"
proof -
  have inv: "rcs_inv rs rcs" using rcs_inv_adds [OF rcs_inv_new refs add] by simp
  define b where "b = maximumTotalParentsSizeBytesBounds ! rcs_height rcs"
  have h: "rcs_height rcs < 256" using inv by (simp add: rcs_inv_def)
  have le: "rcs_maximumTotalParentsSizeBytes rcs \<le> f16 (bounds_maximum b)"
    using inv unfolding b_def bounds_table(4) [OF h] by (simp add: rcs_inv_def)
  have small: "rcs_maximumTotalParentsSizeBytes rcs < 2 ^ 64"
    using le unat_less_exp [of "ToUint64 (bounds_maximum b)"] by simp
  have ok: "snd (FromUint64RoundUp (of_nat (rcs_maximumTotalParentsSizeBytes rcs)))"
    and f: "f \<le> bounds_maximum b"
    using le FromUint64RoundUp_nat_le_iff [OF small, of "bounds_maximum b"] by (auto simp: f_def)
  then show "f \<le> bounds_maximum (maximumTotalParentsSizeBytesBounds ! rcs_height rcs)"
    "FromUint64RoundUp (of_nat (rcs_maximumTotalParentsSizeBytes rcs)) = (f, True)"
    by (simp_all add: b_def f_def prod_eq_iff)
  show "NewContents rs payload = Inr \<lparr>contents_reference = assemble_reference (Sum256 data) n
      (of_nat (rcs_height rcs) # le_bytes 2 (of_nat (length rs) :: uint16) @ le_bytes 2 f), contents_data = data\<rparr>"
  proof -
    have "validateObjectSizeBytes n = None" using n(2,3) by (simp add: validateObjectSizeBytes_def size_consts)
    moreover have "rcs_degree rcs = length rs" using inv by (simp add: rcs_inv_def)
    ultimately show ?thesis using n(1) add getStats_ok [OF le]
      by (simp add: NewContents_def Let_def SHA256V1ReferenceSizeBytes_def data_def f_def)
  qed
  show "bounds_minimum (maximumTotalParentsSizeBytesBounds ! rcs_height rcs) \<le> f"
  proof (cases "rcs_height rcs \<le> 1")
    case True
    then have "rcs_height rcs = 0 \<or> rcs_height rcs = 1" by linarith
    then show ?thesis using bounds_table(2,3) by auto
  next
    case False
    then obtain r where r: "r \<in> set rs" "GetHeight r + 1 = rcs_height rcs"
      using inv by (auto simp: rcs_inv_def)
    define m where "m = f16 (bounds_minimum (maximumTotalParentsSizeBytesBounds ! GetHeight r)) + 40"
    have "bounds_step (maximumTotalParentsSizeBytesBounds ! GetHeight r) b"
      using bounds_table(5) [of "GetHeight r"] r False h by (simp add: b_def)
    then have m: "FromUint64RoundUp (of_nat m) = (bounds_minimum b, True)" by (simp add: bounds_step_def m_def)
    have "m \<le> rcs_maximumTotalParentsSizeBytes rcs"
      using valid_reference_mtps(3) [of r] refs r False inv by (auto simp: m_def rcs_inv_def)
    then have "(of_nat m :: uint64) \<le> of_nat (rcs_maximumTotalParentsSizeBytes rcs)"
      using small by (simp add: word_le_nat_alt unat_of_nat64)
    then show ?thesis using FromUint64RoundUp_mono(2) [OF _ ok, of "of_nat m"] m by (simp add: f_def b_def)
  qed
qed

text \<open>Everything that is known of newly constructed contents.\<close>

lemma NewContents_ok:
  assumes refs: "\<forall>r \<in> set rs. valid_reference r" and c: "NewContents rs payload = Inr c"
  obtains rcs where "addChildReferences new_rcs rs = Inr rcs" "rcs_inv rs rcs"
    "contents_data c = concat (map GetRawReference rs) @ payload"
    "GetHash (contents_reference c) = Sum256 (contents_data c)"
    "GetSizeBytes (contents_reference c) = length (contents_data c)"
    "GetDegree (contents_reference c) = length rs" "GetHeight (contents_reference c) = rcs_height rcs"
    "FromUint64RoundUp (of_nat (rcs_maximumTotalParentsSizeBytes rcs))
       = (getRawMaximumTotalParentsSizeBytes (contents_reference c), True)"
    "valid_reference (contents_reference c)"
proof -
  define n where "n = length rs * 40 + length payload"
  have "validateObjectSizeBytes n = None"
    using c by (auto simp: NewContents_def Let_def n_def SHA256V1ReferenceSizeBytes_def split: option.splits)
  then have n: "1 \<le> n" "n \<le> 2 ^ 21"
    by (auto simp: validateObjectSizeBytes_def size_consts split: if_splits)
  obtain rcs where add: "addChildReferences new_rcs rs = Inr rcs"
    using c by (cases "addChildReferences new_rcs rs") (auto simp: NewContents_def Let_def split: option.splits)
  have inv: "rcs_inv rs rcs" using rcs_inv_adds [OF rcs_inv_new refs add] by simp
  note nc = NewContents_cases [OF refs n_def n add]
  define data where "data = concat (map GetRawReference rs) @ payload"
  define f where "f = fst (FromUint64RoundUp (of_nat (rcs_maximumTotalParentsSizeBytes rcs)))"
  have d: "length rs < 2 ^ 16" "n < 2 ^ 24" "rcs_height rcs < 2 ^ 8"
    using n inv by (auto simp: n_def rcs_inv_def)
  note fields = assemble_reference_fields [OF length_Sum256 [of data] d(2,1,3), of f]
  have len: "length data = n"
    using sum_data_length [of rs] refs by (auto simp: data_def n_def valid_reference_iff)
  have ceq: "c = \<lparr>contents_reference = assemble_reference (Sum256 data) n
      (of_nat (rcs_height rcs) # le_bytes 2 (of_nat (length rs) :: uint16) @ le_bytes 2 f), contents_data = data\<rparr>"
    using c nc(1) by (simp add: data_def f_def)
  have "FromUint64RoundUp (of_nat (rcs_maximumTotalParentsSizeBytes rcs)) = (f, True)"
    using nc(4) by (simp add: f_def)
  moreover have "valid_reference (contents_reference c)"
    unfolding valid_reference_iff ceq using fields n nc(2,3) inv len
    by (auto simp: f_def rcs_inv_def n_def)
  ultimately show ?thesis using that [OF add inv] fields len by (simp add: ceq data_def [symmetric])
qed

lemma detach_loop_eq:
  assumes "length pre = i * 40" "\<forall>r \<in> set rs. length (rawReference r) = 40"
  shows "detach_loop (pre @ concat (map GetRawReference rs) @ payload) i (length rs) = Inr rs"
  using assms
proof (induction rs arbitrary: pre i)
  case (Cons r rs)
  have "take 40 (drop (i * 40) (pre @ concat (map GetRawReference (r # rs)) @ payload)) = rawReference r"
    using Cons.prems by (simp add: GetRawReference_eq)
  moreover have "detach_loop (pre @ concat (map GetRawReference (r # rs)) @ payload) (i + 1) (length rs) = Inr rs"
    using Cons.IH [of "pre @ rawReference r" "i + 1"] Cons.prems by (simp add: GetRawReference_eq)
  ultimately show ?case using Cons.prems by (simp add: size_consts GetRawReference_eq)
qed simp

lemma NewContents_parse:
  assumes refs: "\<forall>r \<in> set rs. valid_reference r" and c: "NewContents rs payload = Inr c"
  shows "NewContentsFromFullData (contents_reference c) (contents_data c) = Inr c"
    and "DetachOutgoingReferences c = Inr rs"
    and "GetPayload c = Inr payload"
    and "i < length rs \<Longrightarrow> GetOutgoingReference c i = Inr (rs ! i)"
proof -
  obtain rcs where rcs: "addChildReferences new_rcs rs = Inr rcs" "rcs_inv rs rcs"
    "contents_data c = concat (map GetRawReference rs) @ payload"
    "GetHash (contents_reference c) = Sum256 (contents_data c)"
    "GetSizeBytes (contents_reference c) = length (contents_data c)"
    "GetDegree (contents_reference c) = length rs" "GetHeight (contents_reference c) = rcs_height rcs"
    "FromUint64RoundUp (of_nat (rcs_maximumTotalParentsSizeBytes rcs))
       = (getRawMaximumTotalParentsSizeBytes (contents_reference c), True)"
    by (rule NewContents_ok [OF refs c])
  have len: "\<forall>r \<in> set rs. length (rawReference r) = 40" using refs by (simp add: valid_reference_iff)
  have "validate_loop (contents_data c) 0 (length rs) new_rcs = Inr rcs"
    using validate_loop_eq [of "[]" 0 rs payload new_rcs] refs rcs(1,3) by simp
  then show "NewContentsFromFullData (contents_reference c) (contents_data c) = Inr c"
    using rcs by (simp add: NewContentsFromFullData_def validateOutgoingReferences_def Let_def)
  show "DetachOutgoingReferences c = Inr rs"
    using detach_loop_eq [of "[]" 0 rs payload] len rcs(3,6) by (simp add: DetachOutgoingReferences_def)
  have l: "length (concat (map GetRawReference rs)) = 40 * length rs" by (rule sum_data_length [OF len])
  then show "GetPayload c = Inr payload"
    using rcs(3,6) by (simp add: GetPayload_def size_consts Let_def)
  show "GetOutgoingReference c i = Inr (rs ! i)" if i: "i < length rs"
  proof -
    have rs: "rs = take i rs @ rs ! i # drop (Suc i) rs" using i by (simp add: id_take_nth_drop)
    have "length (concat (map GetRawReference (take i rs))) = 40 * i"
      using sum_data_length [of "take i rs"] len i by (simp add: min_def) (meson in_set_takeD)
    moreover have "contents_data c = concat (map GetRawReference (take i rs)) @ rawReference (rs ! i)
        @ concat (map GetRawReference (drop (Suc i) rs)) @ payload"
      using rcs(3) by (subst (asm) rs) (simp add: GetRawReference_eq)
    moreover have "length (rawReference (rs ! i)) = 40" using len i by simp
    ultimately have "take 40 (drop (i * 40) (contents_data c)) = rawReference (rs ! i)" by simp
    moreover have "length (contents_data c) \<ge> length rs * 40" using rcs(3) l by simp
    ultimately show ?thesis using i rcs(6) by (simp add: GetOutgoingReference_def Let_def size_consts)
  qed
qed

section \<open>When construction and parsing succeed\<close>

definition raw_less :: "LocalReference \<Rightarrow> LocalReference \<Rightarrow> bool" where
  "raw_less a b \<longleftrightarrow> bytes_Compare (rawReference a) (rawReference b) < 0"

lemma raw_less_trans: "raw_less a b \<Longrightarrow> raw_less b c \<Longrightarrow> raw_less a c"
  unfolding raw_less_def by (rule bytes_Compare_trans)

lemma addChildReference_ok_iff:
  assumes "rcs_height rcs \<le> 255"
  shows "(\<exists>rcs'. addChildReference rcs r = Inr rcs') \<longleftrightarrow>
    (\<forall>l. lastRawReference rcs = Some l \<longrightarrow> bytes_Compare l (rawReference r) < 0) \<and> GetHeight r < 255"
  using assms by (auto simp: addChildReference_def Let_def split: option.splits)

lemma addChildReference_last: "addChildReference rcs r = Inr rcs' \<Longrightarrow> lastRawReference rcs' = Some (rawReference r)"
  by (auto simp: addChildReference_def Let_def split: if_splits option.splits)

lemma addChildReferences_ok_iff:
  assumes "rcs_height rcs \<le> 255" "lastRawReference rcs = map_option rawReference x"
  shows "(\<exists>rcs'. addChildReferences rcs rs = Inr rcs') \<longleftrightarrow>
    sorted_wrt raw_less (case x of None \<Rightarrow> rs | Some x \<Rightarrow> x # rs) \<and> (\<forall>r \<in> set rs. GetHeight r < 255)"
  using assms
proof (induction rs arbitrary: rcs x)
  case Nil
  then show ?case by (cases x) auto
next
  case (Cons r rs)
  have step: "(\<exists>rcs'. addChildReference rcs r = Inr rcs') \<longleftrightarrow>
      (\<forall>y. x = Some y \<longrightarrow> raw_less y r) \<and> GetHeight r < 255"
    unfolding addChildReference_ok_iff [OF Cons.prems(1)] Cons.prems(2) by (auto simp: raw_less_def)
  show ?case
  proof (cases "addChildReference rcs r")
    case (Inl e)
    then show ?thesis using step by (cases x) auto
  next
    case (Inr rcs1)
    have "rcs_height rcs1 \<le> 255" "lastRawReference rcs1 = map_option rawReference (Some r)"
      using addChildReference_ok(2) [OF Inr Cons.prems(1)] addChildReference_last [OF Inr] by auto
    note IH = Cons.IH [OF this]
    have "sorted_wrt raw_less (case x of None \<Rightarrow> r # rs | Some x \<Rightarrow> x # r # rs) \<longleftrightarrow> sorted_wrt raw_less (r # rs)"
      using step Inr raw_less_trans by (cases x) auto
    then show ?thesis using IH step Inr by auto
  qed
qed

lemma NewContents_invalid_size:
  "\<not> (1 \<le> n \<and> n \<le> 2 ^ 21) \<Longrightarrow> n = length rs * 40 + length payload \<Longrightarrow>
   NewContents rs payload = Inl (Status InvalidArgument)"
proof -
  assume n: "\<not> (1 \<le> n \<and> n \<le> 2 ^ 21)" "n = length rs * 40 + length payload"
  have "validateObjectSizeBytes n = Some (Status InvalidArgument)"
    using n(1) by (auto simp: validateObjectSizeBytes_def size_consts)
  then show ?thesis using n(2) by (simp add: NewContents_def Let_def SHA256V1ReferenceSizeBytes_def)
qed

lemma NewContents_invalid_references:
  "addChildReferences new_rcs rs = Inl e \<Longrightarrow> 1 \<le> n \<and> n \<le> 2 ^ 21 \<Longrightarrow> n = length rs * 40 + length payload \<Longrightarrow>
   NewContents rs payload = Inl e"
proof -
  assume n: "1 \<le> n \<and> n \<le> 2 ^ 21" "n = length rs * 40 + length payload" "addChildReferences new_rcs rs = Inl e"
  have "validateObjectSizeBytes n = None"
    using n(1) by (auto simp: validateObjectSizeBytes_def size_consts)
  then show ?thesis using n(2,3) by (simp add: NewContents_def Let_def SHA256V1ReferenceSizeBytes_def)
qed

lemma NewContents_ok_iff:
  assumes refs: "\<forall>r \<in> set rs. valid_reference r" and n: "n = length rs * 40 + length payload"
  shows "(\<exists>c. NewContents rs payload = Inr c) \<longleftrightarrow>
    (1 \<le> n \<and> n \<le> 2 ^ 21) \<and> sorted_wrt raw_less rs \<and> (\<forall>r \<in> set rs. GetHeight r < 255)"
proof (cases "1 \<le> n \<and> n \<le> 2 ^ 21")
  case True
  have iff: "(\<exists>rcs. addChildReferences new_rcs rs = Inr rcs) \<longleftrightarrow>
      sorted_wrt raw_less rs \<and> (\<forall>r \<in> set rs. GetHeight r < 255)"
    using addChildReferences_ok_iff [of new_rcs None rs] by (simp add: new_rcs_def)
  show ?thesis
  proof (cases "addChildReferences new_rcs rs")
    case (Inl e)
    then show ?thesis using iff NewContents_invalid_references [OF Inl True n] by simp
  next
    case (Inr rcs)
    then show ?thesis using iff NewContents_cases(1) [OF refs n _ _ Inr] True by blast
  qed
next
  case False
  then show ?thesis using NewContents_invalid_size [OF False n] by auto
qed

lemma NewContents_no_panic:
  assumes refs: "\<forall>r \<in> set rs. valid_reference r"
  shows "NewContents rs payload \<noteq> Inl Panic"
proof (cases "1 \<le> length rs * 40 + length payload \<and> length rs * 40 + length payload \<le> 2 ^ 21")
  case True
  show ?thesis
  proof (cases "addChildReferences new_rcs rs")
    case (Inl e)
    then show ?thesis
      using addChildReferences_no_panic [of new_rcs rs] NewContents_invalid_references [OF Inl True refl] by simp
  next
    case (Inr rcs)
    then show ?thesis using NewContents_cases(1) [OF refs refl _ _ Inr] True by fastforce
  qed
next
  case False
  then show ?thesis using NewContents_invalid_size [OF False refl] by auto
qed

text \<open>Parsing untrusted data under a valid reference does not panic either.\<close>

lemma validate_loop_safe:
  assumes "(i + n) * 40 \<le> length data" "rcs_inv rs rcs"
  shows "validate_loop data i n rcs \<noteq> Inl Panic
    \<and> (\<forall>rcs'. validate_loop data i n rcs = Inr rcs' \<longrightarrow> (\<exists>rs'. rcs_inv rs' rcs'))"
  using assms
proof (induction n arbitrary: i rs rcs)
  case 0
  then show ?case by auto
next
  case (Suc n)
  define raw where "raw = take 40 (drop (i * 40) data)"
  show ?case
  proof (cases "NewLocalReference raw")
    case (Inl e)
    then show ?thesis using NewLocalReference_no_panic [of raw] Suc.prems(1)
      by (simp add: size_consts raw_def)
  next
    case (Inr r)
    note r = Inr
    show ?thesis
    proof (cases "addChildReference rcs r")
      case (Inl e)
      then show ?thesis using addChildReference_no_panic [of rcs r] Suc.prems(1) r
        by (simp add: size_consts raw_def)
    next
      case (Inr rcs1)
      then have "rcs_inv (rs @ [r]) rcs1"
        using rcs_inv_add [OF Suc.prems(2) _ Inr] NewLocalReference_valid [OF r] by blast
      then show ?thesis using Suc.IH [of "i + 1" "rs @ [r]" rcs1] Suc.prems(1) r Inr
        by (simp add: size_consts raw_def)
    qed
  qed
qed

lemma rcs_inv_round_up: "rcs_inv rs rcs \<Longrightarrow> snd (FromUint64RoundUp (of_nat (rcs_maximumTotalParentsSizeBytes rcs)))"
proof -
  assume inv: "rcs_inv rs rcs"
  then have h: "rcs_height rcs < 256" by (simp add: rcs_inv_def)
  let ?g = "bounds_maximum (maximumTotalParentsSizeBytesBounds ! rcs_height rcs)"
  have le: "rcs_maximumTotalParentsSizeBytes rcs \<le> f16 ?g"
    using inv unfolding bounds_table(4) [OF h] by (simp add: rcs_inv_def)
  then have "rcs_maximumTotalParentsSizeBytes rcs < 2 ^ 64"
    using unat_less_exp [of "ToUint64 ?g"] by simp
  then show ?thesis using le FromUint64RoundUp_nat_le_iff by blast
qed

lemma NewContentsFromFullData_no_panic:
  assumes "valid_reference r"
  shows "NewContentsFromFullData r data \<noteq> Inl Panic"
proof (cases "length data = GetSizeBytes r")
  case True
  then have "(0 + GetDegree r) * 40 \<le> length data" using assms by (simp add: valid_reference_iff)
  note safe = validate_loop_safe [OF this rcs_inv_new]
  then show ?thesis
    by (auto simp: NewContentsFromFullData_def validateOutgoingReferences_def Let_def dest!: rcs_inv_round_up
        split: sum.splits prod.splits if_splits option.splits)
qed (simp add: NewContentsFromFullData_def)

section \<open>Parsing accepts constructed contents only\<close>

lemma le_bytes_take_bit: "8 * k \<le> n \<Longrightarrow> le_bytes k (take_bit n w) = le_bytes k (w :: 'a::len word)"
  by (rule nth_equalityI) (auto simp: nth_le_bytes intro!: bit_word_eqI simp: bit_simps)

lemma reference_fields_assemble:
  assumes "length (rawReference r) = 40"
  shows "assemble_reference (GetHash r) (GetSizeBytes r) (of_nat (GetHeight r)
    # le_bytes 2 (of_nat (GetDegree r) :: uint16) @ le_bytes 2 (getRawMaximumTotalParentsSizeBytes r)) = r"
proof -
  define raw where "raw = rawReference r"
  have l: "length raw = 40" using assms by (simp add: raw_def)
  have two: "le_bytes 2 (Uint16_at raw i) = take 2 (drop i raw)" if "i \<le> 38" for i
    unfolding Uint16_at_def by (rule le_bytes_of_le) (use that l in auto)
  have four: "le_bytes 4 (Uint32_at raw 32) = take 4 (drop 32 raw)"
    unfolding Uint32_at_def by (rule le_bytes_of_le) (use l in auto)
  have "take 3 (le_bytes 4 (of_nat (GetSizeBytes r) :: uint32)) = le_bytes 3 (take_bit 24 (Uint32_at raw 32))"
    by (simp add: GetSizeBytes_def and_mask_24 raw_def le_bytes_def take_map)
  also have "\<dots> = le_bytes 3 (Uint32_at raw 32)" by (rule le_bytes_take_bit) simp
  also have "\<dots> = take 3 (le_bytes 4 (Uint32_at raw 32))" by (simp add: le_bytes_def take_map)
  finally have "take 3 (le_bytes 4 (of_nat (GetSizeBytes r) :: uint32)) = take 3 (drop 32 raw)"
    unfolding four by (simp add: min_def)
  moreover have "raw = take 32 raw @ take 3 (drop 32 raw) @ raw ! 35 # take 2 (drop 36 raw) @ take 2 (drop 38 raw)"
  proof -
    have "drop 35 raw = raw ! 35 # drop 36 raw" using l Cons_nth_drop_Suc [of 35 raw] by simp
    moreover have "drop 36 raw = take 2 (drop 36 raw) @ drop 38 raw" using append_take_drop_id [of 2 "drop 36 raw"] by simp
    moreover have "drop 38 raw = take 2 (drop 38 raw)" using l by simp
    moreover have "drop 32 raw = take 3 (drop 32 raw) @ drop 35 raw" using append_take_drop_id [of 3 "drop 32 raw"] by simp
    moreover have "raw = take 32 raw @ drop 32 raw" by simp
    ultimately show ?thesis by metis
  qed
  ultimately have "rawReference (assemble_reference (GetHash r) (GetSizeBytes r) (of_nat (GetHeight r)
    # le_bytes 2 (of_nat (GetDegree r) :: uint16) @ le_bytes 2 (getRawMaximumTotalParentsSizeBytes r))) = raw"
    using l two [of 36] two [of 38]
    by (subst assemble_reference_raw)
       (simp_all add: GetHash_def GetHeight_def GetDegree_def getRawMaximumTotalParentsSizeBytes_def raw_def)
  then show ?thesis by (simp add: raw_def)
qed

lemma validate_loop_children:
  assumes "validate_loop data i n rcs = Inr rcs'"
  shows "\<exists>rs. length rs = n \<and> (\<forall>r \<in> set rs. valid_reference r) \<and> addChildReferences rcs rs = Inr rcs'
    \<and> take (n * 40) (drop (i * 40) data) = concat (map GetRawReference rs) \<and> (n = 0 \<or> (i + n) * 40 \<le> length data)"
  using assms
proof (induction n arbitrary: i rcs)
  case (Suc n)
  define raw where "raw = take 40 (drop (i * 40) data)"
  have len: "(i + 1) * 40 \<le> length data" using Suc.prems by (auto simp: size_consts split: if_splits)
  then obtain r rcs1 where r: "NewLocalReference raw = Inr r" "addChildReference rcs r = Inr rcs1"
    "validate_loop data (i + 1) n rcs1 = Inr rcs'"
    using Suc.prems by (cases "NewLocalReference raw"; cases "addChildReference rcs (projr (NewLocalReference raw))")
      (auto simp: size_consts raw_def split: if_splits)
  then obtain rs where rs: "length rs = n" "\<forall>r \<in> set rs. valid_reference r" "addChildReferences rcs1 rs = Inr rcs'"
    "take (n * 40) (drop ((i + 1) * 40) data) = concat (map GetRawReference rs)" "n = 0 \<or> (i + 1 + n) * 40 \<le> length data"
    using Suc.IH by blast
  have "take (Suc n * 40) (drop (i * 40) data) = raw @ take (n * 40) (drop ((i + 1) * 40) data)"
    by (simp add: raw_def take_add add.commute)
  then show ?case using r rs len NewLocalReference_valid [OF r(1)]
    by (intro exI [of _ "r # rs"]) (auto simp: GetRawReference_eq)
qed simp

lemma NewContentsFromFullData_constructed:
  assumes r: "valid_reference r" and c: "NewContentsFromFullData r data = Inr c"
  obtains rs payload where "\<forall>r \<in> set rs. valid_reference r" "NewContents rs payload = Inr c"
    "c = \<lparr>contents_reference = r, contents_data = data\<rparr>"
proof -
  have ceq: "c = \<lparr>contents_reference = r, contents_data = data\<rparr>" and hash: "Sum256 data = GetHash r"
    and size: "length data = GetSizeBytes r"
    using c by (auto simp: NewContentsFromFullData_def Let_def split: if_splits option.splits)
  obtain rcs where rcs: "validate_loop data 0 (GetDegree r) new_rcs = Inr rcs" "rcs_height rcs = GetHeight r"
    "FromUint64RoundUp (of_nat (rcs_maximumTotalParentsSizeBytes rcs)) = (getRawMaximumTotalParentsSizeBytes r, True)"
    using c by (auto simp: NewContentsFromFullData_def validateOutgoingReferences_def Let_def
        split: if_splits option.splits sum.splits prod.splits)
  obtain rs where rs: "length rs = GetDegree r" "\<forall>r \<in> set rs. valid_reference r"
    "addChildReferences new_rcs rs = Inr rcs" "take (GetDegree r * 40) data = concat (map GetRawReference rs)"
    using validate_loop_children [OF rcs(1)] by auto
  define payload where "payload = drop (GetDegree r * 40) data"
  have data: "data = concat (map GetRawReference rs) @ payload"
    unfolding payload_def rs(4) [symmetric] by simp
  have n: "length data = length rs * 40 + length payload"
    using sum_data_length [of rs] rs(2) by (subst data) (auto simp: valid_reference_iff)
  have "1 \<le> length data" "length data \<le> 2 ^ 21" using r size by (simp_all add: valid_reference_iff)
  from NewContents_cases(1) [OF rs(2) n this rs(3)]
  have "NewContents rs payload = Inr \<lparr>contents_reference = assemble_reference (GetHash r) (GetSizeBytes r)
      (of_nat (GetHeight r) # le_bytes 2 (of_nat (GetDegree r) :: uint16) @ le_bytes 2 (getRawMaximumTotalParentsSizeBytes r)),
      contents_data = data\<rparr>"
    using rcs rs(1) hash size by (simp add: data [symmetric])
  then have "NewContents rs payload = Inr c"
    using reference_fields_assemble [of r] r by (simp add: ceq valid_reference_iff)
  then show ?thesis using that rs(2) ceq by blast
qed

section \<open>References without contents, flattening and ordering\<close>

lemma hasher_loop:
  "foldl (\<lambda>acc r. bindE acc (\<lambda>(rcs, hasher).
     bindE (addChildReference rcs r) (\<lambda>rcs. Inr (rcs, hasher @ GetRawReference r)))) (Inr (rcs, h)) rs
   = bindE (addChildReferences rcs rs) (\<lambda>rcs. Inr (rcs, h @ concat (map GetRawReference rs)))"
proof (induction rs arbitrary: rcs h)
  case (Cons r rs)
  have stop: "foldl (\<lambda>acc r. bindE acc (\<lambda>(rcs, hasher).
     bindE (addChildReference rcs r) (\<lambda>rcs. Inr (rcs, hasher @ GetRawReference r)))) (Inl e) rs = Inl e" for e
    by (induction rs) auto
  show ?case using Cons.IH by (cases "addChildReference rcs r") (simp_all add: stop)
qed simp

lemma NewLocalReferenceFromData_eq:
  "NewLocalReferenceFromData rs payload = bindE (NewContents rs payload) (\<lambda>c. Inr (contents_reference c))"
proof (cases "validateObjectSizeBytes (length rs * SHA256V1ReferenceSizeBytes + length payload)")
  case None
  show ?thesis
  proof (cases "addChildReferences new_rcs rs")
    case (Inr rcs)
    then show ?thesis using None
      by (cases "getStats rcs") (simp_all add: NewLocalReferenceFromData_def NewContents_def Let_def hasher_loop)
  qed (simp add: NewLocalReferenceFromData_def NewContents_def Let_def None hasher_loop)
qed (simp add: NewLocalReferenceFromData_def NewContents_def Let_def)

lemma FlatReference_GetLocalReference_raw:
  "length (rawReference r) = 40 \<Longrightarrow>
   rawReference (FlatReference_GetLocalReference (Flatten r)) = take 35 (rawReference r) @ [0, 0, 0, 0, 0]"
  by (simp add: FlatReference_GetLocalReference_def Flatten_def put_bytes_def size_consts numeral_eq_Suc
      flip: replicate_append_same)

lemma Unflatten_Flatten:
  assumes "valid_reference r" "NewContentsFromFullData r data = Inr c"
  shows "Unflatten (FlattenContents c) r = Inr c"
proof -
  have ceq: "c = \<lparr>contents_reference = r, contents_data = data\<rparr>" and v: "validateOutgoingReferences c = None"
    using assms(2) by (auto simp: NewContentsFromFullData_def Let_def split: if_splits option.splits)
  define f where "f = FlatReference_GetLocalReference (Flatten r)"
  have "take 35 (rawReference f) = take 35 (rawReference r)"
    using FlatReference_GetLocalReference_raw [of r] assms(1) by (simp add: f_def valid_reference_iff)
  moreover have "contents_reference (FlattenContents c) = f" "contents_data (FlattenContents c) = data"
    by (auto simp: FlattenContents_def cloneWithReference_def ceq f_def)
  moreover have "cloneWithReference (FlattenContents c) r = c"
    using calculation(2,3) by (auto simp: cloneWithReference_def ceq)
  ultimately show ?thesis using v by (simp add: Unflatten_def Let_def)
qed

lemma CompareByHeight_order:
  shows "CompareByHeight r r = 0"
    and "CompareByHeight a b = 0 \<Longrightarrow> a = b"
    and "CompareByHeight b a = - CompareByHeight a b"
    and "CompareByHeight a b < 0 \<Longrightarrow> CompareByHeight b c < 0 \<Longrightarrow> CompareByHeight a c < 0"
  using bytes_Compare_antisym [of "rawReference b" "rawReference a"]
    bytes_Compare_trans [of "rawReference a" "rawReference b" "rawReference c"]
  by (auto simp: CompareByHeight_def Let_def cmp_Compare_def GetRawReference_def split: if_splits)

text \<open>What an object's reference guarantees of its children.\<close>

lemma child_bounds:
  assumes refs: "\<forall>r \<in> set rs. valid_reference r" and c: "NewContents rs payload = Inr c" and r: "r \<in> set rs"
  shows "GetHeight r < GetHeight (contents_reference c)"
    and "GetMaximumTotalParentsSizeBytes r True \<le> GetMaximumTotalParentsSizeBytes (contents_reference c) False"
proof -
  obtain rcs where rcs: "addChildReferences new_rcs rs = Inr rcs" "rcs_inv rs rcs"
    "GetHeight (contents_reference c) = rcs_height rcs"
    "FromUint64RoundUp (of_nat (rcs_maximumTotalParentsSizeBytes rcs))
       = (getRawMaximumTotalParentsSizeBytes (contents_reference c), True)"
    by (rule NewContents_ok [OF refs c])
  then show "GetHeight r < GetHeight (contents_reference c)" using r by (simp add: rcs_inv_def)
  have h: "rcs_height rcs < 256" using rcs(2) by (simp add: rcs_inv_def)
  have "rcs_maximumTotalParentsSizeBytes rcs \<le> 255 * 2 ^ 21"
    using rcs(2) h by (auto simp: rcs_inv_def elim!: order_trans)
  then have "rcs_maximumTotalParentsSizeBytes rcs < 2 ^ 64" by simp
  then have "rcs_maximumTotalParentsSizeBytes rcs \<le> f16 (getRawMaximumTotalParentsSizeBytes (contents_reference c))"
    using rcs(4) FromUint64RoundUp_nat_le_iff by simp
  moreover have "GetMaximumTotalParentsSizeBytes r True \<le> rcs_maximumTotalParentsSizeBytes rcs"
    using rcs(2) r by (simp add: rcs_inv_def)
  ultimately show "GetMaximumTotalParentsSizeBytes r True \<le> GetMaximumTotalParentsSizeBytes (contents_reference c) False"
    by (simp add: GetMaximumTotalParentsSizeBytes_def)
qed

section \<open>Properties\<close>

text \<open>A leaf object with a payload of one byte, for concrete instances of the properties.\<close>

definition example_leaf :: Contents where
  "example_leaf = \<lparr>contents_reference = assemble_reference (Sum256 [0x68]) 1 [0, 0, 0, 0, 0], contents_data = [0x68]\<rparr>"

lemma FromUint64RoundUp_0: "FromUint64RoundUp 0 = (0, True)"
  using FromUint64RoundUp_ToUint64 [of 0] f16_0 by (metis unat_eq_zero)

lemma example_leaf: "NewContents [] [0x68] = Inr example_leaf"
proof -
  have "le_bytes 2 (0 :: uint16) = [0, 0]" by (simp add: le_bytes_def upt_rec)
  moreover have "replicate 5 (0 :: byte) = [0, 0, 0, 0, 0]" by (simp add: numeral_eq_Suc)
  ultimately show ?thesis
    by (simp add: NewContents_def new_rcs_def getStats_def FromUint64RoundUp_0 example_leaf_def Let_def
        validateObjectSizeBytes_def size_consts put_bytes_def)
qed

lemma example_leaf_valid: "valid_reference (contents_reference example_leaf)"
  by (rule NewContents_ok [OF _ example_leaf]) auto

text \<open>
  C18. Objects round trip: contents that \<open>NewContents\<close> builds from valid outgoing references
  and a payload are accepted by \<open>NewContentsFromFullData\<close>, their reference is accepted by
  \<open>NewLocalReference\<close>, and their accessors yield exactly the outgoing references and the payload.
\<close>

theorem contents_roundtrip:
  assumes "\<forall>r \<in> set rs. valid_reference r" "NewContents rs payload = Inr c"
  shows "NewContentsFromFullData (contents_reference c) (GetFullData c) = Inr c
    \<and> NewLocalReference (GetRawReference (contents_reference c)) = Inr (contents_reference c)
    \<and> GetDegree (contents_reference c) = length rs
    \<and> DetachOutgoingReferences c = Inr rs
    \<and> (\<forall>i < length rs. GetOutgoingReference c i = Inr (rs ! i))
    \<and> GetPayload c = Inr payload"
proof -
  obtain rcs where "GetDegree (contents_reference c) = length rs" "valid_reference (contents_reference c)"
    by (rule NewContents_ok [OF assms])
  then show ?thesis using NewContents_parse [OF assms]
    by (simp add: GetFullData_def GetRawReference_def valid_reference_def)
qed

theorem contents_roundtrip_witness:
  "NewContentsFromFullData (contents_reference example_leaf) (GetFullData example_leaf) = Inr example_leaf
   \<and> GetPayload example_leaf = Inr [0x68]"
  using contents_roundtrip [of "[]" "[0x68]" example_leaf] example_leaf by simp

text \<open>
  C17. Parsing is exact: under a valid reference, \<open>NewContentsFromFullData\<close> never panics, and
  whatever it accepts is what \<open>NewContents\<close> builds from some valid, sorted outgoing references
  and a payload. Hence hash, size, height, degree and maximum total parents size of the reference
  agree with the data.
\<close>

theorem contents_parse_exact:
  assumes "valid_reference r"
  shows "NewContentsFromFullData r data \<noteq> Inl Panic
    \<and> (NewContentsFromFullData r data = Inr c \<longrightarrow>
         c = \<lparr>contents_reference = r, contents_data = data\<rparr>
         \<and> (\<exists>rs payload. (\<forall>x \<in> set rs. valid_reference x) \<and> NewContents rs payload = Inr c))"
  using NewContentsFromFullData_no_panic [OF assms] NewContentsFromFullData_constructed [OF assms] by metis

theorem contents_parse_exact_witness:
  "NewContentsFromFullData (contents_reference example_leaf) [1, 2, 3] \<noteq> Inl Panic"
  using contents_parse_exact [OF example_leaf_valid, of "[1, 2, 3]"] by blast

text \<open>
  Construction is total: for valid outgoing references \<open>NewContents\<close> never panics, and it
  succeeds exactly if the size is within bounds, the references are strictly sorted, and none of
  them has the maximum height.
\<close>

theorem new_contents_total:
  assumes "\<forall>r \<in> set rs. valid_reference r"
  shows "NewContents rs payload \<noteq> Inl Panic
    \<and> ((\<exists>c. NewContents rs payload = Inr c) \<longleftrightarrow>
         (1 \<le> length rs * 40 + length payload \<and> length rs * 40 + length payload \<le> 2 ^ 21)
         \<and> sorted_wrt (\<lambda>a b. bytes_Compare (rawReference a) (rawReference b) < 0) rs
         \<and> (\<forall>r \<in> set rs. GetHeight r < 255))"
  using NewContents_no_panic [OF assms] NewContents_ok_iff [OF assms refl, of payload]
  unfolding raw_less_def [abs_def] by blast

theorem new_contents_total_witness:
  "NewContents [contents_reference example_leaf] [] \<noteq> Inl Panic"
  using new_contents_total [of "[contents_reference example_leaf]" "[]"] example_leaf_valid by simp

text \<open>
  As its documentation promises, \<open>NewLocalReferenceFromData\<close> is equivalent to taking the
  reference of the result of \<open>NewContents\<close>, errors included.
\<close>

theorem local_reference_from_data_equiv:
  "NewLocalReferenceFromData rs payload =
     (case NewContents rs payload of Inl err \<Rightarrow> Inl err | Inr c \<Rightarrow> Inr (contents_reference c))"
  by (cases "NewContents rs payload") (simp_all add: NewLocalReferenceFromData_eq)

text \<open>
  \<open>CompareByHeight\<close> is a total order on references in which all children of an object come
  before the object, so that traversals in this order make progress.
\<close>

theorem compare_by_height_total_order:
  assumes "\<forall>r \<in> set rs. valid_reference r" "NewContents rs payload = Inr p"
  shows "(CompareByHeight a b = 0 \<longleftrightarrow> a = b)
    \<and> CompareByHeight b a = - CompareByHeight a b
    \<and> (CompareByHeight a b < 0 \<and> CompareByHeight b c < 0 \<longrightarrow> CompareByHeight a c < 0)
    \<and> (\<forall>r \<in> set rs. CompareByHeight r (contents_reference p) < 0)"
proof -
  have "\<forall>r \<in> set rs. CompareByHeight r (contents_reference p) < 0"
    using child_bounds(1) [OF assms] by (auto simp: CompareByHeight_def Let_def cmp_Compare_def)
  then show ?thesis using CompareByHeight_order by blast
qed

theorem compare_by_height_total_order_witness:
  "CompareByHeight (contents_reference example_leaf) (contents_reference example_leaf) = 0"
  using compare_by_height_total_order [of "[]" "[0x68]" example_leaf
      "contents_reference example_leaf" "contents_reference example_leaf"] example_leaf by simp

end
