(* ===== verification/Limits.thy ===== *)
theory Limits
  imports Reference
begin

text \<open>
  Limits on the number and size of objects that are processed in parallel while a graph of objects
  is traversed: \<open>pkg/storage/object/limit.go\<close>. Counters keep their width and wrap around. The
  lemmas show that a budget is neither lost nor made up, and that whoever acquired the budget of an
  object can always process its children.
\<close>

section \<open>Limits\<close>

record Limit =
  limit_count :: uint32
  limit_sizeBytes :: uint64

definition Unlimited :: Limit where
  "Unlimited = \<lparr>limit_count = - 1, limit_sizeBytes = - 1\<rparr>"

definition Limit_Min :: "Limit \<Rightarrow> Limit \<Rightarrow> Limit" where
  "Limit_Min l other =
     \<lparr>limit_count = min (limit_count l) (limit_count other),
      limit_sizeBytes = min (limit_sizeBytes l) (limit_sizeBytes other)\<rparr>"

definition CanAcquireParentAndChildren :: "Limit \<Rightarrow> LocalReference \<Rightarrow> bool" where
  "CanAcquireParentAndChildren l reference =
     (let count = of_nat (GetHeight reference);
          sizeBytes = of_nat (GetMaximumTotalParentsSizeBytes reference True)
      in limit_count l \<ge> count \<and> limit_sizeBytes l \<ge> sizeBytes)"

definition AcquireParentAndChildren :: "Limit \<Rightarrow> LocalReference \<Rightarrow> bool \<times> Limit" where
  "AcquireParentAndChildren l reference =
     (let count = of_nat (GetHeight reference);
          sizeBytes = of_nat (GetMaximumTotalParentsSizeBytes reference True)
      in if limit_count l < count \<or> limit_sizeBytes l < sizeBytes then (False, l)
         else (True, l\<lparr>limit_count := limit_count l - count, limit_sizeBytes := limit_sizeBytes l - sizeBytes\<rparr>))"

definition ReleaseParent :: "Limit \<Rightarrow> LocalReference \<Rightarrow> Limit" where
  "ReleaseParent l reference =
     (if GetHeight reference > 0
      then l\<lparr>limit_count := limit_count l + 1,
             limit_sizeBytes := limit_sizeBytes l + of_nat (GetSizeBytes reference)\<rparr>
      else l)"

definition ReleaseChildren :: "Limit \<Rightarrow> LocalReference \<Rightarrow> Limit" where
  "ReleaseChildren l reference =
     (let h = GetHeight reference
      in if h > 0
         then l\<lparr>limit_count := limit_count l + of_nat (h - 1),
                limit_sizeBytes := limit_sizeBytes l + of_nat (GetMaximumTotalParentsSizeBytes reference False)\<rparr>
         else l)"

section \<open>Accounting\<close>

lemma of_nat_le_sub:
  fixes w :: "'a::len word"
  assumes "of_nat (x + y) \<le> w" "x + y < 2 ^ LENGTH('a)" "z \<le> x"
  shows "of_nat z \<le> w - of_nat y"
proof -
  have u: "unat (of_nat k :: 'a word) = k" if "k \<le> x + y" for k
    using that assms(2) by (simp add: unat_of_nat take_bit_nat_eq_self)
  then have "x + y \<le> unat w" using assms(1) by (simp add: word_le_nat_alt del: of_nat_add)
  moreover from this have "unat (w - of_nat y) = unat w - y"
    using u [of y] by (subst unat_sub) (simp_all add: word_le_nat_alt)
  ultimately show ?thesis using u [of z] assms(3) by (simp add: word_le_nat_alt)
qed

lemma GetMaximumTotalParentsSizeBytes_less:
  assumes "valid_reference r"
  shows "GetMaximumTotalParentsSizeBytes r True < 2 ^ 64"
proof -
  have "GetHeight r * 2 ^ 21 \<le> 255 * (2 ^ 21 :: nat)"
    using GetHeight_less [of r] by (intro mult_le_mono1) simp
  then show ?thesis using valid_reference_mtps(2) [OF assms] by simp
qed

lemma acquire_release:
  assumes "valid_reference r" "AcquireParentAndChildren l r = (True, l')"
  shows "ReleaseParent (ReleaseChildren l' r) r = l"
proof (cases "GetHeight r")
  case 0
  then have "GetMaximumTotalParentsSizeBytes r True = 0"
    using valid_reference_mtps(2) [OF assms(1)] by simp
  then show ?thesis using assms(2) 0
    by (auto simp: AcquireParentAndChildren_def ReleaseParent_def ReleaseChildren_def Let_def split: if_splits)
next
  case (Suc h)
  then have "GetMaximumTotalParentsSizeBytes r True = GetMaximumTotalParentsSizeBytes r False + GetSizeBytes r"
    by (simp add: GetMaximumTotalParentsSizeBytes_def)
  then show ?thesis using assms(2) Suc
    by (auto simp: AcquireParentAndChildren_def ReleaseParent_def ReleaseChildren_def Let_def algebra_simps
        split: if_splits)
qed

lemma acquire_child:
  assumes refs: "\<forall>r \<in> set rs. valid_reference r" and c: "NewContents rs payload = Inr c"
    and acq: "AcquireParentAndChildren l (contents_reference c) = (True, l')" and r: "r \<in> set rs"
  shows "CanAcquireParentAndChildren (ReleaseChildren l' (contents_reference c)) r"
proof -
  define p where "p = contents_reference c"
  have p: "valid_reference p" using NewContents_ok [OF refs c] by (metis p_def)
  note b = child_bounds [OF refs c r, folded p_def]
  then obtain h where h: "GetHeight p = Suc h" by (cases "GetHeight p") auto
  have le: "of_nat (GetHeight p) \<le> limit_count l"
    "of_nat (GetMaximumTotalParentsSizeBytes p True) \<le> limit_sizeBytes l"
    and l': "l' = l\<lparr>limit_count := limit_count l - of_nat (GetHeight p),
        limit_sizeBytes := limit_sizeBytes l - of_nat (GetMaximumTotalParentsSizeBytes p True)\<rparr>"
    using acq by (auto simp: AcquireParentAndChildren_def Let_def p_def split: if_splits)
  have s: "GetMaximumTotalParentsSizeBytes p True = GetMaximumTotalParentsSizeBytes p False + GetSizeBytes p"
    using h by (simp add: GetMaximumTotalParentsSizeBytes_def)
  have "limit_count (ReleaseChildren l' p) = limit_count l - 1"
    "limit_sizeBytes (ReleaseChildren l' p) = limit_sizeBytes l - of_nat (GetSizeBytes p)"
    using h by (simp_all add: ReleaseChildren_def l' s algebra_simps)
  moreover have "of_nat (GetHeight r) \<le> limit_count l - of_nat 1"
    using le(1) b(1) h GetHeight_less [of p] by (intro of_nat_le_sub [of h]) simp_all
  moreover have "of_nat (GetMaximumTotalParentsSizeBytes r True) \<le> limit_sizeBytes l - of_nat (GetSizeBytes p)"
    using le(2) b(2) GetMaximumTotalParentsSizeBytes_less [OF p]
    by (intro of_nat_le_sub [of "GetMaximumTotalParentsSizeBytes p False"]) (simp_all add: s)
  ultimately show ?thesis by (simp add: CanAcquireParentAndChildren_def p_def)
qed

section \<open>Properties\<close>

text \<open>
  C31. Traversals stay within their budget and do not get stuck: releasing a parent and its children
  returns exactly what acquiring them took, \<open>CanAcquireParentAndChildren\<close> predicts whether
  acquiring succeeds, and once the budget of an object is acquired, releasing the share of its
  children is enough to acquire any one child.
\<close>

theorem limit_budget:
  assumes "\<forall>r \<in> set rs. valid_reference r" "NewContents rs payload = Inr c"
    "AcquireParentAndChildren l (contents_reference c) = (True, l')"
  shows "CanAcquireParentAndChildren l (contents_reference c)
    \<and> ReleaseParent (ReleaseChildren l' (contents_reference c)) (contents_reference c) = l
    \<and> (\<forall>r \<in> set rs. CanAcquireParentAndChildren (ReleaseChildren l' (contents_reference c)) r
         \<and> fst (AcquireParentAndChildren (ReleaseChildren l' (contents_reference c)) r))"
proof -
  have can: "CanAcquireParentAndChildren m r \<longleftrightarrow> fst (AcquireParentAndChildren m r)" for m r
    by (auto simp: CanAcquireParentAndChildren_def AcquireParentAndChildren_def Let_def)
  have "valid_reference (contents_reference c)" using NewContents_ok [OF assms(1,2)] by metis
  then show ?thesis using acquire_release assms(3) acquire_child [OF assms] can by auto
qed

theorem limit_budget_witness:
  "ReleaseParent (ReleaseChildren Unlimited (contents_reference example_leaf)) (contents_reference example_leaf)
     = Unlimited"
proof -
  have "GetHeight (contents_reference example_leaf) = 0"
    using NewContents_ok [OF _ example_leaf] by (auto simp: rcs_inv_def)
  then have "AcquireParentAndChildren Unlimited (contents_reference example_leaf) = (True, Unlimited)"
    using valid_reference_mtps(2) [OF example_leaf_valid]
    by (simp add: AcquireParentAndChildren_def Unlimited_def)
  then show ?thesis using limit_budget [of "[]" "[0x68]" example_leaf Unlimited Unlimited] example_leaf by simp
qed

end
