(* ===== verification/Namespaces.thy ===== *)
theory Namespaces
  imports Reference "HOL-Library.Char_ord"
begin

text \<open>
  Instance names, namespaces and global references of \<open>pkg/storage/object\<close>. Strings are lists
  of bytes, as in Go.
\<close>

section \<open>Instance names and namespaces\<close>

datatype ReferenceFormat = ReferenceFormat

text \<open>The enumeration value \<open>ReferenceFormat_SHA256_V1\<close> of the protocol.\<close>

definition ReferenceFormat_SHA256_V1 :: int where "ReferenceFormat_SHA256_V1 = 1"

definition NewReferenceFormat :: "int \<Rightarrow> ReferenceFormat result" where
  "NewReferenceFormat value =
     (if value \<noteq> ReferenceFormat_SHA256_V1 then Inl (Status InvalidArgument) else Inr ReferenceFormat)"

definition ReferenceFormat_ToProto :: "ReferenceFormat \<Rightarrow> int" where
  "ReferenceFormat_ToProto rf = ReferenceFormat_SHA256_V1"

record InstanceName =
  instanceName_value :: string

definition is_alnum :: "char \<Rightarrow> bool" where
  "is_alnum c \<longleftrightarrow> CHR ''0'' \<le> c \<and> c \<le> CHR ''9'' \<or> CHR ''A'' \<le> c \<and> c \<le> CHR ''Z'' \<or> CHR ''a'' \<le> c \<and> c \<le> CHR ''z''"

text \<open>
  The automaton of the regular expression for instance names. The argument tells whether the current
  component has at least one character.
\<close>

fun instance_components :: "bool \<Rightarrow> string \<Rightarrow> bool" where
  "instance_components started [] = started"
| "instance_components started (c # cs) =
     (if is_alnum c then instance_components True cs
      else c = CHR ''/'' \<and> started \<and> instance_components False cs)"

definition validInstanceNameRegexp :: "string \<Rightarrow> bool" where
  "validInstanceNameRegexp s \<longleftrightarrow> s = [] \<or> instance_components False s"

definition NewInstanceName :: "string \<Rightarrow> InstanceName result" where
  "NewInstanceName value =
     (if \<not> validInstanceNameRegexp value then Inl (Status InvalidArgument)
      else Inr \<lparr>instanceName_value = value\<rparr>)"

text \<open>\<open>url.PathEscape\<close> of the Go standard library.\<close>

definition hex_digit :: "nat \<Rightarrow> char" where
  "hex_digit n = ''0123456789ABCDEF'' ! n"

definition path_should_escape :: "char \<Rightarrow> bool" where
  "path_should_escape c \<longleftrightarrow> \<not> is_alnum c \<and> c \<notin> set ''-_.~$&+:=@''"

definition PathEscape :: "string \<Rightarrow> string" where
  "PathEscape s = concat (map (\<lambda>c.
     if path_should_escape c
     then [CHR ''%'', hex_digit (of_char c div 16), hex_digit (of_char c mod 16)]
     else [c]) s)"

definition AsURLSafeComponent :: "InstanceName \<Rightarrow> string" where
  "AsURLSafeComponent in' =
     (if instanceName_value in' = [] then ''-'' else PathEscape (instanceName_value in'))"

record Namespace =
  ns_InstanceName :: InstanceName
  ns_ReferenceFormat :: ReferenceFormat

record NamespaceMessage =
  msg_InstanceName :: string
  msg_ReferenceFormat :: int

definition NewNamespace :: "NamespaceMessage option \<Rightarrow> Namespace result" where
  "NewNamespace m =
     (case m of
        None \<Rightarrow> Inl (Status InvalidArgument)
      | Some m \<Rightarrow>
          bindE (NewInstanceName (msg_InstanceName m)) (\<lambda>instanceName.
            bindE (NewReferenceFormat (msg_ReferenceFormat m)) (\<lambda>referenceFormat.
              Inr \<lparr>ns_InstanceName = instanceName, ns_ReferenceFormat = referenceFormat\<rparr>)))"

definition Namespace_ToProto :: "Namespace \<Rightarrow> NamespaceMessage" where
  "Namespace_ToProto ns =
     \<lparr>msg_InstanceName = instanceName_value (ns_InstanceName ns),
      msg_ReferenceFormat = ReferenceFormat_ToProto (ns_ReferenceFormat ns)\<rparr>"

record GlobalReference =
  gr_InstanceName :: InstanceName
  gr_LocalReference :: LocalReference

definition GetNamespace :: "GlobalReference \<Rightarrow> Namespace" where
  "GetNamespace r = \<lparr>ns_InstanceName = gr_InstanceName r, ns_ReferenceFormat = ReferenceFormat\<rparr>"

definition NewGlobalReference :: "Namespace \<Rightarrow> bytes \<Rightarrow> GlobalReference result" where
  "NewGlobalReference ns raw =
     bindE (NewLocalReference raw) (\<lambda>localReference.
       Inr \<lparr>gr_InstanceName = ns_InstanceName ns, gr_LocalReference = localReference\<rparr>)"

definition InstanceName_WithLocalReference :: "InstanceName \<Rightarrow> LocalReference \<Rightarrow> GlobalReference" where
  "InstanceName_WithLocalReference in' localReference =
     \<lparr>gr_InstanceName = in', gr_LocalReference = localReference\<rparr>"

definition GlobalReference_WithLocalReference :: "GlobalReference \<Rightarrow> LocalReference \<Rightarrow> GlobalReference" where
  "GlobalReference_WithLocalReference r localReference =
     InstanceName_WithLocalReference (gr_InstanceName r) localReference"

definition GlobalReference_CompareByHeight :: "GlobalReference \<Rightarrow> GlobalReference \<Rightarrow> int" where
  "GlobalReference_CompareByHeight r other =
     (let c = CompareByHeight (gr_LocalReference r) (gr_LocalReference other)
      in if c \<noteq> 0 then c
         else bytes_Compare (map of_char (instanceName_value (gr_InstanceName r)))
                (map of_char (instanceName_value (gr_InstanceName other))))"

section \<open>Instance names\<close>

text \<open>The names that the regular expression describes: components separated by slashes.\<close>

definition is_component :: "string \<Rightarrow> bool" where
  "is_component c \<longleftrightarrow> c \<noteq> [] \<and> list_all is_alnum c"

fun join_components :: "string list \<Rightarrow> string" where
  "join_components [] = []"
| "join_components [c] = c"
| "join_components (c # cs) = c @ CHR ''/'' # join_components cs"

lemma not_is_alnum_slash [simp]: "\<not> is_alnum (CHR ''/'')"
  by (simp add: is_alnum_def less_eq_char_def)

lemma instance_components_alnum: "list_all is_alnum xs \<Longrightarrow> instance_components b (xs @ ys) = instance_components (b \<or> xs \<noteq> []) ys"
  by (induction xs arbitrary: b) auto

lemma instance_components_join:
  "cs \<noteq> [] \<Longrightarrow> list_all is_component cs \<Longrightarrow> instance_components False (join_components cs)"
proof (induction cs rule: join_components.induct)
  case (2 c)
  then show ?case using instance_components_alnum [of c False "[]"] by (simp add: is_component_def)
next
  case (3 c d cs)
  then show ?case using instance_components_alnum [of c False "CHR ''/'' # join_components (d # cs)"]
    by (simp add: is_component_def)
qed simp

lemma instance_components_split:
  "instance_components b s \<Longrightarrow> \<exists>c cs. s = join_components (c # cs) \<and> list_all is_alnum c
     \<and> (b \<or> c \<noteq> []) \<and> list_all is_component cs"
proof (induction b s rule: instance_components.induct)
  case (1 started)
  then show ?case by (intro exI [of _ "[]"]) simp
next
  case (2 started a s)
  show ?case
  proof (cases "is_alnum a")
    case True
    then obtain c cs where "s = join_components (c # cs)" "list_all is_alnum c" "list_all is_component cs"
      using 2 by auto
    then show ?thesis using True by (intro exI [of _ "a # c"] exI [of _ cs]) (cases cs; simp)
  next
    case False
    then obtain c cs where "s = join_components (c # cs)" "list_all is_alnum c" "c \<noteq> []" "list_all is_component cs"
      using 2 by auto
    moreover from this have "is_component c" by (simp add: is_component_def)
    ultimately show ?thesis using 2(3) False
      by (intro exI [of _ "[] :: string"] exI [of _ "c # cs"]) simp
  qed
qed

lemma validInstanceNameRegexp_iff:
  "validInstanceNameRegexp s \<longleftrightarrow> (\<exists>cs. list_all is_component cs \<and> s = join_components cs)"
proof
  assume "validInstanceNameRegexp s"
  then consider "s = []" | "instance_components False s" by (auto simp: validInstanceNameRegexp_def)
  then show "\<exists>cs. list_all is_component cs \<and> s = join_components cs"
  proof cases
    case 1
    then show ?thesis by (intro exI [of _ "[]"]) simp
  next
    case 2
    then obtain c cs where "s = join_components (c # cs)" "list_all is_alnum c" "c \<noteq> []" "list_all is_component cs"
      using instance_components_split by blast
    moreover from this have "is_component c" by (simp add: is_component_def)
    ultimately show ?thesis by (intro exI [of _ "c # cs"]) simp
  qed
next
  assume "\<exists>cs. list_all is_component cs \<and> s = join_components cs"
  then obtain cs where "list_all is_component cs" "s = join_components cs" by blast
  then show "validInstanceNameRegexp s"
    using instance_components_join [of cs] by (cases "cs = []") (simp_all add: validInstanceNameRegexp_def)
qed

section \<open>Escaping\<close>

lemma PathEscape_simps: "PathEscape [] = []"
  "PathEscape (c # s) = (if path_should_escape c
     then [CHR ''%'', hex_digit (of_char c div 16), hex_digit (of_char c mod 16)] else [c]) @ PathEscape s"
  by (simp_all add: PathEscape_def)

lemma not_is_alnum_percent [simp]: "\<not> is_alnum (CHR ''%'')"
  by (simp add: is_alnum_def less_eq_char_def)

lemma instance_components_chars: "instance_components b s \<Longrightarrow> c \<in> set s \<Longrightarrow> is_alnum c \<or> c = CHR ''/''"
  by (induction b s rule: instance_components.induct) (auto split: if_splits)

lemma PathEscape_inject:
  assumes "\<forall>c \<in> set s. is_alnum c \<or> c = CHR ''/''" "\<forall>c \<in> set t. is_alnum c \<or> c = CHR ''/''"
    and "PathEscape s = PathEscape t"
  shows "s = t"
  using assms
proof (induction s arbitrary: t)
  case Nil
  then show ?case by (cases t) (auto simp: PathEscape_simps split: if_splits)
next
  case (Cons c s)
  have slash: "path_should_escape (CHR ''/'')" by (simp add: path_should_escape_def)
  have alnum: "\<not> path_should_escape d" if "is_alnum d" for d using that by (simp add: path_should_escape_def)
  obtain d t' where t: "t = d # t'" using Cons.prems(3) by (cases t) (auto simp: PathEscape_simps split: if_splits)
  have "c = d"
    using Cons.prems alnum [of c] alnum [of d] slash unfolding t
    by (auto simp: PathEscape_simps split: if_splits)
  moreover from this have "PathEscape s = PathEscape t'" using Cons.prems(3) t by (simp add: PathEscape_simps)
  ultimately show ?case using Cons.IH [of t'] Cons.prems t by auto
qed

section \<open>Properties\<close>

text \<open>
  Namespaces: \<open>NewInstanceName\<close> accepts exactly the slash separated sequences of nonempty
  alphanumeric components, a namespace survives conversion to a message and back, and the URL safe
  form of instance names is unambiguous, although the empty name is written as a dash.
\<close>

theorem namespace_names:
  assumes "NewInstanceName s = Inr a" "NewInstanceName t = Inr b"
  shows "((\<exists>n. NewInstanceName u = Inr n) \<longleftrightarrow> (\<exists>cs. list_all is_component cs \<and> u = join_components cs))
    \<and> NewNamespace (Some (Namespace_ToProto \<lparr>ns_InstanceName = a, ns_ReferenceFormat = ReferenceFormat\<rparr>))
        = Inr \<lparr>ns_InstanceName = a, ns_ReferenceFormat = ReferenceFormat\<rparr>
    \<and> (AsURLSafeComponent a = AsURLSafeComponent b \<longrightarrow> a = b)"
proof -
  have v: "validInstanceNameRegexp s" "a = \<lparr>instanceName_value = s\<rparr>"
    "validInstanceNameRegexp t" "b = \<lparr>instanceName_value = t\<rparr>"
    using assms by (auto simp: NewInstanceName_def split: if_splits)
  have chars: "\<forall>c \<in> set x. is_alnum c \<or> c = CHR ''/''" if "validInstanceNameRegexp x" for x
    using that instance_components_chars [of False x] by (auto simp: validInstanceNameRegexp_def)
  have dash: "PathEscape x \<noteq> ''-''" if "validInstanceNameRegexp x" for x
    using chars [OF that]
    by (cases x) (auto simp: PathEscape_simps is_alnum_def less_eq_char_def split: if_splits)
  have "AsURLSafeComponent a = AsURLSafeComponent b \<longrightarrow> a = b"
    using PathEscape_inject [OF chars [OF v(1)] chars [OF v(3)]] dash [OF v(1)] dash [OF v(3)] v(2,4)
    by (auto simp: AsURLSafeComponent_def split: if_splits)
  moreover have "(\<exists>n. NewInstanceName u = Inr n) \<longleftrightarrow> (\<exists>cs. list_all is_component cs \<and> u = join_components cs)"
    using validInstanceNameRegexp_iff [of u] by (auto simp: NewInstanceName_def)
  moreover have "NewNamespace (Some (Namespace_ToProto \<lparr>ns_InstanceName = a, ns_ReferenceFormat = ReferenceFormat\<rparr>))
        = Inr \<lparr>ns_InstanceName = a, ns_ReferenceFormat = ReferenceFormat\<rparr>"
    using v(1,2) by (simp add: NewNamespace_def Namespace_ToProto_def NewInstanceName_def NewReferenceFormat_def
        ReferenceFormat_ToProto_def)
  ultimately show ?thesis by blast
qed

theorem namespace_names_witness:
  "\<exists>cs. list_all is_component cs \<and> ''a/b'' = join_components cs"
proof -
  have "NewInstanceName ''a/b'' = Inr \<lparr>instanceName_value = ''a/b''\<rparr>" by code_simp
  then show ?thesis using namespace_names [of "''a/b''" _ "''a/b''" _ "''a/b''"] by blast
qed

end
