(* ===== verification/Epoch_List.thy ===== *)
theory Epoch_List
  imports Prelude
begin

text \<open>
  Epochs of the local object store (\<open>pkg/storage/object/local\<close>): \<open>EpochState\<close>, the interfaces
  \<open>EpochIDResolver\<close> and \<open>EpochList\<close>, the volatile and the persistent implementation, the
  notification channels of the latter and the synchronization steps of \<open>PeriodicSyncer\<close>. The random
  number generator is third party code: a parameter. The locale \<open>epoch_list\<close> states what
  the store relies on; both implementations are interpretations of it.
\<close>

section \<open>Epoch states and the interfaces\<close>

record EpochState =
  HashSeed :: uint64
  MinimumLocation :: uint64
  MaximumLocation :: uint64

definition IsValidLocation :: "EpochState \<Rightarrow> uint64 \<Rightarrow> nat \<Rightarrow> bool" where
  "IsValidLocation s location sizeBytes \<longleftrightarrow>
     location \<ge> MinimumLocation s \<and> location < MaximumLocation s
     \<and> MaximumLocation s - location \<ge> of_nat sizeBytes"

text \<open>
  The interface \<open>EpochList\<close>, which includes \<open>EpochIDResolver\<close>. A failed lookup of
  \<open>GetEpochStateForEpochID\<close> is \<open>None\<close>.
\<close>

record 'e EpochList =
  GetEpochStateForEpochID :: "'e \<Rightarrow> uint32 \<Rightarrow> EpochState option"
  GetCurrentEpochState :: "'e \<Rightarrow> (EpochState \<times> uint32) result"
  FinalizeWriteUpToLocation :: "'e \<Rightarrow> uint64 \<Rightarrow> go_error option \<times> 'e"
  DiscardUpToLocation :: "'e \<Rightarrow> uint64 \<Rightarrow> 'e result"

text \<open>\<open>random.SingleThreadedGenerator\<close> of bb-storage, with its state made explicit.\<close>

record 'g SingleThreadedGenerator =
  rng_Uint32 :: "'g \<Rightarrow> uint32 \<times> 'g"
  rng_Uint64 :: "'g \<Rightarrow> uint64 \<times> 'g"

section \<open>The volatile epoch list\<close>

record 'g volatileEpochList =
  v_maximumLocationSpan :: uint64
  v_randomNumberGenerator :: 'g
  v_epochID :: uint32
  v_epochState :: EpochState

definition v_reinitialize :: "'g SingleThreadedGenerator \<Rightarrow> 'g volatileEpochList \<Rightarrow> 'g volatileEpochList" where
  "v_reinitialize rng el =
     (let (epochID, g) = rng_Uint32 rng (v_randomNumberGenerator el);
          (hashSeed, g) = rng_Uint64 rng g
      in el\<lparr>v_randomNumberGenerator := g, v_epochID := epochID,
            v_epochState := \<lparr>HashSeed = hashSeed, MinimumLocation = 0, MaximumLocation = 0\<rparr>\<rparr>)"

definition NewVolatileEpochList ::
  "'g SingleThreadedGenerator \<Rightarrow> uint64 \<Rightarrow> 'g \<Rightarrow> 'g volatileEpochList" where
  "NewVolatileEpochList rng maximumLocationSpan g =
     v_reinitialize rng
       \<lparr>v_maximumLocationSpan = maximumLocationSpan, v_randomNumberGenerator = g, v_epochID = 0,
        v_epochState = \<lparr>HashSeed = 0, MinimumLocation = 0, MaximumLocation = 0\<rparr>\<rparr>"

definition v_FinalizeWriteUpToLocation ::
  "'g SingleThreadedGenerator \<Rightarrow> 'g volatileEpochList \<Rightarrow> uint64 \<Rightarrow> go_error option \<times> 'g volatileEpochList" where
  "v_FinalizeWriteUpToLocation rng el location =
     (if sint (location - MaximumLocation (v_epochState el)) > 0 then
        let el = (if location < MaximumLocation (v_epochState el) then v_reinitialize rng el else el);
            st = (v_epochState el)\<lparr>MaximumLocation := location\<rparr>;
            st = (if MaximumLocation st - MinimumLocation st > v_maximumLocationSpan el
                  then st\<lparr>MinimumLocation := MaximumLocation st - v_maximumLocationSpan el\<rparr> else st)
        in (None, el\<lparr>v_epochState := st\<rparr>)
      else (None, el))"

definition v_DiscardUpToLocation :: "'g volatileEpochList \<Rightarrow> uint64 \<Rightarrow> 'g volatileEpochList" where
  "v_DiscardUpToLocation el location =
     (if MinimumLocation (v_epochState el) < location then
        let st = (v_epochState el)\<lparr>MinimumLocation := location\<rparr>;
            st = (if MaximumLocation st < MinimumLocation st
                  then st\<lparr>MaximumLocation := MinimumLocation st\<rparr> else st)
        in el\<lparr>v_epochState := st\<rparr>
      else el)"

definition v_GetEpochStateForEpochID :: "'g volatileEpochList \<Rightarrow> uint32 \<Rightarrow> EpochState option" where
  "v_GetEpochStateForEpochID el epochID =
     (if epochID \<noteq> v_epochID el then None else Some (v_epochState el))"

definition v_GetCurrentEpochState :: "'g volatileEpochList \<Rightarrow> (EpochState \<times> uint32) result" where
  "v_GetCurrentEpochState el = Inr (v_epochState el, v_epochID el)"

definition volatileEpochList :: "'g SingleThreadedGenerator \<Rightarrow> 'g volatileEpochList EpochList" where
  "volatileEpochList rng =
     \<lparr>GetEpochStateForEpochID = v_GetEpochStateForEpochID,
      GetCurrentEpochState = v_GetCurrentEpochState,
      FinalizeWriteUpToLocation = v_FinalizeWriteUpToLocation rng,
      DiscardUpToLocation = (\<lambda>el location. Inr (v_DiscardUpToLocation el location))\<rparr>"

section \<open>Notification channels\<close>

text \<open>
  Channels are references: \<open>channel\<close> is the index of a channel in the list of all channels made
  so far, which holds whether a channel is closed. Closing a closed channel panics.
\<close>

type_synonym channels = "bool list"

record notificationChannel =
  channel :: nat
  isBlocking :: bool

definition newNotificationChannel :: "channels \<Rightarrow> notificationChannel \<times> channels" where
  "newNotificationChannel heap = (\<lparr>channel = length heap, isBlocking = True\<rparr>, heap @ [False])"

definition chan_close :: "nat \<Rightarrow> channels \<Rightarrow> channels result" where
  "chan_close c heap = (if c < length heap \<and> \<not> heap ! c then Inr (heap[c := True]) else Inl Panic)"

definition nc_block :: "notificationChannel \<times> channels \<Rightarrow> notificationChannel \<times> channels" where
  "nc_block = (\<lambda>(nc, heap). if \<not> isBlocking nc then newNotificationChannel heap else (nc, heap))"

definition nc_unblock :: "notificationChannel \<times> channels \<Rightarrow> (notificationChannel \<times> channels) result" where
  "nc_unblock = (\<lambda>(nc, heap).
     if isBlocking nc then
       bindE (chan_close (channel nc) heap) (\<lambda>heap. Inr (nc\<lparr>isBlocking := False\<rparr>, heap))
     else Inr (nc, heap))"

text \<open>
  The current channel is open exactly while it is marked blocking, and every channel that was handed
  out before has been closed.
\<close>

definition nc_inv :: "notificationChannel \<times> channels \<Rightarrow> bool" where
  "nc_inv = (\<lambda>(nc, heap). channel nc < length heap \<and> (heap ! channel nc \<longleftrightarrow> \<not> isBlocking nc)
     \<and> (\<forall>c < length heap. c \<noteq> channel nc \<longrightarrow> heap ! c))"

lemma nc_inv_new: "(\<forall>c < length heap. heap ! c) \<Longrightarrow> nc_inv (newNotificationChannel heap)"
  by (auto simp: nc_inv_def newNotificationChannel_def nth_append)

lemma nc_inv_block: "nc_inv n \<Longrightarrow> nc_inv (nc_block n)"
proof -
  assume n: "nc_inv n"
  obtain nc heap where [simp]: "n = (nc, heap)" by force
  have "\<not> isBlocking nc \<Longrightarrow> \<forall>c < length heap. heap ! c"
    using n by (auto simp: nc_inv_def)
  then show ?thesis using n nc_inv_new [of heap] by (simp add: nc_block_def)
qed

lemma nc_unblock_inv:
  assumes "nc_inv n"
  obtains n' where "nc_unblock n = Inr n'" "nc_inv n'" "\<not> isBlocking (fst n')" "channel (fst n') = channel (fst n)"
proof (cases "isBlocking (fst n)")
  case True
  then show ?thesis
    using assms that [of "((fst n)\<lparr>isBlocking := False\<rparr>, (snd n)[channel (fst n) := True])"]
    by (cases n) (auto simp: nc_unblock_def nc_inv_def chan_close_def nth_list_update)
next
  case False
  then show ?thesis using assms that [of n] by (cases n) (simp add: nc_unblock_def)
qed

section \<open>The persistent epoch list\<close>

record persistentEpochInfo =
  hashSeed :: uint64
  maximumLocation :: uint64

record 'g PersistentEpochList =
  maximumLocationSpan :: uint64
  randomNumberGenerator :: 'g
  closedForWriting :: bool
  minimumEpochID :: uint32
  minimumLocation :: uint64
  epochs :: "persistentEpochInfo list"
  synchronizingEpochs :: nat
  synchronizedEpochs :: nat
  locationsChangedWakeup :: "notificationChannel \<times> channels"

text \<open>The message \<open>EpochState\<close> of \<open>local.proto\<close>.\<close>

record EpochState_pb =
  pb_HashSeed :: uint64
  pb_LocationIncrease :: uint64

definition p_reinitialize :: "'g PersistentEpochList \<Rightarrow> 'g PersistentEpochList" where
  "p_reinitialize el = el\<lparr>minimumEpochID := 0, minimumLocation := 0, epochs := [],
     synchronizingEpochs := 0, synchronizedEpochs := 0\<rparr>"

definition pruneStaleEpochs :: "'g PersistentEpochList \<Rightarrow> 'g PersistentEpochList" where
  "pruneStaleEpochs el =
     (let epochsToPrune = length (takeWhile (\<lambda>e. maximumLocation e \<le> minimumLocation el) (epochs el))
      in el\<lparr>minimumEpochID := minimumEpochID el + of_nat epochsToPrune,
            epochs := drop epochsToPrune (epochs el),
            synchronizingEpochs :=
              (if synchronizingEpochs el < epochsToPrune then 0 else synchronizingEpochs el - epochsToPrune),
            synchronizedEpochs :=
              (if synchronizedEpochs el < epochsToPrune then 0 else synchronizedEpochs el - epochsToPrune)\<rparr>)"

definition reload_epoch ::
  "'g PersistentEpochList \<Rightarrow> uint64 \<Rightarrow> EpochState_pb \<Rightarrow> 'g PersistentEpochList \<times> uint64" where
  "reload_epoch el maxLocation epoch =
     (let (maxLocation, carryOut) = bits_Add64 maxLocation (pb_LocationIncrease epoch) 0;
          el = (if carryOut \<noteq> 0 then p_reinitialize el else el)
      in (el\<lparr>epochs := epochs el @ [\<lparr>hashSeed = pb_HashSeed epoch, maximumLocation = maxLocation\<rparr>],
             synchronizingEpochs := synchronizingEpochs el + 1,
             synchronizedEpochs := synchronizedEpochs el + 1\<rparr>, maxLocation))"

fun reload_epochs ::
  "'g PersistentEpochList \<Rightarrow> uint64 \<Rightarrow> EpochState_pb list \<Rightarrow> 'g PersistentEpochList" where
  "reload_epochs el maxLocation [] = el"
| "reload_epochs el maxLocation (epoch # rest) =
     (let (el, maxLocation) = reload_epoch el maxLocation epoch in reload_epochs el maxLocation rest)"

definition NewPersistentEpochList ::
  "uint64 \<Rightarrow> 'g \<Rightarrow> uint32 \<Rightarrow> uint64 \<Rightarrow> EpochState_pb list \<Rightarrow> 'g PersistentEpochList" where
  "NewPersistentEpochList span g minEpochID minLocation eps =
     pruneStaleEpochs (reload_epochs
       \<lparr>maximumLocationSpan = span, randomNumberGenerator = g, closedForWriting = False,
        minimumEpochID = minEpochID, minimumLocation = minLocation, epochs = [],
        synchronizingEpochs = 0, synchronizedEpochs = 0,
        locationsChangedWakeup = newNotificationChannel []\<rparr>
       minLocation eps)"

definition wakeup_unblock :: "'g PersistentEpochList \<Rightarrow> 'g PersistentEpochList result" where
  "wakeup_unblock el = bindE (nc_unblock (locationsChangedWakeup el))
     (\<lambda>n. Inr (el\<lparr>locationsChangedWakeup := n\<rparr>))"

text \<open>The highest location that is covered: that of the last epoch, or the minimum if there is none.\<close>

definition lastMaximumLocation :: "'g PersistentEpochList \<Rightarrow> uint64" where
  "lastMaximumLocation el =
     (if epochs el \<noteq> [] then maximumLocation (last (epochs el)) else minimumLocation el)"

definition append_epoch ::
  "'g SingleThreadedGenerator \<Rightarrow> uint64 \<Rightarrow> 'g PersistentEpochList \<Rightarrow> 'g PersistentEpochList" where
  "append_epoch rng location el =
     (let (seed, g) = rng_Uint64 rng (randomNumberGenerator el)
      in el\<lparr>randomNumberGenerator := g,
            epochs := epochs el @ [\<lparr>hashSeed = seed, maximumLocation = location\<rparr>]\<rparr>)"

text \<open>Covering a location by the current epoch, which is created if it does not exist.\<close>

definition cover_location ::
  "'g SingleThreadedGenerator \<Rightarrow> uint64 \<Rightarrow> 'g PersistentEpochList \<Rightarrow> 'g PersistentEpochList result" where
  "cover_location rng location el =
     (if length (epochs el) = synchronizingEpochs el then Inr (append_epoch rng location el)
      else if epochs el = [] then Inl Panic
      else Inr (el\<lparr>epochs := butlast (epochs el) @ [(last (epochs el))\<lparr>maximumLocation := location\<rparr>]\<rparr>))"

definition progress_minimum :: "uint64 \<Rightarrow> 'g PersistentEpochList \<Rightarrow> 'g PersistentEpochList" where
  "progress_minimum location el =
     (if location - minimumLocation el > maximumLocationSpan el
      then el\<lparr>minimumLocation := location - maximumLocationSpan el\<rparr> else el)"

definition p_FinalizeWriteUpToLocation ::
  "'g SingleThreadedGenerator \<Rightarrow> 'g PersistentEpochList \<Rightarrow> uint64 \<Rightarrow> go_error option \<times> 'g PersistentEpochList" where
  "p_FinalizeWriteUpToLocation rng el location =
     (if closedForWriting el then (Some (Status Unavailable), el)
      else
        let maxLocation = lastMaximumLocation el in
        if sint (location - maxLocation) > 0 then
          let el = (if location < maxLocation then p_reinitialize el else el) in
          case bindE (cover_location rng location el) (\<lambda>el.
                 wakeup_unblock (pruneStaleEpochs (progress_minimum location el))) of
            Inl err \<Rightarrow> (Some err, el)
          | Inr el \<Rightarrow> (None, el)
        else if length (epochs el) = synchronizingEpochs el then
          (None, append_epoch rng maxLocation el)
        else (None, el))"

definition p_DiscardUpToLocation :: "'g PersistentEpochList \<Rightarrow> uint64 \<Rightarrow> 'g PersistentEpochList result" where
  "p_DiscardUpToLocation el location =
     (if minimumLocation el < location
      then wakeup_unblock (pruneStaleEpochs (el\<lparr>minimumLocation := location\<rparr>))
      else Inr el)"

definition epoch_state :: "'g PersistentEpochList \<Rightarrow> persistentEpochInfo \<Rightarrow> EpochState" where
  "epoch_state el epoch = \<lparr>HashSeed = hashSeed epoch, MinimumLocation = minimumLocation el,
     MaximumLocation = maximumLocation epoch\<rparr>"

definition p_GetEpochStateForEpochID :: "'g PersistentEpochList \<Rightarrow> uint32 \<Rightarrow> EpochState option" where
  "p_GetEpochStateForEpochID el epochID =
     (let epochIndex = epochID - minimumEpochID el in
      if epochIndex \<ge> of_nat (length (epochs el)) then None
      else Some (epoch_state el (epochs el ! unat epochIndex)))"

definition p_GetCurrentEpochState :: "'g PersistentEpochList \<Rightarrow> (EpochState \<times> uint32) result" where
  "p_GetCurrentEpochState el =
     (if length (epochs el) \<noteq> synchronizingEpochs el + 1 then Inl Panic
      else Inr (epoch_state el (epochs el ! synchronizingEpochs el),
                minimumEpochID el + of_nat (synchronizingEpochs el)))"

definition GetLocationsChangedWakeup :: "'g PersistentEpochList \<Rightarrow> nat" where
  "GetLocationsChangedWakeup el = channel (fst (locationsChangedWakeup el))"

definition NotifySyncStarting :: "'g PersistentEpochList \<Rightarrow> bool \<Rightarrow> 'g PersistentEpochList" where
  "NotifySyncStarting el isFinalSync =
     (let el = (if isFinalSync then el\<lparr>closedForWriting := True\<rparr> else el)
      in el\<lparr>synchronizingEpochs := length (epochs el)\<rparr>)"

definition NotifySyncCompleted :: "'g PersistentEpochList \<Rightarrow> 'g PersistentEpochList" where
  "NotifySyncCompleted el =
     (let el = el\<lparr>synchronizedEpochs := synchronizingEpochs el\<rparr>
      in if synchronizedEpochs el = length (epochs el)
         then el\<lparr>locationsChangedWakeup := nc_block (locationsChangedWakeup el)\<rparr> else el)"

fun location_increases :: "uint64 \<Rightarrow> persistentEpochInfo list \<Rightarrow> EpochState_pb list" where
  "location_increases previous [] = []"
| "location_increases previous (epoch # rest) =
     \<lparr>pb_HashSeed = hashSeed epoch, pb_LocationIncrease = maximumLocation epoch - previous\<rparr>
     # location_increases (maximumLocation epoch) rest"

definition GetPersistentState :: "'g PersistentEpochList \<Rightarrow> uint32 \<times> uint64 \<times> EpochState_pb list" where
  "GetPersistentState el = (minimumEpochID el, minimumLocation el,
     location_increases (minimumLocation el) (take (synchronizedEpochs el) (epochs el)))"

definition persistentEpochList :: "'g SingleThreadedGenerator \<Rightarrow> 'g PersistentEpochList EpochList" where
  "persistentEpochList rng =
     \<lparr>GetEpochStateForEpochID = p_GetEpochStateForEpochID,
      GetCurrentEpochState = p_GetCurrentEpochState,
      FinalizeWriteUpToLocation = p_FinalizeWriteUpToLocation rng,
      DiscardUpToLocation = p_DiscardUpToLocation\<rparr>"

section \<open>The invariant of the persistent epoch list\<close>

definition counts_ok :: "'g PersistentEpochList \<Rightarrow> bool" where
  "counts_ok el \<longleftrightarrow> synchronizedEpochs el \<le> synchronizingEpochs el
     \<and> synchronizingEpochs el \<le> length (epochs el)
     \<and> length (epochs el) \<le> synchronizingEpochs el + 1"

definition maxima_ok :: "'g PersistentEpochList \<Rightarrow> bool" where
  "maxima_ok el \<longleftrightarrow> sorted (map maximumLocation (epochs el))
     \<and> (\<forall>e \<in> set (epochs el). minimumLocation el \<le> maximumLocation e)"

definition el_inv :: "'g PersistentEpochList \<Rightarrow> bool" where
  "el_inv el \<longleftrightarrow> counts_ok el \<and> maxima_ok el \<and> nc_inv (locationsChangedWakeup el)"

lemma sorted_dropWhile_gt:
  "sorted (map f xs) \<Longrightarrow> x \<in> set (dropWhile (\<lambda>e. f e \<le> (m :: 'a::linorder)) xs) \<Longrightarrow> m < f x"
  by (induction xs) (auto split: if_splits)

lemma drop_length_takeWhile: "drop (length (takeWhile P xs)) xs = dropWhile P xs"
  by (metis dropWhile_eq_drop)

lemma epochs_prune:
  "epochs (pruneStaleEpochs el) = dropWhile (\<lambda>e. maximumLocation e \<le> minimumLocation el) (epochs el)"
  by (simp add: pruneStaleEpochs_def Let_def drop_length_takeWhile)

lemma prune_simps [simp]:
  "minimumLocation (pruneStaleEpochs el) = minimumLocation el"
  "maximumLocationSpan (pruneStaleEpochs el) = maximumLocationSpan el"
  "closedForWriting (pruneStaleEpochs el) = closedForWriting el"
  "locationsChangedWakeup (pruneStaleEpochs el) = locationsChangedWakeup el"
  by (simp_all add: pruneStaleEpochs_def Let_def)

lemma counts_prune: "counts_ok el \<Longrightarrow> counts_ok (pruneStaleEpochs el)"
  by (auto simp: counts_ok_def pruneStaleEpochs_def Let_def)

lemma maxima_prune: "sorted (map maximumLocation (epochs el)) \<Longrightarrow> maxima_ok (pruneStaleEpochs el)"
  using sorted_dropWhile_gt [of maximumLocation "epochs el" _ "minimumLocation el"]
  by (auto simp: maxima_ok_def epochs_prune dropWhile_eq_drop drop_map [symmetric] sorted_wrt_drop
      less_imp_le)

lemma prune_current:
  assumes "length (epochs el) = synchronizingEpochs el + 1"
    and "minimumLocation el < maximumLocation (last (epochs el))"
  shows "length (epochs (pruneStaleEpochs el)) = synchronizingEpochs (pruneStaleEpochs el) + 1"
    and "last (epochs (pruneStaleEpochs el)) = last (epochs el)"
proof -
  let ?P = "\<lambda>e. maximumLocation e \<le> minimumLocation el"
  have ne: "epochs el \<noteq> []" using assms(1) by auto
  then have l: "last (epochs el) \<in> set (epochs el)" "\<not> ?P (last (epochs el))" using assms(2) by auto
  then have d: "dropWhile ?P (epochs el) \<noteq> []" by (auto simp: dropWhile_eq_Nil_conv)
  then have "length (takeWhile ?P (epochs el)) \<le> synchronizingEpochs el"
    using assms(1) length_takeWhile_le [of ?P "epochs el"]
    by (metis Suc_eq_plus1 drop_length_takeWhile drop_all le_SucE order_refl)
  then show "length (epochs (pruneStaleEpochs el)) = synchronizingEpochs (pruneStaleEpochs el) + 1"
    using assms(1) by (simp add: pruneStaleEpochs_def Let_def)
  show "last (epochs (pruneStaleEpochs el)) = last (epochs el)"
    using last_appendR [OF d, of "takeWhile ?P (epochs el)"] by (simp add: epochs_prune)
qed

lemma wakeup_unblock_ok:
  assumes "nc_inv (locationsChangedWakeup el)"
  obtains n where "wakeup_unblock el = Inr (el\<lparr>locationsChangedWakeup := n\<rparr>)" "nc_inv n" "\<not> isBlocking (fst n)"
    "channel (fst n) = GetLocationsChangedWakeup el"
proof -
  obtain n where "nc_unblock (locationsChangedWakeup el) = Inr n" "nc_inv n" "\<not> isBlocking (fst n)"
    "channel (fst n) = channel (fst (locationsChangedWakeup el))"
    using nc_unblock_inv [OF assms] .
  then show ?thesis using that [of n] by (simp add: wakeup_unblock_def GetLocationsChangedWakeup_def)
qed

lemma el_inv_wakeup [simp]:
  "counts_ok (el\<lparr>locationsChangedWakeup := n\<rparr>) = counts_ok el"
  "maxima_ok (el\<lparr>locationsChangedWakeup := n\<rparr>) = maxima_ok el"
  by (simp_all add: counts_ok_def maxima_ok_def)

definition reload_ok :: "notificationChannel \<times> channels \<Rightarrow> 'g PersistentEpochList \<Rightarrow> uint64 \<Rightarrow> bool" where
  "reload_ok n el maxLoc \<longleftrightarrow> counts_ok el \<and> synchronizingEpochs el = length (epochs el)
     \<and> sorted (map maximumLocation (epochs el)) \<and> (\<forall>e \<in> set (epochs el). maximumLocation e \<le> maxLoc)
     \<and> locationsChangedWakeup el = n"

lemma reload_ok_step:
  assumes "reload_ok n el maxLoc" "reload_epoch el maxLoc epoch = (el', maxLoc')"
  shows "reload_ok n el' maxLoc'"
proof -
  have "maxLoc \<le> maxLoc + pb_LocationIncrease epoch"
    if "unat maxLoc + unat (pb_LocationIncrease epoch) < 2 ^ 64"
    using that by (simp add: word_le_nat_alt unat_plus_no_carry)
  then have "\<forall>e \<in> set (epochs el). maximumLocation e \<le> maxLoc + pb_LocationIncrease epoch"
    if "unat maxLoc + unat (pb_LocationIncrease epoch) < 2 ^ 64"
    using that assms(1) unfolding reload_ok_def by (meson order_trans)
  then show ?thesis using assms
    by (auto simp: reload_ok_def reload_epoch_def Let_def bits_Add64_def counts_ok_def p_reinitialize_def sorted_append
        split: if_splits)
qed

lemma reload_ok_all:
  "reload_ok n el maxLoc \<Longrightarrow> \<exists>maxLoc'. reload_ok n (reload_epochs el maxLoc eps) maxLoc'"
  by (induction el maxLoc eps rule: reload_epochs.induct) (auto split: prod.split dest: reload_ok_step)

theorem NewPersistentEpochList_inv: "el_inv (NewPersistentEpochList span g minID minLoc eps)"
proof -
  define el where "el = \<lparr>maximumLocationSpan = span, randomNumberGenerator = g, closedForWriting = False,
        minimumEpochID = minID, minimumLocation = minLoc, epochs = [],
        synchronizingEpochs = 0, synchronizedEpochs = 0,
        locationsChangedWakeup = newNotificationChannel []\<rparr>"
  have "reload_ok (newNotificationChannel []) el minLoc" by (simp add: el_def counts_ok_def reload_ok_def)
  then obtain maxLoc where "reload_ok (newNotificationChannel []) (reload_epochs el minLoc eps) maxLoc"
    using reload_ok_all by blast
  then show ?thesis using nc_inv_new [of "[]"]
    by (simp add: el_inv_def NewPersistentEpochList_def counts_prune maxima_prune reload_ok_def flip: el_def)
qed

lemma lastMaximumLocation_ge:
  assumes "maxima_ok el"
  shows "minimumLocation el \<le> lastMaximumLocation el"
    and "e \<in> set (epochs el) \<Longrightarrow> maximumLocation e \<le> lastMaximumLocation el"
proof -
  show "minimumLocation el \<le> lastMaximumLocation el"
    using assms by (simp add: maxima_ok_def lastMaximumLocation_def)
  assume e: "e \<in> set (epochs el)"
  then obtain xs x where "epochs el = xs @ [x]" by (cases "epochs el" rule: rev_cases) auto
  then show "maximumLocation e \<le> lastMaximumLocation el"
    using assms e by (auto simp: maxima_ok_def lastMaximumLocation_def sorted_append)
qed

lemma append_epoch_simps [simp]:
  "minimumLocation (append_epoch rng l el) = minimumLocation el"
  "minimumEpochID (append_epoch rng l el) = minimumEpochID el"
  "maximumLocationSpan (append_epoch rng l el) = maximumLocationSpan el"
  "synchronizingEpochs (append_epoch rng l el) = synchronizingEpochs el"
  "synchronizedEpochs (append_epoch rng l el) = synchronizedEpochs el"
  "closedForWriting (append_epoch rng l el) = closedForWriting el"
  "locationsChangedWakeup (append_epoch rng l el) = locationsChangedWakeup el"
  "epochs (append_epoch rng l el) = epochs el @ [\<lparr>hashSeed = fst (rng_Uint64 rng (randomNumberGenerator el)), maximumLocation = l\<rparr>]"
  by (simp_all add: append_epoch_def split: prod.splits)

text \<open>
  Covering a location: the last epoch ends there, the other epochs and the minimum are unchanged.
\<close>

lemma cover_location_ok:
  assumes "counts_ok el" "sorted (map maximumLocation (epochs el))"
    and "\<And>e. e \<in> set (epochs el) \<Longrightarrow> maximumLocation e \<le> location"
  obtains el' where "cover_location rng location el = Inr el'" "counts_ok el'"
    "sorted (map maximumLocation (epochs el'))"
    "length (epochs el') = synchronizingEpochs el' + 1" "maximumLocation (last (epochs el')) = location"
    "minimumLocation el' = minimumLocation el" "maximumLocationSpan el' = maximumLocationSpan el"
    "closedForWriting el' = closedForWriting el"
    "locationsChangedWakeup el' = locationsChangedWakeup el" "minimumEpochID el' = minimumEpochID el"
    "take (synchronizingEpochs el) (epochs el') = take (synchronizingEpochs el) (epochs el)"
    "synchronizingEpochs el' = synchronizingEpochs el" "synchronizedEpochs el' = synchronizedEpochs el"
proof (cases "length (epochs el) = synchronizingEpochs el")
  case True
  then show ?thesis
    using assms that [of "append_epoch rng location el"]
    by (simp add: cover_location_def counts_ok_def sorted_append)
next
  case False
  then have len: "length (epochs el) = Suc (synchronizingEpochs el)" using assms(1) by (auto simp: counts_ok_def)
  then obtain xs x where x: "epochs el = xs @ [x]" by (cases "epochs el" rule: rev_cases) auto
  let ?el = "el\<lparr>epochs := xs @ [x\<lparr>maximumLocation := location\<rparr>]\<rparr>"
  have "cover_location rng location el = Inr ?el" using False x by (simp add: cover_location_def)
  then show ?thesis using that [of ?el] assms len x by (simp add: counts_ok_def sorted_append)
qed

lemma progress_minimum_simps [simp]:
  "epochs (progress_minimum l el) = epochs el"
  "synchronizingEpochs (progress_minimum l el) = synchronizingEpochs el"
  "synchronizedEpochs (progress_minimum l el) = synchronizedEpochs el"
  "locationsChangedWakeup (progress_minimum l el) = locationsChangedWakeup el"
  "maximumLocationSpan (progress_minimum l el) = maximumLocationSpan el"
  "closedForWriting (progress_minimum l el) = closedForWriting el"
  "minimumEpochID (progress_minimum l el) = minimumEpochID el"
  "counts_ok (progress_minimum l el) = counts_ok el"
  by (simp_all add: progress_minimum_def counts_ok_def)

lemma progress_minimum_location:
  assumes "minimumLocation el \<le> location"
  shows "minimumLocation el \<le> minimumLocation (progress_minimum location el)"
    and "location - minimumLocation (progress_minimum location el) \<le> maximumLocationSpan el"
    and "minimumLocation (progress_minimum location el) \<le> location"
    and "minimumLocation el < location \<Longrightarrow> maximumLocationSpan el \<noteq> 0 \<Longrightarrow>
      minimumLocation (progress_minimum location el) < location"
proof -
  have sub: "unat (x - y) = unat x - unat y" if "y \<le> x" for x y :: uint64
    using that by (simp add: unat_sub word_le_nat_alt)
  have sp: "maximumLocationSpan el \<le> location" if "maximumLocationSpan el < location - minimumLocation el"
    using that assms sub by (simp add: word_less_nat_alt word_le_nat_alt)
  show "minimumLocation el \<le> minimumLocation (progress_minimum location el)"
    "location - minimumLocation (progress_minimum location el) \<le> maximumLocationSpan el"
    "minimumLocation (progress_minimum location el) \<le> location"
    "minimumLocation el < location \<Longrightarrow> maximumLocationSpan el \<noteq> 0 \<Longrightarrow>
      minimumLocation (progress_minimum location el) < location"
    using sp assms sub [of "minimumLocation el" location] sub [of "maximumLocationSpan el" location]
      word_neq_0_conv [of "maximumLocationSpan el"]
    by (auto simp: progress_minimum_def word_le_nat_alt word_less_nat_alt)
qed

lemma el_inv_prune:
  "counts_ok el \<Longrightarrow> sorted (map maximumLocation (epochs el)) \<Longrightarrow> nc_inv (locationsChangedWakeup el) \<Longrightarrow>
   el_inv (pruneStaleEpochs el)"
  by (simp add: el_inv_def counts_prune maxima_prune)

text \<open>
  The main step: a write that progresses the maximum location. Unless the location is zero, the current
  epoch exists afterwards and ends at the location; the distance to the minimum is at most the span.
\<close>

lemma finalize_progress:
  assumes inv: "counts_ok el" "maxima_ok el" "nc_inv (locationsChangedWakeup el)"
    and le: "\<And>e. e \<in> set (epochs el) \<Longrightarrow> maximumLocation e \<le> location" "minimumLocation el \<le> location"
  obtains el' where
    "bindE (cover_location rng location el) (\<lambda>el. wakeup_unblock (pruneStaleEpochs (progress_minimum location el)))
       = Inr el'" "el_inv el'" "closedForWriting el' = closedForWriting el"
    "maximumLocationSpan el' = maximumLocationSpan el"
    "minimumLocation el \<le> minimumLocation el'" "minimumLocation el' \<le> location"
    "location - minimumLocation el' \<le> maximumLocationSpan el"
    "\<not> isBlocking (fst (locationsChangedWakeup el'))" "GetLocationsChangedWakeup el' = GetLocationsChangedWakeup el"
    "minimumLocation el' = (if maximumLocationSpan el < location - minimumLocation el
       then location - maximumLocationSpan el else minimumLocation el)"
    "minimumLocation el < location \<Longrightarrow> maximumLocationSpan el \<noteq> 0 \<Longrightarrow>
      length (epochs el') = synchronizingEpochs el' + 1 \<and> maximumLocation (last (epochs el')) = location"
proof -
  obtain el1 where c: "cover_location rng location el = Inr el1" "counts_ok el1"
    "sorted (map maximumLocation (epochs el1))"
    "length (epochs el1) = synchronizingEpochs el1 + 1" "maximumLocation (last (epochs el1)) = location"
    "minimumLocation el1 = minimumLocation el" "maximumLocationSpan el1 = maximumLocationSpan el"
    "closedForWriting el1 = closedForWriting el"
    "locationsChangedWakeup el1 = locationsChangedWakeup el"
    by (rule cover_location_ok [of el location rng]) (use inv le(1) in \<open>auto simp: maxima_ok_def\<close>)
  define el2 where "el2 = pruneStaleEpochs (progress_minimum location el1)"
  have i2: "el_inv el2" unfolding el2_def using c inv by (intro el_inv_prune) simp_all
  then obtain n where n: "wakeup_unblock el2 = Inr (el2\<lparr>locationsChangedWakeup := n\<rparr>)" "nc_inv n" "\<not> isBlocking (fst n)"
    "channel (fst n) = GetLocationsChangedWakeup el2"
    using wakeup_unblock_ok unfolding el_inv_def by blast
  note pm = progress_minimum_location [of el1 location, unfolded c(6,7), OF le(2)]
  have cur: "length (epochs el2) = synchronizingEpochs el2 + 1 \<and> last (epochs el2) = last (epochs el1)"
    if "minimumLocation el < location" "maximumLocationSpan el \<noteq> 0"
    using prune_current [of "progress_minimum location el1"] c(4,5) pm(4) [OF that] by (simp add: el2_def)
  show ?thesis
    by (rule that [of "el2\<lparr>locationsChangedWakeup := n\<rparr>"])
      (use c n i2 pm cur in \<open>simp_all add: el_inv_def flip: el2_def\<close>, simp_all add: el2_def c progress_minimum_def GetLocationsChangedWakeup_def)
qed

lemma el_inv_reinitialize:
  "el_inv el \<Longrightarrow> el_inv (p_reinitialize el)"
  by (simp add: el_inv_def counts_ok_def maxima_ok_def p_reinitialize_def)

lemma reinitialize_simps [simp]:
  "minimumLocation (p_reinitialize el) = 0"
  "epochs (p_reinitialize el) = []"
  "maximumLocationSpan (p_reinitialize el) = maximumLocationSpan el"
  "closedForWriting (p_reinitialize el) = closedForWriting el"
  "locationsChangedWakeup (p_reinitialize el) = locationsChangedWakeup el"
  by (simp_all add: p_reinitialize_def)

text \<open>
  What \<open>FinalizeWriteUpToLocation\<close> does: it refuses if the list is closed, and otherwise succeeds.
\<close>

definition makes_progress :: "'g PersistentEpochList \<Rightarrow> uint64 \<Rightarrow> bool" where
  "makes_progress el location \<longleftrightarrow> 0 < sint (location - lastMaximumLocation el)"

lemma p_Finalize_closed:
  "closedForWriting el \<Longrightarrow> p_FinalizeWriteUpToLocation rng el location = (Some (Status Unavailable), el)"
  by (simp add: p_FinalizeWriteUpToLocation_def)

lemma p_Finalize_progress:
  assumes inv: "el_inv el" and open_list: "\<not> closedForWriting el" and p: "makes_progress el location"
  obtains el' where "p_FinalizeWriteUpToLocation rng el location = (None, el')" "el_inv el'"
    "closedForWriting el' = closedForWriting el" "maximumLocationSpan el' = maximumLocationSpan el"
    "location - minimumLocation el' \<le> maximumLocationSpan el'" "minimumLocation el' \<le> location"
    "\<not> isBlocking (fst (locationsChangedWakeup el'))" "GetLocationsChangedWakeup el' = GetLocationsChangedWakeup el"
    "lastMaximumLocation el < location \<Longrightarrow> minimumLocation el' = (if maximumLocationSpan el < location - minimumLocation el
       then location - maximumLocationSpan el else minimumLocation el)"
    "location \<noteq> 0 \<Longrightarrow> maximumLocationSpan el \<noteq> 0 \<Longrightarrow>
      length (epochs el') = synchronizingEpochs el' + 1 \<and> maximumLocation (last (epochs el')) = location"
proof -
  define el1 where "el1 = (if location < lastMaximumLocation el then p_reinitialize el else el)"
  have i1: "el_inv el1" using inv by (simp add: el1_def el_inv_reinitialize)
  have ne: "location \<noteq> lastMaximumLocation el" using p by (auto simp: makes_progress_def)
  have le: "maximumLocation e \<le> location" if "e \<in> set (epochs el1)" for e
    using that lastMaximumLocation_ge(2) [of el e] inv unfolding el1_def el_inv_def
    by (auto split: if_splits)
  have mn: "minimumLocation el1 \<le> location" "location \<noteq> 0 \<Longrightarrow> minimumLocation el1 < location"
  proof (atomize (full), cases "location < lastMaximumLocation el")
    case True
    then show "minimumLocation el1 \<le> location \<and> (location \<noteq> 0 \<longrightarrow> minimumLocation el1 < location)"
      by (simp add: el1_def word_neq_0_conv)
  next
    case False
    then have "lastMaximumLocation el < location" using ne by simp
    then have "minimumLocation el < location"
      using lastMaximumLocation_ge(1) [of el] inv unfolding el_inv_def by (meson le_less_trans)
    then show "minimumLocation el1 \<le> location \<and> (location \<noteq> 0 \<longrightarrow> minimumLocation el1 < location)"
      using False by (simp add: el1_def)
  qed
  obtain el' where e: "bindE (cover_location rng location el1)
      (\<lambda>el. wakeup_unblock (pruneStaleEpochs (progress_minimum location el))) = Inr el'" "el_inv el'"
    "closedForWriting el' = closedForWriting el1" "maximumLocationSpan el' = maximumLocationSpan el1"
    "minimumLocation el' \<le> location" "location - minimumLocation el' \<le> maximumLocationSpan el1"
    "\<not> isBlocking (fst (locationsChangedWakeup el'))" "GetLocationsChangedWakeup el' = GetLocationsChangedWakeup el1"
    "minimumLocation el' = (if maximumLocationSpan el1 < location - minimumLocation el1
       then location - maximumLocationSpan el1 else minimumLocation el1)"
    "minimumLocation el1 < location \<Longrightarrow> maximumLocationSpan el1 \<noteq> 0 \<Longrightarrow>
      length (epochs el') = synchronizingEpochs el' + 1 \<and> maximumLocation (last (epochs el')) = location"
    by (rule finalize_progress [of el1 location rng]) (use i1 le mn(1) in \<open>auto simp: el_inv_def\<close>)
  have s: "maximumLocationSpan el1 = maximumLocationSpan el" "closedForWriting el1 = closedForWriting el"
    "GetLocationsChangedWakeup el1 = GetLocationsChangedWakeup el"
    by (simp_all add: el1_def GetLocationsChangedWakeup_def)
  have fin: "p_FinalizeWriteUpToLocation rng el location = (None, el')"
    using open_list p e(1) by (simp add: p_FinalizeWriteUpToLocation_def makes_progress_def Let_def del: bindE_eq_Inr flip: el1_def)
  have eq: "lastMaximumLocation el < location \<Longrightarrow> el1 = el" by (auto simp: el1_def)
  show ?thesis by (rule that [OF fin]) (use e(2-) mn(2) s eq in simp_all)
qed

lemma p_Finalize_no_progress:
  assumes "el_inv el" "\<not> closedForWriting el" "\<not> makes_progress el location"
  obtains el' where "p_FinalizeWriteUpToLocation rng el location = (None, el')" "el_inv el'"
    "closedForWriting el' = closedForWriting el" "maximumLocationSpan el' = maximumLocationSpan el"
    "length (epochs el') = synchronizingEpochs el' + 1"
    "lastMaximumLocation el' = lastMaximumLocation el" "minimumLocation el' = minimumLocation el"
proof (cases "length (epochs el) = synchronizingEpochs el")
  case True
  have "el_inv (append_epoch rng (lastMaximumLocation el) el)"
    using assms(1) True lastMaximumLocation_ge [of el]
    by (auto simp: el_inv_def counts_ok_def maxima_ok_def sorted_append)
  then show ?thesis using assms True that [of "append_epoch rng (lastMaximumLocation el) el"]
    by (simp add: p_FinalizeWriteUpToLocation_def makes_progress_def lastMaximumLocation_def)
next
  case False
  then have "length (epochs el) = synchronizingEpochs el + 1" using assms(1) by (auto simp: el_inv_def counts_ok_def)
  then show ?thesis using assms False that [of el]
    by (simp add: p_FinalizeWriteUpToLocation_def makes_progress_def)
qed

lemma p_Finalize_cases:
  assumes "el_inv el"
  shows "closedForWriting el \<and> p_FinalizeWriteUpToLocation rng el location = (Some (Status Unavailable), el)
    \<or> \<not> closedForWriting el \<and> (\<exists>el'. p_FinalizeWriteUpToLocation rng el location = (None, el') \<and> el_inv el'
        \<and> closedForWriting el' = closedForWriting el \<and> maximumLocationSpan el' = maximumLocationSpan el)"
proof (cases "closedForWriting el")
  case True
  then show ?thesis by (simp add: p_Finalize_closed)
next
  case False
  then show ?thesis
    using p_Finalize_progress [OF assms, of location rng] p_Finalize_no_progress [OF assms, of location rng]
    by metis
qed

lemma lastMaximumLocation_prune:
  assumes "sorted (map maximumLocation (epochs el))"
  shows "lastMaximumLocation (pruneStaleEpochs el) =
    (if epochs el \<noteq> [] then max (maximumLocation (last (epochs el))) (minimumLocation el) else minimumLocation el)"
proof (cases "epochs el" rule: rev_cases)
  case Nil
  then show ?thesis by (simp add: lastMaximumLocation_def epochs_prune)
next
  case (snoc xs x)
  have "dropWhile (\<lambda>e. maximumLocation e \<le> minimumLocation el) (xs @ [x]) = []"
    if "maximumLocation x \<le> minimumLocation el"
    using assms that snoc by (auto simp: dropWhile_eq_Nil_conv sorted_append dest: order_trans)
  moreover have "last (dropWhile (\<lambda>e. maximumLocation e \<le> minimumLocation el) (xs @ [x])) = x
      \<and> dropWhile (\<lambda>e. maximumLocation e \<le> minimumLocation el) (xs @ [x]) \<noteq> []"
    if "\<not> maximumLocation x \<le> minimumLocation el"
    using that by (induction xs) auto
  ultimately show ?thesis using snoc
    by (auto simp: lastMaximumLocation_def epochs_prune max_def)
qed

lemma p_Discard_inv:
  assumes "el_inv el"
  obtains el' where "p_DiscardUpToLocation el location = Inr el'" "el_inv el'"
    "closedForWriting el' = closedForWriting el" "maximumLocationSpan el' = maximumLocationSpan el"
    "minimumLocation el' = max (minimumLocation el) location"
    "lastMaximumLocation el' = max (lastMaximumLocation el) location"
proof (cases "minimumLocation el < location")
  case True
  define el1 where "el1 = pruneStaleEpochs (el\<lparr>minimumLocation := location\<rparr>)"
  have i1: "el_inv el1" unfolding el1_def
    using assms by (intro el_inv_prune) (auto simp: el_inv_def counts_ok_def maxima_ok_def)
  then obtain n where n: "wakeup_unblock el1 = Inr (el1\<lparr>locationsChangedWakeup := n\<rparr>)" "nc_inv n"
    using wakeup_unblock_ok unfolding el_inv_def by blast
  have "el_inv (el1\<lparr>locationsChangedWakeup := n\<rparr>)" using i1 n(2) by (simp add: el_inv_def)
  moreover have "p_DiscardUpToLocation el location = Inr (el1\<lparr>locationsChangedWakeup := n\<rparr>)"
    using n(1) True by (simp add: p_DiscardUpToLocation_def flip: el1_def)
  moreover have "lastMaximumLocation (el1\<lparr>locationsChangedWakeup := n\<rparr>) = max (lastMaximumLocation el) location"
    using lastMaximumLocation_prune [of "el\<lparr>minimumLocation := location\<rparr>"] assms True
    by (auto simp: el1_def lastMaximumLocation_def el_inv_def maxima_ok_def max_def split: if_splits)
  ultimately show ?thesis using that [of "el1\<lparr>locationsChangedWakeup := n\<rparr>"] True
    by (simp add: el1_def max_def less_imp_le)
next
  case False
  then have "max (lastMaximumLocation el) location = lastMaximumLocation el"
    using lastMaximumLocation_ge(1) [of el] assms by (auto simp: el_inv_def max_def)
  then show ?thesis using that assms False by (auto simp: p_DiscardUpToLocation_def max_def)
qed

lemma NotifySyncStarting_inv: "el_inv el \<Longrightarrow> el_inv (NotifySyncStarting el final)"
  by (auto simp: el_inv_def counts_ok_def maxima_ok_def NotifySyncStarting_def Let_def)

lemma NotifySyncCompleted_inv: "el_inv el \<Longrightarrow> el_inv (NotifySyncCompleted el)"
  using nc_inv_block by (auto simp: el_inv_def counts_ok_def maxima_ok_def NotifySyncCompleted_def Let_def)

lemma current_resolves:
  assumes "p_GetCurrentEpochState el = Inr (st, epochID)" "length (epochs el) < 2 ^ 32"
  shows "p_GetEpochStateForEpochID el epochID = Some st"
proof -
  have len: "length (epochs el) = synchronizingEpochs el + 1"
    and st: "st = epoch_state el (epochs el ! synchronizingEpochs el)"
    and i: "epochID = minimumEpochID el + of_nat (synchronizingEpochs el)"
    using assms(1) by (auto simp: p_GetCurrentEpochState_def split: if_splits)
  have u: "unat (of_nat n :: uint32) = n" if "n \<le> length (epochs el)" for n
    using that assms(2) by (simp add: unat_of_nat take_bit_nat_eq_self)
  have "\<not> (of_nat (length (epochs el)) :: uint32) \<le> of_nat (synchronizingEpochs el)"
    using u len by (simp add: word_le_nat_alt del: of_nat_add of_nat_Suc)
  then show ?thesis using u [of "synchronizingEpochs el"] len st i
    by (simp add: p_GetEpochStateForEpochID_def Let_def)
qed

section \<open>Identifiers of epochs\<close>

lemma unat_of_nat32: "n < 2 ^ 32 \<Longrightarrow> unat (of_nat n :: uint32) = n"
  by (simp add: unat_of_nat take_bit_nat_eq_self)

lemma resolve_eq:
  assumes "length (epochs el) < 2 ^ 32"
  shows "p_GetEpochStateForEpochID el epochID =
    (if unat (epochID - minimumEpochID el) < length (epochs el)
     then Some (epoch_state el (epochs el ! unat (epochID - minimumEpochID el))) else None)"
  using unat_of_nat32 [OF assms] by (auto simp: p_GetEpochStateForEpochID_def Let_def word_le_nat_alt)

lemma unat_minus_of_nat32:
  assumes "n < 2 ^ 32"
  shows "unat (x - of_nat n :: uint32) = (if n \<le> unat x then unat x - n else unat x + 2 ^ 32 - n)"
  using unat_sub_if' [of x "of_nat n"] unat_of_nat32 [OF assms] by simp

lemma takeWhile_length_nth:
  assumes "sorted (map f xs)" "k < length xs"
  shows "k < length (takeWhile (\<lambda>x. f x \<le> (m :: 'a::linorder)) xs) \<longleftrightarrow> f (xs ! k) \<le> m"
  using assms
proof (induction xs arbitrary: k)
  case (Cons x xs)
  then show ?case by (cases k) (auto dest: order_trans)
qed simp

text \<open>Pruning drops the epochs that only cover stale locations and keeps the identifiers of the others.\<close>

lemma resolve_prune:
  assumes "sorted (map maximumLocation (epochs el))" and len: "length (epochs el) < 2 ^ 32"
  shows "p_GetEpochStateForEpochID (pruneStaleEpochs el) epochID =
    (case p_GetEpochStateForEpochID el epochID of None \<Rightarrow> None
     | Some st \<Rightarrow> if MinimumLocation st < MaximumLocation st then Some st else None)"
proof -
  define n where "n = length (takeWhile (\<lambda>e. maximumLocation e \<le> minimumLocation el) (epochs el))"
  define k where "k = unat (epochID - minimumEpochID el)"
  have n: "n \<le> length (epochs el)" by (simp add: n_def length_takeWhile_le)
  have p: "epochs (pruneStaleEpochs el) = drop n (epochs el)"
    "minimumEpochID (pruneStaleEpochs el) = minimumEpochID el + of_nat n"
    by (simp_all add: pruneStaleEpochs_def Let_def n_def)
  have k': "unat (epochID - minimumEpochID (pruneStaleEpochs el)) = (if n \<le> k then k - n else k + 2 ^ 32 - n)"
    using unat_minus_of_nat32 [of n "epochID - minimumEpochID el"] n len
    by (simp add: p k_def diff_diff_eq)
  have "k < n \<longleftrightarrow> maximumLocation (epochs el ! k) \<le> minimumLocation el" if "k < length (epochs el)"
    unfolding n_def using takeWhile_length_nth [OF assms(1) that] .
  then show ?thesis
    using n len k' resolve_eq [of el epochID] resolve_eq [of "pruneStaleEpochs el" epochID]
    by (auto simp: p epoch_state_def not_le simp flip: k_def)
qed

section \<open>Persisting and reloading\<close>

lemma reload_increases:
  "sorted (map maximumLocation es) \<Longrightarrow> \<forall>e \<in> set es. previous \<le> maximumLocation e \<Longrightarrow>
   reload_epochs el previous (location_increases previous es) =
     el\<lparr>epochs := epochs el @ es, synchronizingEpochs := synchronizingEpochs el + length es,
        synchronizedEpochs := synchronizedEpochs el + length es\<rparr>"
proof (induction es arbitrary: el previous)
  case (Cons e es)
  have "unat previous + unat (maximumLocation e - previous) = unat (maximumLocation e)"
    using Cons.prems(2) by (simp add: unat_sub word_le_nat_alt)
  then have "unat previous + unat (maximumLocation e - previous) < 18446744073709551616"
    using unat_bounds(4) by metis
  then have "reload_epoch el previous \<lparr>pb_HashSeed = hashSeed e, pb_LocationIncrease = maximumLocation e - previous\<rparr>
    = (el\<lparr>epochs := epochs el @ [e], synchronizingEpochs := synchronizingEpochs el + 1,
          synchronizedEpochs := synchronizedEpochs el + 1\<rparr>, maximumLocation e)"
    by (simp add: reload_epoch_def bits_Add64_def)
  then show ?case using Cons by simp
qed simp

text \<open>
  C15. Reloading a persistent state restores exactly the epochs that had been synchronized and whose
  locations were not all overwritten or discarded: they have the same identifier, hash seed and range of
  locations as before. Every other epoch identifier is unknown to the reloaded list, so entries that
  were written after the last synchronization are not trusted.
\<close>

theorem persistent_state_roundtrip:
  assumes "el_inv el" "length (epochs el) < 2 ^ 32"
    and "GetPersistentState el = (minEpochID, minLocation, eps)"
  shows "p_GetEpochStateForEpochID (NewPersistentEpochList span g minEpochID minLocation eps) epochID =
    (case p_GetEpochStateForEpochID el epochID of None \<Rightarrow> None
     | Some st \<Rightarrow> if unat (epochID - minimumEpochID el) < synchronizedEpochs el
         \<and> MinimumLocation st < MaximumLocation st then Some st else None)"
proof -
  define es where "es = take (synchronizedEpochs el) (epochs el)"
  define el0 where "el0 = \<lparr>maximumLocationSpan = span, randomNumberGenerator = g, closedForWriting = False,
    minimumEpochID = minEpochID, minimumLocation = minLocation, epochs = es,
    synchronizingEpochs = length es, synchronizedEpochs = length es,
    locationsChangedWakeup = newNotificationChannel []\<rparr>"
  have eqs: "minEpochID = minimumEpochID el" "minLocation = minimumLocation el"
    "eps = location_increases (minimumLocation el) es"
    using assms(3) by (auto simp: GetPersistentState_def es_def)
  have es: "sorted (map maximumLocation es)" "\<forall>e \<in> set es. minimumLocation el \<le> maximumLocation e"
    using assms(1) by (auto simp: el_inv_def maxima_ok_def es_def take_map [symmetric] sorted_wrt_take dest: in_set_takeD)
  have "NewPersistentEpochList span g minEpochID minLocation eps = pruneStaleEpochs el0"
    by (simp add: NewPersistentEpochList_def el0_def eqs reload_increases [OF es])
  moreover have "length es < 2 ^ 32" "length es = synchronizedEpochs el"
    using assms(1,2) by (auto simp: es_def el_inv_def counts_ok_def)
  moreover have "p_GetEpochStateForEpochID el0 epochID =
    (if unat (epochID - minimumEpochID el) < synchronizedEpochs el
     then Some (epoch_state el (epochs el ! unat (epochID - minimumEpochID el))) else None)"
    using calculation(2,3) by (subst resolve_eq) (auto simp: el0_def eqs epoch_state_def es_def)
  moreover have "synchronizedEpochs el \<le> length (epochs el)"
    using assms(1) by (auto simp: el_inv_def counts_ok_def)
  ultimately show ?thesis
    using resolve_prune [of el0 epochID] es(1) resolve_eq [OF assms(2), of epochID] by (auto simp: el0_def)
qed

section \<open>What the store relies on\<close>

text \<open>
  The contract of \<open>EpochList\<close>: all epochs share the lower bound \<open>low\<close> of the locations that are
  still valid, none reaches beyond \<open>high\<close>; finalizing a write moves \<open>high\<close> to its end and
  keeps the window within the span; discarding moves \<open>low\<close>; the identifier of the current epoch
  resolves to its state.
\<close>

locale epoch_list =
  fixes E :: "'e EpochList"
    and inv :: "'e \<Rightarrow> bool"
    and roomy :: "'e \<Rightarrow> bool"
    and span :: "'e \<Rightarrow> uint64"
    and low :: "'e \<Rightarrow> uint64"
    and high :: "'e \<Rightarrow> uint64"
  assumes low_high: "inv e \<Longrightarrow> low e \<le> high e"
    and resolve_bounds: "inv e \<Longrightarrow> GetEpochStateForEpochID E e i = Some st \<Longrightarrow>
      MinimumLocation st = low e \<and> MaximumLocation st \<le> high e"
    and current_resolves: "inv e \<Longrightarrow> roomy e \<Longrightarrow> GetCurrentEpochState E e = Inr (st, i) \<Longrightarrow>
      GetEpochStateForEpochID E e i = Some st"
    and finalize_error: "inv e \<Longrightarrow> FinalizeWriteUpToLocation E e l = (Some err, e') \<Longrightarrow> e' = e \<and> err \<noteq> Panic"
    and finalize_inv: "inv e \<Longrightarrow> FinalizeWriteUpToLocation E e l = (None, e') \<Longrightarrow> inv e' \<and> span e' = span e"
    and finalize_progress: "inv e \<Longrightarrow> FinalizeWriteUpToLocation E e l = (None, e') \<Longrightarrow>
      high e < l \<Longrightarrow> unat (l - high e) < 2 ^ 63 \<Longrightarrow> span e \<noteq> 0 \<Longrightarrow>
      high e' = l \<and> low e' = (if span e < l - low e then l - span e else low e)
      \<and> (\<exists>st i. GetCurrentEpochState E e' = Inr (st, i) \<and> MaximumLocation st = l)"
    and discard_ok: "inv e \<Longrightarrow> \<exists>e'. DiscardUpToLocation E e l = Inr e' \<and> inv e' \<and> span e' = span e
      \<and> low e' = max (low e) l \<and> high e' = max (high e) l"
begin

text \<open>Every valid object lies within the window of valid locations.\<close>

lemma valid_window:
  assumes "inv e" "GetEpochStateForEpochID E e i = Some st" "IsValidLocation st l n" "n < 2 ^ 64"
  shows "low e \<le> l" "unat l + n \<le> unat (high e)"
proof -
  have b: "MinimumLocation st = low e" "MaximumLocation st \<le> high e"
    using resolve_bounds assms(1,2) by auto
  then show "low e \<le> l" using assms(3) by (simp add: IsValidLocation_def)
  have "l \<le> MaximumLocation st" "of_nat n \<le> MaximumLocation st - l"
    using assms(3) by (simp_all add: IsValidLocation_def less_imp_le)
  then have "n \<le> unat (MaximumLocation st) - unat l"
    using assms(4) by (simp add: word_le_nat_alt unat_sub unat_of_nat take_bit_nat_eq_self)
  then show "unat l + n \<le> unat (high e)"
    using b(2) \<open>l \<le> MaximumLocation st\<close> by (simp add: word_le_nat_alt)
qed

text \<open>An object that has just been written is valid in the current epoch.\<close>

lemma finalized_is_valid:
  assumes "inv e" "FinalizeWriteUpToLocation E e (l + of_nat n) = (None, e')" "roomy e'"
    and "high e \<le> l" "0 < n" "n \<le> unat (span e)" "unat l + n < 2 ^ 64" "unat (l + of_nat n - high e) < 2 ^ 63"
  shows "\<exists>st i. GetCurrentEpochState E e' = Inr (st, i) \<and> IsValidLocation st l n \<and> MaximumLocation st = l + of_nat n"
proof -
  have n: "unat (of_nat n :: uint64) = n" using assms(6) unat_bounds(4) [of "span e"]
    by (simp add: unat_of_nat take_bit_nat_eq_self)
  then have ln: "unat (l + of_nat n) = unat l + n" using assms(7) by (simp add: unat_plus_no_carry)
  then have hl: "high e < l + of_nat n" using assms(4,5) by (simp add: word_less_nat_alt word_le_nat_alt)
  have sp: "span e \<noteq> 0" using assms(5,6) by auto
  obtain st i where st: "GetCurrentEpochState E e' = Inr (st, i)" "MaximumLocation st = l + of_nat n"
    and low': "low e' = (if span e < l + of_nat n - low e then l + of_nat n - span e else low e)"
    using finalize_progress [OF assms(1,2) hl assms(8) sp] by auto
  have "MinimumLocation st = low e'"
    using resolve_bounds [of e' i st] current_resolves [of e' st i] finalize_inv [OF assms(1,2)] assms(3) st(1) by simp
  moreover have "low e' \<le> l"
  proof (cases "span e < l + of_nat n - low e")
    case True
    have "low e \<le> l + of_nat n" using low_high [OF assms(1)] hl by (meson less_imp_le order_trans)
    then have "unat (span e) < unat l + n" using True ln by (simp add: word_less_nat_alt unat_sub)
    then have "unat (l + of_nat n - span e) = unat l + n - unat (span e)"
      using ln by (simp add: unat_sub word_le_nat_alt)
    then show ?thesis using True assms(6) low' by (simp add: word_le_nat_alt)
  next
    case False
    then have "low e' = low e" using low' by simp
    then show ?thesis using low_high [OF assms(1)] assms(4) by simp
  qed
  moreover have "l < l + of_nat n" using ln assms(5) by (simp add: word_less_nat_alt)
  ultimately show ?thesis using st by (auto simp: IsValidLocation_def)
qed

end

lemma p_resolve_cases:
  assumes "p_GetEpochStateForEpochID el i = Some st"
  obtains e where "e \<in> set (epochs el)" "st = epoch_state el e"
proof -
  have "i - minimumEpochID el < of_nat (length (epochs el))" and st: "st = epoch_state el (epochs el ! unat (i - minimumEpochID el))"
    using assms by (auto simp: p_GetEpochStateForEpochID_def Let_def split: if_splits)
  then have "unat (i - minimumEpochID el) < length (epochs el)"
    by (metis le_less_trans not_le unat_of_nat mod_less_eq_dividend word_less_nat_alt)
  then show ?thesis using that [OF nth_mem st] by blast
qed

lemma lastMaximumLocation_last:
  "length (epochs el) = n + 1 \<Longrightarrow> lastMaximumLocation el = maximumLocation (last (epochs el))"
  by (auto simp: lastMaximumLocation_def)

lemma p_current_last:
  "length (epochs el) = synchronizingEpochs el + 1 \<Longrightarrow>
   p_GetCurrentEpochState el = Inr (epoch_state el (last (epochs el)), minimumEpochID el + of_nat (synchronizingEpochs el))"
  by (cases "epochs el" rule: rev_cases) (auto simp: p_GetCurrentEpochState_def nth_append)

subsection \<open>The volatile list\<close>

definition v_inv :: "'g volatileEpochList \<Rightarrow> bool" where
  "v_inv el \<longleftrightarrow> MinimumLocation (v_epochState el) \<le> MaximumLocation (v_epochState el)"

lemma v_reinitialize_simps [simp]:
  "MinimumLocation (v_epochState (v_reinitialize rng el)) = 0"
  "MaximumLocation (v_epochState (v_reinitialize rng el)) = 0"
  "v_maximumLocationSpan (v_reinitialize rng el) = v_maximumLocationSpan el"
  by (simp_all add: v_reinitialize_def split: prod.split)

lemma v_New_inv: "v_inv (NewVolatileEpochList rng span g)"
  by (simp add: v_inv_def NewVolatileEpochList_def)

lemma minus_span_le: "(s :: uint64) < l - m \<Longrightarrow> m \<le> l \<Longrightarrow> l - s \<le> l"
  by (simp add: word_less_nat_alt word_le_nat_alt unat_sub)

lemma v_Finalize_inv:
  assumes "v_inv el" "v_FinalizeWriteUpToLocation rng el l = (err, el')"
  shows "err = None" "v_inv el'" "v_maximumLocationSpan el' = v_maximumLocationSpan el"
proof -
  have "MinimumLocation (v_epochState el) \<le> l" if "\<not> l < MaximumLocation (v_epochState el)"
    using assms(1) that unfolding v_inv_def by (meson not_less order_trans)
  then show "err = None" "v_inv el'" "v_maximumLocationSpan el' = v_maximumLocationSpan el"
    using assms minus_span_le [of "v_maximumLocationSpan el" l 0]
    by (auto simp: v_FinalizeWriteUpToLocation_def v_inv_def Let_def minus_span_le split: if_splits)
qed

interpretation vel: epoch_list "volatileEpochList rng" v_inv "\<lambda>_. True" v_maximumLocationSpan
    "\<lambda>el. MinimumLocation (v_epochState el)" "\<lambda>el. MaximumLocation (v_epochState el)"
  for rng :: "'g SingleThreadedGenerator"
proof
  fix e e' :: "'g volatileEpochList" and l
  assume i: "v_inv e" and f: "FinalizeWriteUpToLocation (volatileEpochList rng) e l = (None, e')"
    and l: "MaximumLocation (v_epochState e) < l" "unat (l - MaximumLocation (v_epochState e)) < 2 ^ 63"
  have "0 < sint (l - MaximumLocation (v_epochState e))" "\<not> l < MaximumLocation (v_epochState e)"
    using l by (auto simp: sint_minus_pos)
  then show "MaximumLocation (v_epochState e') = l \<and>
      MinimumLocation (v_epochState e') = (if v_maximumLocationSpan e < l - MinimumLocation (v_epochState e)
        then l - v_maximumLocationSpan e else MinimumLocation (v_epochState e)) \<and>
      (\<exists>st i. GetCurrentEpochState (volatileEpochList rng) e' = Inr (st, i) \<and> MaximumLocation st = l)"
    using f by (auto simp: volatileEpochList_def v_FinalizeWriteUpToLocation_def v_GetCurrentEpochState_def Let_def)
next
  fix e :: "'g volatileEpochList" and l
  assume i: "v_inv e"
  have "MaximumLocation (v_epochState e) \<le> l \<Longrightarrow> MinimumLocation (v_epochState e) \<le> l"
    using i unfolding v_inv_def by (meson order_trans)
  then show "\<exists>e'. DiscardUpToLocation (volatileEpochList rng) e l = Inr e' \<and> v_inv e' \<and>
      v_maximumLocationSpan e' = v_maximumLocationSpan e \<and>
      MinimumLocation (v_epochState e') = max (MinimumLocation (v_epochState e)) l \<and>
      MaximumLocation (v_epochState e') = max (MaximumLocation (v_epochState e)) l"
    using i by (auto simp: volatileEpochList_def v_DiscardUpToLocation_def v_inv_def Let_def max_def)
qed (auto simp: volatileEpochList_def v_GetEpochStateForEpochID_def v_GetCurrentEpochState_def v_inv_def
    split: if_splits dest: v_Finalize_inv [unfolded v_inv_def])

subsection \<open>The persistent list\<close>

interpretation pel: epoch_list "persistentEpochList rng" el_inv "\<lambda>el. length (epochs el) < 2 ^ 32"
    maximumLocationSpan minimumLocation lastMaximumLocation
  for rng :: "'g SingleThreadedGenerator"
proof
  fix e :: "'g PersistentEpochList" and i st
  assume inv: "el_inv e" and "GetEpochStateForEpochID (persistentEpochList rng) e i = Some st"
  then obtain ea where "ea \<in> set (epochs e)" "st = epoch_state e ea"
    by (auto simp: persistentEpochList_def elim: p_resolve_cases)
  then show "MinimumLocation st = minimumLocation e \<and> MaximumLocation st \<le> lastMaximumLocation e"
    using lastMaximumLocation_ge(2) [of e ea] inv by (auto simp: el_inv_def epoch_state_def)
next
  fix e e' :: "'g PersistentEpochList" and l err
  assume i: "el_inv e" and f: "FinalizeWriteUpToLocation (persistentEpochList rng) e l = (Some err, e')"
  then show "e' = e \<and> err \<noteq> Panic"
    using p_Finalize_cases [OF i, of rng l] by (auto simp: persistentEpochList_def)
next
  fix e e' :: "'g PersistentEpochList" and l
  assume i: "el_inv e" and f: "FinalizeWriteUpToLocation (persistentEpochList rng) e l = (None, e')"
  then show "el_inv e' \<and> maximumLocationSpan e' = maximumLocationSpan e"
    using p_Finalize_cases [OF i, of rng l] by (auto simp: persistentEpochList_def)
next
  fix e e' :: "'g PersistentEpochList" and l
  assume i: "el_inv e" and f: "FinalizeWriteUpToLocation (persistentEpochList rng) e l = (None, e')"
    and l: "lastMaximumLocation e < l" "unat (l - lastMaximumLocation e) < 2 ^ 63" and sp: "maximumLocationSpan e \<noteq> 0"
  have p: "makes_progress e l" "l \<noteq> 0" using l by (auto simp: makes_progress_def sint_minus_pos)
  have o: "\<not> closedForWriting e" using f p_Finalize_closed [of e rng l] by (auto simp: persistentEpochList_def)
  have "minimumLocation e' = (if maximumLocationSpan e < l - minimumLocation e
      then l - maximumLocationSpan e else minimumLocation e)"
    and cur: "length (epochs e') = synchronizingEpochs e' + 1" "maximumLocation (last (epochs e')) = l"
    using p_Finalize_progress [OF i o p(1), of rng] l(1) p(2) sp f
    by (simp_all add: persistentEpochList_def) (metis prod.inject)+
  then show "lastMaximumLocation e' = l \<and>
      minimumLocation e' = (if maximumLocationSpan e < l - minimumLocation e then l - maximumLocationSpan e else minimumLocation e) \<and>
      (\<exists>st i. GetCurrentEpochState (persistentEpochList rng) e' = Inr (st, i) \<and> MaximumLocation st = l)"
    using p_current_last [OF cur(1)] lastMaximumLocation_last [OF cur(1)]
    by (simp add: persistentEpochList_def epoch_state_def)
next
  fix e :: "'g PersistentEpochList" and l
  assume i: "el_inv e"
  show "\<exists>e'. DiscardUpToLocation (persistentEpochList rng) e l = Inr e' \<and> el_inv e' \<and>
      maximumLocationSpan e' = maximumLocationSpan e \<and> minimumLocation e' = max (minimumLocation e) l \<and>
      lastMaximumLocation e' = max (lastMaximumLocation e) l"
    by (rule p_Discard_inv [OF i, of l]) (auto simp: persistentEpochList_def)
qed (auto simp: persistentEpochList_def el_inv_def current_resolves lastMaximumLocation_ge)

section \<open>Sequences of operations\<close>

datatype el_op =
    OpFinalize uint64
  | OpDiscard uint64
  | OpSyncStarting bool
  | OpSyncCompleted

inductive el_step ::
  "'g SingleThreadedGenerator \<Rightarrow> 'g PersistentEpochList \<Rightarrow> el_op \<Rightarrow> 'g PersistentEpochList \<Rightarrow> bool" for rng where
  step_finalize: "p_FinalizeWriteUpToLocation rng el l = (err, el') \<Longrightarrow> el_step rng el (OpFinalize l) el'"
| step_discard: "p_DiscardUpToLocation el l = Inr el' \<Longrightarrow> el_step rng el (OpDiscard l) el'"
| step_starting: "el_step rng el (OpSyncStarting final) (NotifySyncStarting el final)"
| step_completed: "el_step rng el OpSyncCompleted (NotifySyncCompleted el)"

inductive_cases el_stepE: "el_step rng el op el'"

inductive el_reachable :: "'g SingleThreadedGenerator \<Rightarrow> 'g PersistentEpochList \<Rightarrow> bool" for rng where
  reach_init: "el_reachable rng (NewPersistentEpochList span g minEpochID minLocation eps)"
| reach_step: "el_reachable rng el \<Longrightarrow> el_step rng el op el' \<Longrightarrow> el_reachable rng el'"

lemma el_step_inv: "el_step rng el op el' \<Longrightarrow> el_inv el \<Longrightarrow> el_inv el'"
proof (erule el_stepE, goal_cases)
  case (1 l err)
  then show ?case using p_Finalize_cases [of el rng l] by auto
next
  case (2 l)
  then show ?case using p_Discard_inv [of el l] by (metis sum.inject(2))
qed (auto intro: NotifySyncStarting_inv NotifySyncCompleted_inv)

lemma el_reachable_inv: "el_reachable rng el \<Longrightarrow> el_inv el"
  by (induction rule: el_reachable.induct) (auto intro: NewPersistentEpochList_inv el_step_inv)

text \<open>
  C16. Whatever sequence of writes, discards and synchronizations was applied to a reloaded list:
  finalizing a write either succeeds, and then \<open>GetCurrentEpochState\<close> does not panic, or is refused
  because the list was closed, leaving it unchanged; discarding never panics; no notification channel is
  closed twice and every channel but the current one has been closed.
\<close>

theorem epoch_list_never_panics:
  assumes "el_reachable rng el" "maximumLocationSpan el \<noteq> 0" "location \<noteq> 0"
  shows "(case p_FinalizeWriteUpToLocation rng el location of
      (Some err, el') \<Rightarrow> err = Status Unavailable \<and> closedForWriting el \<and> el' = el
    | (None, el') \<Rightarrow> \<not> closedForWriting el \<and> (\<exists>st epochID. p_GetCurrentEpochState el' = Inr (st, epochID)))
    \<and> (\<exists>el'. p_DiscardUpToLocation el location = Inr el')
    \<and> nc_inv (locationsChangedWakeup el)"
proof -
  have inv: "el_inv el" using assms(1) by (rule el_reachable_inv)
  then have d: "\<exists>el'. p_DiscardUpToLocation el location = Inr el'" using p_Discard_inv by metis
  show ?thesis
  proof (cases "closedForWriting el")
    case True
    then show ?thesis using inv d by (simp add: p_Finalize_closed el_inv_def)
  next
    case False
    then obtain el' where "p_FinalizeWriteUpToLocation rng el location = (None, el')"
      "length (epochs el') = synchronizingEpochs el' + 1"
      using p_Finalize_progress [OF inv, of location rng] p_Finalize_no_progress [OF inv, of location rng]
        assms(2,3) by metis
    then show ?thesis using inv d False p_current_last [of el'] by (simp add: el_inv_def)
  qed
qed

text \<open>
  A write that would wrap around the end of the 64-bit location space: the list is reinitialized.
\<close>

definition wraps :: "'g PersistentEpochList \<Rightarrow> el_op \<Rightarrow> bool" where
  "wraps el op \<longleftrightarrow> (\<exists>l. op = OpFinalize l \<and> makes_progress el l \<and> l < lastMaximumLocation el)"

text \<open>Lists that agree on the epochs that are being synchronized.\<close>

definition same_prefix :: "'g PersistentEpochList \<Rightarrow> 'g PersistentEpochList \<Rightarrow> bool" where
  "same_prefix el el' \<longleftrightarrow> minimumEpochID el' = minimumEpochID el
     \<and> synchronizingEpochs el \<le> length (epochs el')
     \<and> take (synchronizingEpochs el) (epochs el') = take (synchronizingEpochs el) (epochs el)"

lemma same_prefix_resolve:
  assumes "same_prefix el el'" "length (epochs el') < 2 ^ 32"
    "unat (epochID - minimumEpochID el) < synchronizingEpochs el"
    "synchronizingEpochs el \<le> length (epochs el)" "length (epochs el) < 2 ^ 32"
    "p_GetEpochStateForEpochID el epochID = Some st"
  shows "p_GetEpochStateForEpochID el' epochID = Some (st\<lparr>MinimumLocation := minimumLocation el'\<rparr>)"
proof -
  define k where "k = unat (epochID - minimumEpochID el)"
  have "epochs el' ! k = epochs el ! k"
    using assms(1,3) unfolding same_prefix_def k_def by (metis nth_take)
  then show ?thesis using assms resolve_eq [of el epochID] resolve_eq [of el' epochID]
    by (auto simp: same_prefix_def epoch_state_def simp flip: k_def)
qed

definition keeps_epoch :: "'g PersistentEpochList \<Rightarrow> uint32 \<Rightarrow> EpochState \<Rightarrow> bool" where
  "keeps_epoch el' epochID st \<longleftrightarrow>
     (case p_GetEpochStateForEpochID el' epochID of
        None \<Rightarrow> MaximumLocation st \<le> minimumLocation el'
      | Some st' \<Rightarrow> st' = st\<lparr>MinimumLocation := minimumLocation el'\<rparr>)"

lemma keeps_epoch_wakeup [simp]: "keeps_epoch (el\<lparr>locationsChangedWakeup := n\<rparr>) epochID st = keeps_epoch el epochID st"
  by (simp add: keeps_epoch_def p_GetEpochStateForEpochID_def epoch_state_def Let_def)

lemma same_prefix_keeps:
  assumes "same_prefix el x" "length (epochs x) < 2 ^ 32" "el_inv el" "length (epochs el) < 2 ^ 32"
    and "unat (epochID - minimumEpochID el) < synchronizingEpochs el" "p_GetEpochStateForEpochID el epochID = Some st"
  shows "keeps_epoch x epochID st"
    and "sorted (map maximumLocation (epochs x)) \<Longrightarrow> keeps_epoch (pruneStaleEpochs x) epochID st"
proof -
  have r: "p_GetEpochStateForEpochID x epochID = Some (st\<lparr>MinimumLocation := minimumLocation x\<rparr>)"
    using same_prefix_resolve [OF assms(1,2,5) _ assms(4,6)] assms(3) by (simp add: el_inv_def counts_ok_def)
  then show "keeps_epoch x epochID st" by (simp add: keeps_epoch_def)
  assume "sorted (map maximumLocation (epochs x))"
  then show "keeps_epoch (pruneStaleEpochs x) epochID st"
    using resolve_prune [OF _ assms(2), of epochID] r by (auto simp: keeps_epoch_def)
qed

lemma finalize_same_prefix:
  assumes inv: "el_inv el" and "p_FinalizeWriteUpToLocation rng el l = (err, el')" "\<not> wraps el (OpFinalize l)"
  shows "same_prefix el el' \<and> length (epochs el') \<le> length (epochs el) + 1
    \<or> (\<exists>x n. el' = (pruneStaleEpochs x)\<lparr>locationsChangedWakeup := n\<rparr> \<and> same_prefix el x
        \<and> length (epochs x) \<le> length (epochs el) + 1 \<and> sorted (map maximumLocation (epochs x)))"
proof -
  have cnt: "synchronizingEpochs el \<le> length (epochs el)" "counts_ok el" "sorted (map maximumLocation (epochs el))"
    using inv by (auto simp: el_inv_def counts_ok_def maxima_ok_def)
  consider "closedForWriting el" | "\<not> closedForWriting el" "\<not> makes_progress el l"
    | "\<not> closedForWriting el" "makes_progress el l" "lastMaximumLocation el \<le> l"
    using assms(3) by (auto simp: wraps_def not_less)
  then show ?thesis
  proof cases
    case 1
    then show ?thesis using assms(2) cnt by (auto simp: p_Finalize_closed same_prefix_def)
  next
    case 2
    then show ?thesis using assms(2) cnt
      by (auto simp: p_FinalizeWriteUpToLocation_def makes_progress_def same_prefix_def split: if_splits)
  next
    case 3
    have le: "maximumLocation e \<le> l" if "e \<in> set (epochs el)" for e
      using lastMaximumLocation_ge(2) [of el e] that inv 3(3) by (auto simp: el_inv_def)
    obtain x where x: "cover_location rng l el = Inr x" "counts_ok x" "sorted (map maximumLocation (epochs x))"
      "locationsChangedWakeup x = locationsChangedWakeup el" "minimumEpochID x = minimumEpochID el"
      "take (synchronizingEpochs el) (epochs x) = take (synchronizingEpochs el) (epochs el)"
      "synchronizingEpochs x = synchronizingEpochs el"
      by (rule cover_location_ok [OF cnt(2,3) le, where rng = rng]) auto
    obtain n where n: "wakeup_unblock (pruneStaleEpochs (progress_minimum l x))
        = Inr ((pruneStaleEpochs (progress_minimum l x))\<lparr>locationsChangedWakeup := n\<rparr>)"
      by (rule wakeup_unblock_ok [of "pruneStaleEpochs (progress_minimum l x)"])
        (use inv x(4) in \<open>auto simp: el_inv_def\<close>)
    have "el' = (pruneStaleEpochs (progress_minimum l x))\<lparr>locationsChangedWakeup := n\<rparr>"
      using assms(2) 3 x(1) n by (auto simp: p_FinalizeWriteUpToLocation_def makes_progress_def Let_def split: if_splits)
    moreover have "same_prefix el (progress_minimum l x)" "length (epochs x) \<le> length (epochs el) + 1"
      using x cnt(1) by (auto simp: same_prefix_def counts_ok_def)
    ultimately show ?thesis using x(3) by (intro disjI2 exI [of _ "progress_minimum l x"] exI [of _ n]) simp
  qed
qed

text \<open>
  C34. Once a synchronization has started, the epochs it covers never change: an operation that does not
  wrap around the location space leaves their hash seed and maximum location as they are, and only forgets
  such an epoch if all its locations have become invalid. Writes that are finalized while data is being
  synchronized are therefore never attributed to an epoch that is reported as synchronized.
\<close>

theorem synchronizing_epochs_immutable:
  assumes "el_step rng el op el'" "el_inv el" "length (epochs el) + 1 < 2 ^ 32" "\<not> wraps el op"
    and "unat (epochID - minimumEpochID el) < synchronizingEpochs el"
    and "p_GetEpochStateForEpochID el epochID = Some st"
  shows "case p_GetEpochStateForEpochID el' epochID of
        None \<Rightarrow> MaximumLocation st \<le> minimumLocation el'
      | Some st' \<Rightarrow> st' = st\<lparr>MinimumLocation := minimumLocation el'\<rparr>"
proof -
  note keeps = same_prefix_keeps [OF _ _ assms(2) _ assms(5,6)]
  have len: "length (epochs el) < 2 ^ 32" and cnt: "synchronizingEpochs el \<le> length (epochs el)"
    and srt: "sorted (map maximumLocation (epochs el))"
    using assms(2,3) by (auto simp: el_inv_def counts_ok_def maxima_ok_def)
  have "keeps_epoch el' epochID st"
    using assms(1)
  proof cases
    case (step_finalize l err)
    show ?thesis
      using finalize_same_prefix [OF assms(2) step_finalize(2)] assms(3,4) step_finalize(1) keeps(1) [OF _ _ len, of el']
        keeps(2) [OF _ _ len] by auto
  next
    case (step_discard l)
    have "keeps_epoch (pruneStaleEpochs (el\<lparr>minimumLocation := l\<rparr>)) epochID st"
      by (rule keeps(2) [OF _ _ len]) (use len cnt srt in \<open>auto simp: same_prefix_def\<close>)
    moreover have "keeps_epoch el epochID st"
      by (rule keeps(1) [OF _ _ len]) (use len cnt in \<open>auto simp: same_prefix_def\<close>)
    ultimately show ?thesis
      using step_discard(2) by (auto simp: p_DiscardUpToLocation_def wakeup_unblock_def split: if_splits)
  next
    case (step_starting final)
    show ?thesis
      by (rule keeps(1) [OF _ _ len]) (use len cnt step_starting in \<open>auto simp: same_prefix_def NotifySyncStarting_def Let_def\<close>)
  next
    case step_completed
    show ?thesis
      by (rule keeps(1) [OF _ _ len]) (use len cnt step_completed in \<open>auto simp: same_prefix_def NotifySyncCompleted_def Let_def\<close>)
  qed
  then show ?thesis by (simp add: keeps_epoch_def)
qed

section \<open>Wake-ups\<close>

text \<open>
  C35. A write that raises the maximum location, and a discard that raises the minimum location, close the
  channel that was handed out before, so that whoever waits for it synchronizes the change.
\<close>

theorem progress_wakes_up:
  assumes "el_inv el"
  shows "(\<not> closedForWriting el \<and> makes_progress el location \<longrightarrow>
      (\<exists>el'. p_FinalizeWriteUpToLocation rng el location = (None, el')
        \<and> snd (locationsChangedWakeup el') ! GetLocationsChangedWakeup el))
    \<and> (minimumLocation el < location \<longrightarrow>
      (\<exists>el'. p_DiscardUpToLocation el location = Inr el'
        \<and> snd (locationsChangedWakeup el') ! GetLocationsChangedWakeup el))"
proof (intro conjI impI)
  have closed: "snd n ! channel (fst n)" if "nc_inv n" "\<not> isBlocking (fst n)" for n
    using that by (auto simp: nc_inv_def)
  { assume "\<not> closedForWriting el \<and> makes_progress el location"
    then obtain el' where "p_FinalizeWriteUpToLocation rng el location = (None, el')" "el_inv el'"
      "\<not> isBlocking (fst (locationsChangedWakeup el'))" "GetLocationsChangedWakeup el' = GetLocationsChangedWakeup el"
      using p_Finalize_progress [OF assms, of location rng] by metis
    then show "\<exists>el'. p_FinalizeWriteUpToLocation rng el location = (None, el')
        \<and> snd (locationsChangedWakeup el') ! GetLocationsChangedWakeup el"
      using closed [of "locationsChangedWakeup el'"] by (auto simp: el_inv_def GetLocationsChangedWakeup_def) }
  assume less: "minimumLocation el < location"
  define x where "x = pruneStaleEpochs (el\<lparr>minimumLocation := location\<rparr>)"
  obtain n where "wakeup_unblock x = Inr (x\<lparr>locationsChangedWakeup := n\<rparr>)" "nc_inv n" "\<not> isBlocking (fst n)"
    "channel (fst n) = GetLocationsChangedWakeup x"
    by (rule wakeup_unblock_ok [of x]) (use assms in \<open>auto simp: x_def el_inv_def\<close>)
  moreover have "GetLocationsChangedWakeup x = GetLocationsChangedWakeup el"
    by (simp add: x_def GetLocationsChangedWakeup_def)
  ultimately show "\<exists>el'. p_DiscardUpToLocation el location = Inr el'
        \<and> snd (locationsChangedWakeup el') ! GetLocationsChangedWakeup el"
    using less closed [of n] by (simp add: p_DiscardUpToLocation_def flip: x_def)
qed

section \<open>A concrete list\<close>

text \<open>
  A generator that counts, and a list to which one object was written and synchronized. It serves as a
  witness for the theorems above.
\<close>

definition example_rng :: "nat SingleThreadedGenerator" where
  "example_rng = \<lparr>rng_Uint32 = \<lambda>n. (of_nat n, n + 1), rng_Uint64 = \<lambda>n. (of_nat n, n + 1)\<rparr>"

definition example_list :: "nat PersistentEpochList" where
  "example_list = NotifySyncCompleted (NotifySyncStarting
     (snd (p_FinalizeWriteUpToLocation example_rng (NewPersistentEpochList 100 7 1 0 []) 20)) False)"

lemma example_list_eq:
  "example_list = \<lparr>maximumLocationSpan = 100, randomNumberGenerator = 8, closedForWriting = False,
     minimumEpochID = 1, minimumLocation = 0, epochs = [\<lparr>hashSeed = 7, maximumLocation = 20\<rparr>],
     synchronizingEpochs = 1, synchronizedEpochs = 1,
     locationsChangedWakeup = (\<lparr>channel = 1, isBlocking = True\<rparr>, [True, False])\<rparr>"
  by code_simp

lemma example_list_reachable: "el_reachable example_rng example_list"
proof -
  obtain err el where f: "p_FinalizeWriteUpToLocation example_rng (NewPersistentEpochList 100 7 1 0 []) 20 = (err, el)"
    by fastforce
  have "el_reachable example_rng el"
    using reach_step [OF reach_init step_finalize [OF f]] .
  then have "el_reachable example_rng (NotifySyncCompleted (NotifySyncStarting el False))"
    by (blast intro: reach_step step_starting step_completed)
  then show ?thesis by (simp add: example_list_def f)
qed

theorem epoch_list_never_panics_witness:
  "el_reachable example_rng example_list \<and> maximumLocationSpan example_list \<noteq> 0 \<and> (30 :: uint64) \<noteq> 0
   \<and> \<not> closedForWriting example_list
   \<and> (\<exists>st epochID. p_GetCurrentEpochState (snd (p_FinalizeWriteUpToLocation example_rng example_list 30)) = Inr (st, epochID))"
proof -
  have "fst (p_FinalizeWriteUpToLocation example_rng example_list 30) = None" by code_simp
  then show ?thesis
    using epoch_list_never_panics [of example_rng example_list 30] example_list_reachable
    by (cases "p_FinalizeWriteUpToLocation example_rng example_list 30") (simp add: example_list_eq)
qed

theorem persistent_state_roundtrip_witness:
  "GetPersistentState example_list = (1, 0, [\<lparr>pb_HashSeed = 7, pb_LocationIncrease = 20\<rparr>])
   \<and> p_GetEpochStateForEpochID (NewPersistentEpochList 100 (0::nat) 1 0 [\<lparr>pb_HashSeed = 7, pb_LocationIncrease = 20\<rparr>]) 1
     = Some \<lparr>HashSeed = 7, MinimumLocation = 0, MaximumLocation = 20\<rparr>"
proof -
  have g: "GetPersistentState example_list = (1, 0, [\<lparr>pb_HashSeed = 7, pb_LocationIncrease = 20\<rparr>])"
    "p_GetEpochStateForEpochID example_list 1 = Some \<lparr>HashSeed = 7, MinimumLocation = 0, MaximumLocation = 20\<rparr>"
    by code_simp+
  then show ?thesis
    using persistent_state_roundtrip [OF el_reachable_inv [OF example_list_reachable] _ g(1), of 100 0 1]
    by (simp add: example_list_eq)
qed

theorem synchronizing_epochs_immutable_witness:
  "p_GetEpochStateForEpochID (NotifySyncStarting example_list True) 1
     = Some \<lparr>HashSeed = 7, MinimumLocation = 0, MaximumLocation = 20\<rparr>"
proof -
  have "p_GetEpochStateForEpochID example_list 1 = Some \<lparr>HashSeed = 7, MinimumLocation = 0, MaximumLocation = 20\<rparr>"
    by code_simp
  moreover have "p_GetEpochStateForEpochID (NotifySyncStarting example_list True) 1 \<noteq> None" by code_simp
  ultimately show ?thesis
    using synchronizing_epochs_immutable [OF step_starting [of example_rng example_list True]
        el_reachable_inv [OF example_list_reachable], of 1 "\<lparr>HashSeed = 7, MinimumLocation = 0, MaximumLocation = 20\<rparr>"]
    by (auto simp: example_list_eq wraps_def NotifySyncStarting_def)
qed

theorem progress_wakes_up_witness:
  "makes_progress example_list 30
   \<and> (\<exists>el'. p_FinalizeWriteUpToLocation example_rng example_list 30 = (None, el')
        \<and> snd (locationsChangedWakeup el') ! GetLocationsChangedWakeup example_list)"
proof -
  have "makes_progress example_list 30" by code_simp
  then show ?thesis
    using progress_wakes_up [OF el_reachable_inv [OF example_list_reachable], of 30 example_rng]
    by (simp add: example_list_eq)
qed

text \<open>
  The converse does not hold: an object whose write is finalized after that of an object behind it has been
  synchronized is stored in a new epoch, and can be read, but no channel is closed. Until the next write or
  discard nothing causes this epoch to be synchronized.
\<close>

theorem out_of_order_write_does_not_wake_up:
  "\<exists>el'. el_reachable example_rng example_list
     \<and> p_FinalizeWriteUpToLocation example_rng example_list 10 = (None, el')
     \<and> (\<exists>st epochID. p_GetCurrentEpochState el' = Inr (st, epochID) \<and> IsValidLocation st 0 10)
     \<and> synchronizedEpochs el' < length (epochs el')
     \<and> \<not> snd (locationsChangedWakeup el') ! GetLocationsChangedWakeup el'"
proof -
  define el' where "el' = snd (p_FinalizeWriteUpToLocation example_rng example_list 10)"
  have "p_GetCurrentEpochState el' = Inr (\<lparr>HashSeed = 8, MinimumLocation = 0, MaximumLocation = 20\<rparr>, 2)"
    "fst (p_FinalizeWriteUpToLocation example_rng example_list 10) = None"
    "synchronizedEpochs el' < length (epochs el')"
    "\<not> snd (locationsChangedWakeup el') ! GetLocationsChangedWakeup el'"
    unfolding el'_def by code_simp+
  then show ?thesis using example_list_reachable
    by (intro exI [of _ el']) (auto simp: el'_def prod_eq_iff IsValidLocation_def)
qed

end
