(* ===== verification/Periodic_Syncer.thy ===== *)
theory Periodic_Syncer
  imports Epoch_List
begin

text \<open>
  Persistency of the local object store: \<open>PeriodicSyncer\<close>, which synchronizes data and writes the
  state of a \<open>PersistentEpochList\<close>, and \<open>directoryBackedPersistentStateStore\<close>, which keeps that
  state in a file. The clock, the error logger, the block device that is synchronized, the directory
  and the Protobuf codec are third party code and parameters: functions on an explicit world or
  directory state.
\<close>

section \<open>The messages\<close>

record PersistentState =
  MinimumEpochId :: uint32
  MinimumLocation_pb :: uint64
  Epochs :: "EpochState_pb list"
  ReferenceLocationMapHashInitialization :: uint64

section \<open>The periodic syncer\<close>

text \<open>
  \<open>store_Write\<close> is \<open>WritePersistentState\<close> of the store that the syncer writes to, \<open>sleep\<close>
  waits for a timer. \<open>now\<close> reads the clock; times and durations are integers.
\<close>

record 'w PeriodicSyncer =
  store_Write :: "'w \<Rightarrow> PersistentState \<Rightarrow> go_error option \<times> 'w"
  now :: "'w \<Rightarrow> int"
  log_error :: "'w \<Rightarrow> go_error \<Rightarrow> 'w"
  sleep :: "'w \<Rightarrow> int \<Rightarrow> 'w"
  errorRetryInterval :: int
  minimumEpochInterval :: int
  hashInitialization :: uint64
  dataSyncer :: "'w \<Rightarrow> go_error option \<times> 'w"
  lastSynchronizationTime :: int

definition NewPeriodicSyncer ::
  "('w \<Rightarrow> PersistentState \<Rightarrow> go_error option \<times> 'w) \<Rightarrow> ('w \<Rightarrow> int) \<Rightarrow> ('w \<Rightarrow> go_error \<Rightarrow> 'w) \<Rightarrow> ('w \<Rightarrow> int \<Rightarrow> 'w)
     \<Rightarrow> int \<Rightarrow> int \<Rightarrow> uint64 \<Rightarrow> ('w \<Rightarrow> go_error option \<times> 'w) \<Rightarrow> 'w \<Rightarrow> 'w PeriodicSyncer" where
  "NewPeriodicSyncer write clock logger timer retry interval hashInit syncer w =
     \<lparr>store_Write = write, now = clock, log_error = logger, sleep = timer, errorRetryInterval = retry,
      minimumEpochInterval = interval, hashInitialization = hashInit, dataSyncer = syncer,
      lastSynchronizationTime = clock w\<rparr>"

definition logErrorAndSleep :: "'w PeriodicSyncer \<Rightarrow> 'w \<Rightarrow> go_error \<Rightarrow> 'w" where
  "logErrorAndSleep ps w err = sleep ps (log_error ps w err) (errorRetryInterval ps)"

definition writePersistentState ::
  "'w PeriodicSyncer \<Rightarrow> 'g PersistentEpochList \<Rightarrow> 'w \<Rightarrow> go_error option \<times> 'w" where
  "writePersistentState ps el w =
     (let (minEpochID, minLocation, eps) = GetPersistentState el
      in store_Write ps w \<lparr>MinimumEpochId = minEpochID, MinimumLocation_pb = minLocation, Epochs = eps,
           ReferenceLocationMapHashInitialization = hashInitialization ps\<rparr>)"

partial_function (option) retry :: "('w \<Rightarrow> go_error option \<times> 'w) \<Rightarrow> ('w \<Rightarrow> go_error \<Rightarrow> 'w) \<Rightarrow> 'w \<Rightarrow> 'w option" where [code]:
  "retry f failed w = (case f w of (None, w') \<Rightarrow> Some w' | (Some err, w') \<Rightarrow> retry f failed (failed w' err))"

text \<open>
  The lock on the epoch list is not held while the state is being written and while the syncer sleeps, and
  every attempt reads the list again; \<open>others\<close> is what other goroutines do to the list between two attempts.
  The list that is returned is the one whose state was written.
\<close>

definition writePersistentStateRetrying ::
  "'w PeriodicSyncer \<Rightarrow> ('g PersistentEpochList \<Rightarrow> 'g PersistentEpochList)
     \<Rightarrow> 'g PersistentEpochList \<times> 'w \<Rightarrow> ('g PersistentEpochList \<times> 'w) option" where
  "writePersistentStateRetrying ps others =
     retry (\<lambda>(el, w). let (err, w) = writePersistentState ps el w in (err, el, w))
       (\<lambda>(el, w) err. (others el, logErrorAndSleep ps w err))"

text \<open>
  The lock on the epoch list is released while data is being synchronized; \<open>others\<close> is what other
  goroutines do to the list in the meantime.
\<close>

definition notifyAndSyncDataLocked ::
  "'w PeriodicSyncer \<Rightarrow> bool \<Rightarrow> ('g PersistentEpochList \<Rightarrow> 'g PersistentEpochList)
     \<Rightarrow> 'g PersistentEpochList \<times> 'w \<Rightarrow> ('g PersistentEpochList \<times> 'w) option" where
  "notifyAndSyncDataLocked ps isFinalSync others = (\<lambda>(el, w).
     let el = NotifySyncStarting el isFinalSync in
     case retry (dataSyncer ps) (logErrorAndSleep ps) w of
       None \<Rightarrow> None
     | Some w \<Rightarrow> let el = others el in Some (NotifySyncCompleted el, w))"

text \<open>
  What runs next to \<open>ProcessLocationsChanged\<close>. While it waits, other goroutines take steps on the epoch
  list: \<open>other_step n\<close> is the \<open>n\<close>th of them, possibly none at all. The context is cancelled after
  \<open>cancelled_after\<close> of these steps, or never. The first \<open>select\<close> is reached after \<open>before_select\<close> steps. If
  both cases of a \<open>select\<close> are ready after \<open>n\<close> steps, it takes that of the context if \<open>prefers_done n\<close>. A timer
  that is set to a duration fires after the number of further steps that \<open>timer\<close> gives, and sends the time
  that it gives. The other functions are what happens to the list while the lock is free later on.
\<close>

record 'g surroundings =
  other_step :: "nat \<Rightarrow> 'g PersistentEpochList \<Rightarrow> 'g PersistentEpochList"
  cancelled_after :: "nat option"
  before_select :: nat
  prefers_done :: "nat \<Rightarrow> bool"
  timer :: "int \<Rightarrow> nat \<times> int"
  before_locking :: "'g PersistentEpochList \<Rightarrow> 'g PersistentEpochList"
  while_syncing :: "'g PersistentEpochList \<Rightarrow> 'g PersistentEpochList"
  while_syncing_finally :: "'g PersistentEpochList \<Rightarrow> 'g PersistentEpochList"
  before_writing :: "'g PersistentEpochList \<Rightarrow> 'g PersistentEpochList"
  while_retrying :: "'g PersistentEpochList \<Rightarrow> 'g PersistentEpochList"

fun others_until :: "'g surroundings \<Rightarrow> nat \<Rightarrow> 'g PersistentEpochList \<Rightarrow> 'g PersistentEpochList" where
  "others_until env 0 el = el"
| "others_until env (Suc n) el = other_step env n (others_until env n el)"

definition ctx_done :: "'g surroundings \<Rightarrow> nat \<Rightarrow> bool" where
  "ctx_done env n = (case cancelled_after env of None \<Rightarrow> False | Some k \<Rightarrow> k \<le> n)"

definition chan_closed :: "'g PersistentEpochList \<Rightarrow> nat \<Rightarrow> bool" where
  "chan_closed el ch \<longleftrightarrow> snd (locationsChangedWakeup el) ! ch"

text \<open>
  The \<open>select\<close> that blocks until the context is cancelled or the channel is closed: it returns whether the
  latter was the case, the number of steps and the list. It is \<open>None\<close> if neither ever happens.
\<close>

partial_function (option) wait_for_change ::
  "'g surroundings \<Rightarrow> nat \<Rightarrow> nat \<Rightarrow> 'g PersistentEpochList \<Rightarrow> (bool \<times> nat \<times> 'g PersistentEpochList) option" where [code]:
  "wait_for_change env ch n el =
     (if ctx_done env n \<and> (\<not> chan_closed el ch \<or> prefers_done env n) then Some (False, n, el)
      else if chan_closed el ch then Some (True, n, el)
      else wait_for_change env ch (Suc n) (other_step env n el))"

text \<open>The duration for which the timer is set; \<open>Some None\<close> if the context is cancelled first.\<close>

definition timer_duration ::
  "'w PeriodicSyncer \<Rightarrow> 'g surroundings \<Rightarrow> 'g PersistentEpochList \<Rightarrow> 'w
     \<Rightarrow> (int option \<times> nat \<times> 'g PersistentEpochList) option" where
  "timer_duration ps env el w =
     (let ch = GetLocationsChangedWakeup el;
          n = before_select env;
          el = others_until env n el
      in if chan_closed el ch
         then Some (Some (lastSynchronizationTime ps + minimumEpochInterval ps - now ps w), n, el)
         else case wait_for_change env ch n el of
             None \<Rightarrow> None
           | Some (changed, n, el) \<Rightarrow> Some (if changed then Some (minimumEpochInterval ps) else None, n, el))"

text \<open>The \<open>select\<close> on the context and on a timer that fires after the given number of further steps.\<close>

fun wait_for_timer :: "'g surroundings \<Rightarrow> nat \<Rightarrow> nat \<Rightarrow> 'g PersistentEpochList \<Rightarrow> bool \<times> 'g PersistentEpochList" where
  "wait_for_timer env 0 n el = (\<not> (ctx_done env n \<and> prefers_done env n), el)"
| "wait_for_timer env (Suc remaining) n el =
     (if ctx_done env n then (False, el) else wait_for_timer env remaining (Suc n) (other_step env n el))"

text \<open>The time at which the timer fires, and the list at that moment; \<open>Some None\<close> if the context is cancelled.\<close>

definition wait_for_interval ::
  "'w PeriodicSyncer \<Rightarrow> 'g surroundings \<Rightarrow> 'g PersistentEpochList \<Rightarrow> 'w
     \<Rightarrow> (int option \<times> 'g PersistentEpochList) option" where
  "wait_for_interval ps env el w =
     (case timer_duration ps env el w of
        None \<Rightarrow> None
      | Some (None, n, el) \<Rightarrow> Some (None, el)
      | Some (Some d, n, el) \<Rightarrow>
          let (remaining, time) = timer env d; (fired, el) = wait_for_timer env remaining n el
          in Some (if fired then Some time else None, el))"

definition ProcessLocationsChanged ::
  "'w PeriodicSyncer \<Rightarrow> 'g surroundings \<Rightarrow> 'g PersistentEpochList \<times> 'w
     \<Rightarrow> (bool \<times> 'w PeriodicSyncer \<times> 'g PersistentEpochList \<times> 'w) option" where
  "ProcessLocationsChanged ps env = (\<lambda>(el, w).
     case wait_for_interval ps env el w of
       None \<Rightarrow> None
     | Some (fired, el) \<Rightarrow>
         let keepGoing = fired \<noteq> None;
             ps = (case fired of None \<Rightarrow> ps | Some time \<Rightarrow> ps\<lparr>lastSynchronizationTime := time\<rparr>);
             el = before_locking env el
         in case notifyAndSyncDataLocked ps False (while_syncing env) (el, w) of
              None \<Rightarrow> None
            | Some (el, w) \<Rightarrow>
                case (if keepGoing then Some (el, w)
                      else notifyAndSyncDataLocked ps True (while_syncing_finally env) (el, w)) of
                  None \<Rightarrow> None
                | Some (el, w) \<Rightarrow>
                    case writePersistentStateRetrying ps (while_retrying env) (before_writing env el, w) of
                      None \<Rightarrow> None
                    | Some (el, w) \<Rightarrow> Some (keepGoing, ps, el, w))"

subsection \<open>Retrying\<close>

text \<open>Retrying ends if every failed attempt uses up a part of a finite budget of failures.\<close>

lemma retry_returns:
  assumes "\<And>x err x'. f x = (Some err, x') \<Longrightarrow> budget (failed x' err) < (budget x :: nat)"
  shows "\<exists>x'. retry f failed x = Some x'"
proof (induction x rule: measure_induct_rule [of budget])
  case (less x)
  show ?case
  proof (cases "f x")
    case (Pair e x1)
    then show ?thesis using less [OF assms] by (cases e; subst retry.simps) auto
  qed
qed

text \<open>What every failed attempt keeps holds for the attempt that succeeds.\<close>

lemma retry_invariant:
  assumes "retry f failed x = Some x'" "P x" "\<And>x err x'. P x \<Longrightarrow> f x = (Some err, x') \<Longrightarrow> P (failed x' err)"
  shows "\<exists>x0. P x0 \<and> f x0 = (None, x')"
proof -
  have "P x \<longrightarrow> (\<forall>x err x'. P x \<longrightarrow> f x = (Some err, x') \<longrightarrow> P (failed x' err)) \<longrightarrow> (\<exists>x0. P x0 \<and> f x0 = (None, x'))"
  proof (rule retry.raw_induct [where P = "\<lambda>f failed x x'. P x \<longrightarrow>
        (\<forall>x err x'. P x \<longrightarrow> f x = (Some err, x') \<longrightarrow> P (failed x' err)) \<longrightarrow> (\<exists>x0. P x0 \<and> f x0 = (None, x'))", OF _ assms(1)],
      intro impI)
    fix rt :: "('a \<Rightarrow> go_error option \<times> 'a) \<Rightarrow> ('a \<Rightarrow> go_error \<Rightarrow> 'a) \<Rightarrow> 'a \<Rightarrow> 'a option" and f failed x y
    assume IH: "\<And>f failed x y. rt f failed x = Some y \<Longrightarrow> P x \<longrightarrow>
        (\<forall>x err x'. P x \<longrightarrow> f x = (Some err, x') \<longrightarrow> P (failed x' err)) \<longrightarrow> (\<exists>x0. P x0 \<and> f x0 = (None, y))"
      and eq: "(case f x of (None, w') \<Rightarrow> Some w' | (Some err, w') \<Rightarrow> rt f failed (failed w' err)) = Some y"
      and "P x" and keep: "\<forall>x err x'. P x \<longrightarrow> f x = (Some err, x') \<longrightarrow> P (failed x' err)"
    obtain e x1 where fx: "f x = (e, x1)" by force
    show "\<exists>x0. P x0 \<and> f x0 = (None, y)"
    proof (cases e)
      case None
      then show ?thesis using eq fx \<open>P x\<close> by auto
    next
      case (Some err)
      then have "rt f failed (failed x1 err) = Some y" using eq fx by simp
      then show ?thesis using IH keep \<open>P x\<close> fx Some by blast
    qed
  qed
  then show ?thesis using assms(2,3) by blast
qed

lemma retry_result:
  assumes "retry f failed w = Some w'"
  shows "\<exists>w0. f w0 = (None, w')"
  using retry_invariant [OF assms, of "\<lambda>_. True"] by blast

subsection \<open>Waiting\<close>

lemma wait_for_change_returns:
  assumes "n \<le> m" "ctx_done env m \<or> chan_closed (others_until env m el) ch"
  shows "\<exists>r. wait_for_change env ch n (others_until env n el) = Some r"
  using assms
proof (induction "m - n" arbitrary: n)
  case 0
  then have "m = n" by simp
  then show ?case using 0 by (subst wait_for_change.simps) auto
next
  case (Suc d)
  then have "\<exists>r. wait_for_change env ch (Suc n) (others_until env (Suc n) el) = Some r"
    by (intro Suc.hyps(1)) auto
  then show ?case by (subst wait_for_change.simps) auto
qed

lemma wait_for_change_result:
  assumes "wait_for_change env ch n (others_until env n el) = Some (changed, m, el')"
  shows "n \<le> m \<and> el' = others_until env m el \<and> (if changed then chan_closed el' ch else ctx_done env m)"
proof -
  define Q where "Q env ch n el1 r \<longleftrightarrow> (\<forall>el0 changed m el'. el1 = others_until env n el0 \<longrightarrow> r = (changed, m, el') \<longrightarrow>
      n \<le> m \<and> el' = others_until env m el0 \<and> (if changed then chan_closed el' ch else ctx_done env m))"
    for env :: "'a surroundings" and ch n el1 r
  have "Q env ch n (others_until env n el) (changed, m, el')"
  proof (rule wait_for_change.raw_induct [where P = Q, OF _ assms])
    fix wait env ch n el1 r
    assume IH: "\<And>env ch n el1 r. wait env ch n el1 = Some r \<Longrightarrow> Q env ch n el1 r"
      and eq: "(if ctx_done env n \<and> (\<not> chan_closed el1 ch \<or> prefers_done env n) then Some (False, n, el1)
        else if chan_closed el1 ch then Some (True, n, el1) else wait env ch (Suc n) (other_step env n el1)) = Some r"
    show "Q env ch n el1 r"
    proof (cases "ctx_done env n \<or> chan_closed el1 ch")
      case True
      then show ?thesis using eq by (auto simp: Q_def split: if_splits)
    next
      case False
      then have "Q env ch (Suc n) (other_step env n el1) r" using eq IH by simp
      then show ?thesis unfolding Q_def by (metis Suc_leD others_until.simps(2))
    qed
  qed
  then show ?thesis unfolding Q_def by blast
qed

lemma wait_for_timer_result:
  "wait_for_timer env remaining n (others_until env n el) = (fired, el') \<Longrightarrow>
     (\<exists>m. el' = others_until env m el) \<and> (\<not> fired \<longrightarrow> cancelled_after env \<noteq> None)"
proof (induction remaining arbitrary: n)
  case 0
  then show ?case by (auto simp: ctx_done_def)
next
  case (Suc remaining)
  then show ?case using Suc.IH [of "Suc n"] by (auto simp: ctx_done_def split: if_splits option.splits)
qed

text \<open>What the three waits together amount to.\<close>

lemma timer_duration_result:
  assumes "timer_duration ps env el w = Some (d, n, el')"
  shows "el' = others_until env n el \<and> (d = None \<longrightarrow> cancelled_after env \<noteq> None)
    \<and> (d \<noteq> None \<longrightarrow> chan_closed el' (GetLocationsChangedWakeup el))"
  using assms wait_for_change_result [of env "GetLocationsChangedWakeup el" "before_select env" el]
  by (auto simp: timer_duration_def Let_def ctx_done_def split: if_splits option.splits)

lemma wait_for_interval_result:
  assumes "wait_for_interval ps env el w = Some (fired, el')"
  shows "(\<exists>m. el' = others_until env m el) \<and> (fired = None \<longrightarrow> cancelled_after env \<noteq> None)
    \<and> (fired \<noteq> None \<longrightarrow> (\<exists>n. chan_closed (others_until env n el) (GetLocationsChangedWakeup el)))"
proof -
  obtain d n el1 where td: "timer_duration ps env el w = Some (d, n, el1)"
    using assms by (cases "timer_duration ps env el w") (auto simp: wait_for_interval_def)
  note r = timer_duration_result [OF td]
  show ?thesis
  proof (cases d)
    case None
    then show ?thesis using assms td r by (auto simp: wait_for_interval_def)
  next
    case (Some t)
    obtain remaining time f el2 where w: "timer env t = (remaining, time)" "wait_for_timer env remaining n el1 = (f, el2)"
      by fastforce
    then show ?thesis using assms td r Some wait_for_timer_result [of env remaining n el f el2]
      by (auto simp: wait_for_interval_def)
  qed
qed

lemma wait_for_interval_returns:
  assumes "before_select env \<le> m" "ctx_done env m \<or> chan_closed (others_until env m el) (GetLocationsChangedWakeup el)"
  shows "\<exists>r. wait_for_interval ps env el w = Some r"
  using wait_for_change_returns [OF assms]
  by (auto simp: wait_for_interval_def timer_duration_def Let_def split: option.splits prod.splits)

section \<open>What is persisted has been synchronized\<close>

text \<open>
  How the epochs that a synchronization covers evolve: some are forgotten from the front, the others
  keep their identifier, hash seed and maximum location.
\<close>

definition sync_prefix :: "'g PersistentEpochList \<Rightarrow> 'g PersistentEpochList \<Rightarrow> bool" where
  "sync_prefix el el' \<longleftrightarrow> synchronizingEpochs el' = 0 \<or>
     (\<exists>n \<le> synchronizingEpochs el. minimumEpochID el' = minimumEpochID el + of_nat n
        \<and> synchronizingEpochs el' = synchronizingEpochs el - n
        \<and> take (synchronizingEpochs el') (epochs el') = drop n (take (synchronizingEpochs el) (epochs el)))"

lemma sync_prefix_refl: "sync_prefix el el"
  unfolding sync_prefix_def by (intro disjI2 exI [of _ 0]) simp

lemma sync_prefix_trans:
  assumes "sync_prefix a b" "sync_prefix b c"
  shows "sync_prefix a c"
proof (cases "synchronizingEpochs b = 0 \<or> synchronizingEpochs c = 0")
  case True
  then show ?thesis using assms(2) by (auto simp: sync_prefix_def)
next
  case False
  obtain n where n: "n \<le> synchronizingEpochs a" "minimumEpochID b = minimumEpochID a + of_nat n"
      "synchronizingEpochs b = synchronizingEpochs a - n"
      "take (synchronizingEpochs b) (epochs b) = drop n (take (synchronizingEpochs a) (epochs a))"
    using assms(1) False unfolding sync_prefix_def by blast
  obtain m where m: "m \<le> synchronizingEpochs b" "minimumEpochID c = minimumEpochID b + of_nat m"
      "synchronizingEpochs c = synchronizingEpochs b - m"
      "take (synchronizingEpochs c) (epochs c) = drop m (take (synchronizingEpochs b) (epochs b))"
    using assms(2) False unfolding sync_prefix_def by blast
  show ?thesis unfolding sync_prefix_def m(4) n(4) using n(1-3) m(1-3)
    by (intro disjI2 exI [of _ "n + m"]) (simp add: add.commute)
qed

lemma sync_prefix_same:
  "same_prefix el el' \<Longrightarrow> synchronizingEpochs el' = synchronizingEpochs el \<Longrightarrow> sync_prefix el el'"
  unfolding sync_prefix_def same_prefix_def by (intro disjI2 exI [of _ 0]) simp

lemma sync_prefix_prune: "sync_prefix el (pruneStaleEpochs el)"
proof -
  define n where "n = length (takeWhile (\<lambda>e. maximumLocation e \<le> minimumLocation el) (epochs el))"
  have "synchronizingEpochs (pruneStaleEpochs el) = synchronizingEpochs el - n"
    "epochs (pruneStaleEpochs el) = drop n (epochs el)"
    "minimumEpochID (pruneStaleEpochs el) = minimumEpochID el + of_nat n"
    by (simp_all add: pruneStaleEpochs_def Let_def n_def)
  then show ?thesis unfolding sync_prefix_def
    by (cases "n \<le> synchronizingEpochs el") (auto simp: take_drop intro: exI [of _ n])
qed

lemma sync_prefix_wakeup [simp]: "sync_prefix el (el'\<lparr>locationsChangedWakeup := n\<rparr>) = sync_prefix el el'"
  by (simp add: sync_prefix_def)

lemma sync_prefix_progress:
  assumes "counts_ok el" "maxima_ok el" "\<And>e. e \<in> set (epochs el) \<Longrightarrow> maximumLocation e \<le> l"
    and "bindE (cover_location rng l el) (\<lambda>el. wakeup_unblock (pruneStaleEpochs (progress_minimum l el))) = Inr el'"
  shows "sync_prefix el el'"
proof -
  obtain x where x: "cover_location rng l el = Inr x" "counts_ok x" "minimumEpochID x = minimumEpochID el"
      "take (synchronizingEpochs el) (epochs x) = take (synchronizingEpochs el) (epochs el)"
      "synchronizingEpochs x = synchronizingEpochs el"
    by (rule cover_location_ok [OF assms(1) _ assms(3), where rng = rng]) (use assms(2) in \<open>auto simp: maxima_ok_def\<close>)
  have "sync_prefix el (progress_minimum l x)"
    by (rule sync_prefix_same) (use x in \<open>auto simp: same_prefix_def counts_ok_def\<close>)
  moreover obtain n where "el' = (pruneStaleEpochs (progress_minimum l x))\<lparr>locationsChangedWakeup := n\<rparr>"
    using assms(4) x(1) by (auto simp: wakeup_unblock_def)
  ultimately show ?thesis using sync_prefix_trans sync_prefix_prune by auto
qed

lemma sync_prefix_finalize:
  assumes inv: "el_inv el" and f: "p_FinalizeWriteUpToLocation rng el l = (err, el')"
  shows "sync_prefix el el'"
proof -
  define el1 where "el1 = (if l < lastMaximumLocation el then p_reinitialize el else el)"
  have i1: "counts_ok el1" "maxima_ok el1" "sync_prefix el el1"
    using inv el_inv_reinitialize [OF inv] sync_prefix_refl [of el]
    by (auto simp: el1_def el_inv_def) (simp add: sync_prefix_def p_reinitialize_def)
  have le: "maximumLocation e \<le> l" if "e \<in> set (epochs el1)" for e
    using that lastMaximumLocation_ge(2) [of el e] inv by (auto simp: el1_def el_inv_def not_less split: if_splits)
  have app: "sync_prefix el (append_epoch rng m el)" for m
    by (rule sync_prefix_same) (use inv in \<open>auto simp: same_prefix_def el_inv_def counts_ok_def\<close>)
  show ?thesis
  proof (cases "\<not> closedForWriting el \<and> makes_progress el l")
    case False
    then show ?thesis using f app sync_prefix_refl
      by (auto simp: p_FinalizeWriteUpToLocation_def makes_progress_def Let_def split: if_splits)
  next
    case True
    then have "el' = el1 \<or> bindE (cover_location rng l el1)
        (\<lambda>el. wakeup_unblock (pruneStaleEpochs (progress_minimum l el))) = Inr el'"
      using f by (auto simp: p_FinalizeWriteUpToLocation_def makes_progress_def Let_def
          simp del: bindE_eq_Inr simp flip: el1_def split: sum.splits)
    then show ?thesis using sync_prefix_trans [OF i1(3)] sync_prefix_progress [OF i1(1,2) le] i1(3) by blast
  qed
qed

lemma sync_prefix_discard: "p_DiscardUpToLocation el l = Inr el' \<Longrightarrow> sync_prefix el el'"
proof -
  have "sync_prefix el (el\<lparr>minimumLocation := l\<rparr>)"
    using sync_prefix_refl [of el] by (simp add: sync_prefix_def)
  then have "sync_prefix el (pruneStaleEpochs (el\<lparr>minimumLocation := l\<rparr>))"
    using sync_prefix_trans sync_prefix_prune by blast
  then show "p_DiscardUpToLocation el l = Inr el' \<Longrightarrow> sync_prefix el el'"
    using sync_prefix_refl [of el]
    by (auto simp: p_DiscardUpToLocation_def wakeup_unblock_def split: if_splits)
qed

text \<open>What other goroutines do: they write and discard, in any order.\<close>

inductive writes :: "'g SingleThreadedGenerator \<Rightarrow> 'g PersistentEpochList \<Rightarrow> 'g PersistentEpochList \<Rightarrow> bool" for rng where
  writes_none: "writes rng el el"
| writes_finalize: "writes rng el el1 \<Longrightarrow> p_FinalizeWriteUpToLocation rng el1 l = (err, el2) \<Longrightarrow> writes rng el el2"
| writes_discard: "writes rng el el1 \<Longrightarrow> p_DiscardUpToLocation el1 l = Inr el2 \<Longrightarrow> writes rng el el2"

lemma writes_inv: "writes rng el el' \<Longrightarrow> el_inv el \<Longrightarrow> el_inv el' \<and> sync_prefix el el'"
proof (induction rule: writes.induct)
  case (writes_finalize el el1 l err el2)
  then show ?case
    using el_step_inv [OF step_finalize [OF writes_finalize(2)]] sync_prefix_finalize [OF _ writes_finalize(2)]
      sync_prefix_trans by blast
next
  case (writes_discard el el1 l el2)
  then show ?case
    using el_step_inv [OF step_discard [OF writes_discard(2)]] sync_prefix_discard [OF writes_discard(2)]
      sync_prefix_trans by blast
qed (simp add: sync_prefix_refl)

text \<open>
  C13. What a round of synchronization reports as persistent was complete when the round started: after
  \<open>notifyAndSyncDataLocked\<close> returns, the data syncer has succeeded, and every epoch in the state that may
  now be written to disk existed when \<open>NotifySyncStarting\<close> was called, with the same identifier, hash seed
  and maximum location, no matter which objects were written or discarded during the round.
\<close>

theorem persisted_epochs_synchronized:
  assumes "el_inv el"
    and "notifyAndSyncDataLocked ps isFinalSync others (el, w) = Some (el', w')"
    and "writes rng (NotifySyncStarting el isFinalSync) (others (NotifySyncStarting el isFinalSync))"
    and "GetPersistentState el' = (minEpochID, minLocation, eps)" "k < length eps"
  shows "(\<exists>w0. dataSyncer ps w0 = (None, w'))
    \<and> (\<exists>j < length (epochs el). minEpochID + of_nat k = minimumEpochID el + of_nat j
        \<and> epochs el' ! k = epochs el ! j \<and> pb_HashSeed (eps ! k) = hashSeed (epochs el ! j))"
proof -
  define el1 where "el1 = NotifySyncStarting el isFinalSync"
  define el2 where "el2 = others el1"
  have el': "el' = NotifySyncCompleted el2" and w: "retry (dataSyncer ps) (logErrorAndSleep ps) w = Some w'"
    using assms(2) by (auto simp: notifyAndSyncDataLocked_def Let_def el1_def el2_def split: option.splits)
  have s1: "synchronizingEpochs el1 = length (epochs el)" "epochs el1 = epochs el" "minimumEpochID el1 = minimumEpochID el"
    by (simp_all add: el1_def NotifySyncStarting_def Let_def)
  have s2: "sync_prefix el1 el2" "el_inv el2"
    using writes_inv [OF assms(3)] NotifySyncStarting_inv [OF assms(1)] by (auto simp: el1_def el2_def)
  have s': "epochs el' = epochs el2" "minimumEpochID el' = minimumEpochID el2" "synchronizedEpochs el' = synchronizingEpochs el2"
    by (simp_all add: el' NotifySyncCompleted_def Let_def)
  have eps: "eps = location_increases (minimumLocation el') (take (synchronizingEpochs el2) (epochs el2))"
    and i: "minEpochID = minimumEpochID el2"
    using assms(4) by (auto simp: GetPersistentState_def s')
  have seeds: "map pb_HashSeed (location_increases m xs) = map hashSeed xs" for m xs
    by (induction m xs rule: location_increases.induct) auto
  have len: "length eps = synchronizingEpochs el2"
    using s2(2) arg_cong [OF seeds, of length] by (auto simp: eps el_inv_def counts_ok_def)
  then have k: "k < synchronizingEpochs el2" using assms(5) by simp
  then obtain n where n: "minimumEpochID el2 = minimumEpochID el1 + of_nat n"
      "synchronizingEpochs el2 = synchronizingEpochs el1 - n"
      "take (synchronizingEpochs el2) (epochs el2) = drop n (take (synchronizingEpochs el1) (epochs el1))"
    using s2(1) unfolding sync_prefix_def by auto
  have "epochs el2 ! k = take (synchronizingEpochs el2) (epochs el2) ! k" using k by simp
  also have "\<dots> = epochs el ! (n + k)" unfolding n(3) s1 using k n(2) s1 by simp
  finally have e: "epochs el2 ! k = epochs el ! (n + k)" .
  have "pb_HashSeed (eps ! k) = map pb_HashSeed eps ! k" using assms(5) by simp
  also have "\<dots> = hashSeed (epochs el2 ! k)"
    using k s2(2) by (simp add: eps seeds el_inv_def counts_ok_def)
  finally have "pb_HashSeed (eps ! k) = hashSeed (epochs el ! (n + k))" by (simp add: e)
  then show ?thesis
    using retry_result [OF w] e n k s1 by (intro conjI exI [of _ "n + k"]) (auto simp: i s')
qed

lemma writes_closed:
  assumes "writes rng el el'"
  shows "el_inv el \<Longrightarrow> closedForWriting el \<Longrightarrow> synchronizingEpochs el = length (epochs el) \<Longrightarrow>
   closedForWriting el' \<and> synchronizingEpochs el' = length (epochs el')
   \<and> (synchronizedEpochs el = length (epochs el) \<longrightarrow> synchronizedEpochs el' = length (epochs el'))"
  using assms
proof (induction rule: writes.induct)
  case (writes_finalize el el1 l err el2)
  then show ?case by (auto simp: p_Finalize_closed)
next
  case (writes_discard el el1 l el2)
  then show ?case
    by (auto simp: p_DiscardUpToLocation_def wakeup_unblock_def pruneStaleEpochs_def Let_def split: if_splits)
qed simp

text \<open>The surroundings only write and discard objects.\<close>

definition only_writes :: "'g SingleThreadedGenerator \<Rightarrow> 'g surroundings \<Rightarrow> bool" where
  "only_writes rng env \<longleftrightarrow> (\<forall>el. (\<forall>n. writes rng el (other_step env n el)) \<and> writes rng el (before_locking env el)
     \<and> writes rng el (while_syncing env el) \<and> writes rng el (while_syncing_finally env el)
     \<and> writes rng el (before_writing env el) \<and> writes rng el (while_retrying env el))"

lemma writes_trans: "writes rng b c \<Longrightarrow> writes rng a b \<Longrightarrow> writes rng a c"
  by (induction rule: writes.induct) (auto intro: writes.intros)

lemma others_until_writes: "only_writes rng env \<Longrightarrow> writes rng el (others_until env n el)"
  by (induction n) (auto simp: only_writes_def intro: writes_none writes_trans)

lemma notifyAndSync_inv:
  assumes "notifyAndSyncDataLocked ps final others (el, w) = Some (el', w')" "el_inv el" "\<And>el. writes rng el (others el)"
  shows "el_inv el'"
    and "final \<Longrightarrow> closedForWriting el' \<and> synchronizingEpochs el' = length (epochs el')
      \<and> synchronizedEpochs el' = length (epochs el')"
proof -
  define el1 where "el1 = NotifySyncStarting el final"
  have el': "el' = NotifySyncCompleted (others el1)"
    using assms(1) by (auto simp: notifyAndSyncDataLocked_def Let_def el1_def split: option.splits)
  have i1: "el_inv el1" using assms(2) NotifySyncStarting_inv by (simp add: el1_def)
  then show "el_inv el'" using writes_inv [OF assms(3)] by (simp add: el' NotifySyncCompleted_inv)
  assume final
  then have "closedForWriting el1" "synchronizingEpochs el1 = length (epochs el1)"
    by (simp_all add: el1_def NotifySyncStarting_def Let_def)
  then show "closedForWriting el' \<and> synchronizingEpochs el' = length (epochs el')
      \<and> synchronizedEpochs el' = length (epochs el')"
    using writes_closed [OF assms(3) i1] by (simp add: el' NotifySyncCompleted_def Let_def)
qed

text \<open>After the final synchronization the list is closed and all of its epochs are synchronized, and stay so.\<close>

definition settled :: "'g PersistentEpochList \<Rightarrow> bool" where
  "settled el \<longleftrightarrow> el_inv el \<and> closedForWriting el \<and> synchronizingEpochs el = length (epochs el)
     \<and> synchronizedEpochs el = length (epochs el)"

lemma settled_writes: "writes rng el el' \<Longrightarrow> settled el \<Longrightarrow> settled el'"
  using writes_closed writes_inv unfolding settled_def by blast

lemma retrying_settled:
  assumes "writePersistentStateRetrying ps others (el, w) = Some (el', w')" "settled el" "\<And>el. writes rng el (others el)"
  shows "\<exists>w0. settled el' \<and> writePersistentState ps el' w0 = (None, w')"
proof -
  have "\<exists>x0. settled (fst x0) \<and> (case x0 of (el, w) \<Rightarrow> let (err, w) = writePersistentState ps el w in (err, el, w)) = (None, el', w')"
    by (rule retry_invariant [OF assms(1) [unfolded writePersistentStateRetrying_def]])
      (use assms(2) settled_writes [OF assms(3)] in \<open>auto split: prod.splits\<close>)
  then obtain el0 w0 where "settled el0" "(let (err, w) = writePersistentState ps el0 w0 in (err, el0, w)) = (None, el', w')"
    by auto
  then show ?thesis by (cases "writePersistentState ps el0 w0") auto
qed

text \<open>
  C14. Shutting down loses nothing: when \<open>ProcessLocationsChanged\<close> returns false, no further write is
  accepted, the state store has accepted the state of the epoch list, and that state covers all of its
  epochs, whatever other goroutines wrote or discarded while it ran.
\<close>

theorem shutdown_persists_everything:
  assumes "ProcessLocationsChanged ps env (el, w) = Some (False, ps', el', w')" "el_inv el" "only_writes rng env"
  shows "closedForWriting el' \<and> synchronizedEpochs el' = length (epochs el')
    \<and> (\<exists>w0 minEpochID minLocation eps. GetPersistentState el' = (minEpochID, minLocation, eps)
        \<and> length eps = length (epochs el')
        \<and> store_Write ps w0 \<lparr>MinimumEpochId = minEpochID, MinimumLocation_pb = minLocation, Epochs = eps,
            ReferenceLocationMapHashInitialization = hashInitialization ps\<rparr> = (None, w'))"
proof -
  note wr = assms(3) [unfolded only_writes_def, rule_format]
  obtain el0 el1 w1 el2 w2 where n0: "wait_for_interval ps env el w = Some (None, el0)"
    and n1: "notifyAndSyncDataLocked ps False (while_syncing env) (before_locking env el0, w) = Some (el1, w1)"
    and n2: "notifyAndSyncDataLocked ps True (while_syncing_finally env) (el1, w1) = Some (el2, w2)"
    and wps: "writePersistentStateRetrying ps (while_retrying env) (before_writing env el2, w2) = Some (el', w')"
    using assms(1) by (auto simp: ProcessLocationsChanged_def Let_def split: option.splits if_splits prod.splits)
  have i0: "el_inv el0"
    using wait_for_interval_result [OF n0] others_until_writes [OF assms(3)] writes_inv assms(2) by blast
  have i1: "el_inv el1" using notifyAndSync_inv(1) [OF n1] writes_inv wr i0 by blast
  have i2: "el_inv el2" "closedForWriting el2 \<and> synchronizingEpochs el2 = length (epochs el2)
      \<and> synchronizedEpochs el2 = length (epochs el2)"
    using notifyAndSync_inv [OF n2 i1] wr by auto
  have s: "settled (before_writing env el2)"
    using settled_writes [of rng el2 "before_writing env el2"] i2 wr by (simp add: settled_def)
  obtain w0 where "settled el'" "writePersistentState ps el' w0 = (None, w')"
    using retrying_settled [OF wps s] wr by blast
  moreover have "length (location_increases m xs) = length xs" for m xs
    by (induction m xs rule: location_increases.induct) auto
  ultimately show ?thesis by (auto simp: settled_def writePersistentState_def GetPersistentState_def)
qed

subsection \<open>When the syncer returns\<close>

text \<open>Writing and discarding never replaces the channel, and never opens it again.\<close>

lemma closed_iff_unblocked:
  "el_inv el \<Longrightarrow> chan_closed el (GetLocationsChangedWakeup el) \<longleftrightarrow> \<not> isBlocking (fst (locationsChangedWakeup el))"
  by (cases "locationsChangedWakeup el") (auto simp: chan_closed_def GetLocationsChangedWakeup_def el_inv_def nc_inv_def)

lemma discard_wakeup:
  assumes "el_inv el" "p_DiscardUpToLocation el location = Inr el'"
  shows "GetLocationsChangedWakeup el' = GetLocationsChangedWakeup el
    \<and> (minimumLocation el < location \<or> \<not> isBlocking (fst (locationsChangedWakeup el))
        \<longrightarrow> \<not> isBlocking (fst (locationsChangedWakeup el')))"
proof -
  obtain n where "nc_unblock (locationsChangedWakeup el) = Inr n" "\<not> isBlocking (fst n)"
    "channel (fst n) = channel (fst (locationsChangedWakeup el))"
    by (rule nc_unblock_inv [of "locationsChangedWakeup el"]) (use assms(1) in \<open>auto simp: el_inv_def\<close>)
  then show ?thesis using assms(2)
    by (auto simp: p_DiscardUpToLocation_def wakeup_unblock_def GetLocationsChangedWakeup_def split: if_splits)
qed

lemma finalize_wakeup:
  assumes "el_inv el" "p_FinalizeWriteUpToLocation rng el location = (err, el')"
  shows "GetLocationsChangedWakeup el' = GetLocationsChangedWakeup el
    \<and> (\<not> closedForWriting el \<and> makes_progress el location \<or> \<not> isBlocking (fst (locationsChangedWakeup el))
        \<longrightarrow> \<not> isBlocking (fst (locationsChangedWakeup el')))"
proof (cases "\<not> closedForWriting el \<and> makes_progress el location")
  case True
  then obtain el1 where "p_FinalizeWriteUpToLocation rng el location = (None, el1)"
    "\<not> isBlocking (fst (locationsChangedWakeup el1))" "GetLocationsChangedWakeup el1 = GetLocationsChangedWakeup el"
    using p_Finalize_progress [OF assms(1), of location rng] by metis
  then show ?thesis using assms(2) by simp
next
  case False
  then have "locationsChangedWakeup el' = locationsChangedWakeup el"
    using assms(2) by (auto simp: p_FinalizeWriteUpToLocation_def makes_progress_def Let_def split: if_splits)
  then show ?thesis using False by (auto simp: GetLocationsChangedWakeup_def)
qed

lemma writes_wakeup:
  assumes "writes rng el el'"
  shows "el_inv el \<Longrightarrow> GetLocationsChangedWakeup el' = GetLocationsChangedWakeup el
    \<and> (\<not> isBlocking (fst (locationsChangedWakeup el)) \<longrightarrow> \<not> isBlocking (fst (locationsChangedWakeup el')))"
  using assms
proof (induction rule: writes.induct)
  case (writes_finalize el el1 l err el2)
  then show ?case using writes_inv finalize_wakeup by metis
next
  case (writes_discard el el1 l el2)
  then show ?case using writes_inv discard_wakeup by metis
qed simp

lemma others_until_wakeup:
  assumes "el_inv el" "only_writes rng env"
  shows "el_inv (others_until env n el) \<and> GetLocationsChangedWakeup (others_until env n el) = GetLocationsChangedWakeup el"
  using others_until_writes [OF assms(2)] writes_inv writes_wakeup assms(1) by blast

lemma others_until_closed:
  assumes "el_inv el" "only_writes rng env" "n \<le> m" "chan_closed (others_until env n el) (GetLocationsChangedWakeup el)"
  shows "chan_closed (others_until env m el) (GetLocationsChangedWakeup el)"
  using assms(3,4)
proof (induction rule: dec_induct)
  case (step m)
  let ?el = "others_until env m el"
  have "writes rng ?el (others_until env (Suc m) el)" using assms(2) by (simp add: only_writes_def)
  then show ?case
    using step others_until_wakeup [OF assms(1,2), of m] others_until_wakeup [OF assms(1,2), of "Suc m"]
      closed_iff_unblocked [of ?el] closed_iff_unblocked [of "others_until env (Suc m) el"] writes_wakeup [of rng ?el]
    by metis
qed simp

lemma others_until_progress:
  assumes "el_inv el" "only_writes rng env"
    and "\<not> closedForWriting (others_until env n el) \<and> makes_progress (others_until env n el) location
          \<and> other_step env n (others_until env n el) = snd (p_FinalizeWriteUpToLocation rng (others_until env n el) location)
        \<or> minimumLocation (others_until env n el) < location
          \<and> p_DiscardUpToLocation (others_until env n el) location = Inr (other_step env n (others_until env n el))"
  shows "chan_closed (others_until env (Suc n) el) (GetLocationsChangedWakeup el)"
  using assms(3) finalize_wakeup [of "others_until env n el" rng location] discard_wakeup [of "others_until env n el" location]
    others_until_wakeup [OF assms(1,2), of n] others_until_wakeup [OF assms(1,2), of "Suc n"]
    closed_iff_unblocked [of "others_until env (Suc n) el"]
  by (cases "p_FinalizeWriteUpToLocation rng (others_until env n el) location") auto

text \<open>
  Failures of the data syncer and of the state store are transient: the world admits only so many of them
  in a row.
\<close>

definition transient_failures :: "'w PeriodicSyncer \<Rightarrow> ('w \<Rightarrow> nat) \<Rightarrow> bool" where
  "transient_failures ps budget \<longleftrightarrow>
     (\<forall>w err w'. dataSyncer ps w = (Some err, w') \<longrightarrow> budget (logErrorAndSleep ps w' err) < budget w)
   \<and> (\<forall>w s err w'. store_Write ps w s = (Some err, w') \<longrightarrow> budget (logErrorAndSleep ps w' err) < budget w)"

lemma transient_failures_time [simp]:
  "transient_failures (ps\<lparr>lastSynchronizationTime := time\<rparr>) budget = transient_failures ps budget"
  by (simp add: transient_failures_def logErrorAndSleep_def)

lemma notifyAndSyncDataLocked_returns:
  assumes "transient_failures ps budget"
  shows "\<exists>el' w'. notifyAndSyncDataLocked ps final others (el, w) = Some (el', w')"
  using retry_returns [of "dataSyncer ps" budget "logErrorAndSleep ps" w] assms
  by (auto simp: notifyAndSyncDataLocked_def transient_failures_def Let_def)

lemma writePersistentStateRetrying_returns:
  assumes "transient_failures ps budget"
  shows "\<exists>el' w'. writePersistentStateRetrying ps others (el, w) = Some (el', w')"
proof -
  have "\<exists>x. writePersistentStateRetrying ps others (el, w) = Some x"
    unfolding writePersistentStateRetrying_def
    by (rule retry_returns [where budget = "\<lambda>(el, w). budget w"])
      (use assms in \<open>auto simp: transient_failures_def writePersistentState_def split: prod.splits\<close>)
  then show ?thesis by auto
qed

lemma ProcessLocationsChanged_returns_iff:
  assumes "transient_failures ps budget"
  shows "(\<exists>r. ProcessLocationsChanged ps env (el, w) = Some r) \<longleftrightarrow> (\<exists>r. wait_for_interval ps env el w = Some r)"
proof (cases "wait_for_interval ps env el w")
  case (Some r)
  obtain fired el0 where r: "r = (fired, el0)" by force
  define ps' where "ps' = (case fired of None \<Rightarrow> ps | Some time \<Rightarrow> ps\<lparr>lastSynchronizationTime := time\<rparr>)"
  have t: "transient_failures ps' budget" using assms by (simp add: ps'_def split: option.split)
  obtain el1 w1 where e1: "notifyAndSyncDataLocked ps' False (while_syncing env) (before_locking env el0, w) = Some (el1, w1)"
    using notifyAndSyncDataLocked_returns [OF t] by blast
  obtain el2 w2 where e2: "notifyAndSyncDataLocked ps' True (while_syncing_finally env) (el1, w1) = Some (el2, w2)"
    using notifyAndSyncDataLocked_returns [OF t] by blast
  obtain el3 w3 where e3: "(if fired \<noteq> None then Some (el1, w1)
      else notifyAndSyncDataLocked ps' True (while_syncing_finally env) (el1, w1)) = Some (el3, w3)"
    using e2 by (cases fired) auto
  obtain el4 w4 where "writePersistentStateRetrying ps' (while_retrying env) (before_writing env el3, w3) = Some (el4, w4)"
    using writePersistentStateRetrying_returns [OF t] by blast
  then have "ProcessLocationsChanged ps env (el, w) = Some (fired \<noteq> None, ps', el4, w4)"
    unfolding ProcessLocationsChanged_def prod.case Some r option.case Let_def ps'_def [symmetric] e1 e3 by simp
  then show ?thesis using Some by blast
qed (simp add: ProcessLocationsChanged_def)

lemma ProcessLocationsChanged_keepGoing:
  assumes "ProcessLocationsChanged ps env (el, w) = Some (keepGoing, ps', el', w')"
  shows "\<exists>fired el0. wait_for_interval ps env el w = Some (fired, el0) \<and> keepGoing = (fired \<noteq> None)"
  using assms by (auto simp: ProcessLocationsChanged_def Let_def split: option.splits if_splits prod.splits)

text \<open>
  C32. When a call of \<open>ProcessLocationsChanged\<close> returns. Let other goroutines only write and discard objects, and
  let failures of the data syncer and of the state store be transient. Then the call returns if the
  context is cancelled at some point or the channel that was handed out at its start is closed at some
  point, and blocks forever otherwise. The channel is closed by every accepted write that raises the maximum
  location and by every discard that raises the minimum location, however late they come. If the context
  is never cancelled and the call returns, it asks to be called again.
\<close>

theorem process_locations_changed_returns:
  assumes "el_inv el" "only_writes rng env" "transient_failures ps budget"
  shows "((\<exists>r. ProcessLocationsChanged ps env (el, w) = Some r) \<longleftrightarrow>
      cancelled_after env \<noteq> None \<or> (\<exists>n. chan_closed (others_until env n el) (GetLocationsChangedWakeup el)))
    \<and> (\<forall>n location el_n. el_n = others_until env n el
        \<and> (\<not> closedForWriting el_n \<and> makes_progress el_n location
             \<and> other_step env n el_n = snd (p_FinalizeWriteUpToLocation rng el_n location)
           \<or> minimumLocation el_n < location \<and> p_DiscardUpToLocation el_n location = Inr (other_step env n el_n))
        \<longrightarrow> (\<exists>r. ProcessLocationsChanged ps env (el, w) = Some r))
    \<and> (\<forall>keepGoing ps' el' w'. cancelled_after env = None
        \<and> ProcessLocationsChanged ps env (el, w) = Some (keepGoing, ps', el', w') \<longrightarrow> keepGoing)"
proof -
  let ?ch = "GetLocationsChangedWakeup el"
  have iff: "(\<exists>r. ProcessLocationsChanged ps env (el, w) = Some r) \<longleftrightarrow>
      cancelled_after env \<noteq> None \<or> (\<exists>n. chan_closed (others_until env n el) ?ch)"
  proof (unfold ProcessLocationsChanged_returns_iff [OF assms(3)], intro iffI; (elim disjE exE)?)
    fix r
    assume "wait_for_interval ps env el w = Some r"
    moreover obtain fired el' where "r = (fired, el')" by force
    ultimately show "cancelled_after env \<noteq> None \<or> (\<exists>n. chan_closed (others_until env n el) ?ch)"
      using wait_for_interval_result [of ps env el w fired el'] by (cases fired) auto
  next
    assume "cancelled_after env \<noteq> None"
    then obtain k where "cancelled_after env = Some k" by auto
    then show "\<exists>r. wait_for_interval ps env el w = Some r"
      by (intro wait_for_interval_returns [of _ "max k (before_select env)"]) (auto simp: ctx_done_def)
  next
    fix n
    assume "chan_closed (others_until env n el) ?ch"
    then show "\<exists>r. wait_for_interval ps env el w = Some r"
      using others_until_closed [OF assms(1,2), of n "max n (before_select env)"]
      by (intro wait_for_interval_returns [of _ "max n (before_select env)"]) auto
  qed
  moreover have "\<exists>n. chan_closed (others_until env n el) ?ch" if "el_n = others_until env n el"
    "\<not> closedForWriting el_n \<and> makes_progress el_n location
       \<and> other_step env n el_n = snd (p_FinalizeWriteUpToLocation rng el_n location)
     \<or> minimumLocation el_n < location \<and> p_DiscardUpToLocation el_n location = Inr (other_step env n el_n)"
    for n location el_n
    using others_until_progress [OF assms(1,2)] that by blast
  moreover have "keepGoing" if "cancelled_after env = None"
    "ProcessLocationsChanged ps env (el, w) = Some (keepGoing, ps', el', w')" for keepGoing ps' el' w'
    using that(1) ProcessLocationsChanged_keepGoing [OF that(2)] by (auto dest: wait_for_interval_result)
  ultimately show ?thesis by blast
qed

section \<open>The file that holds the state\<close>

text \<open>
  \<open>filesystem.Directory\<close> and its files, as functions on the state of the directory. \<open>is_not_exist\<close> is
  \<open>os.IsNotExist\<close>; \<open>Marshal\<close> and \<open>Unmarshal\<close> are the Protobuf codec.
\<close>

record ('d, 'f) Directory =
  OpenRead :: "'d \<Rightarrow> string \<Rightarrow> 'f result"
  ReadAll :: "'d \<Rightarrow> 'f \<Rightarrow> bytes result"
  Remove :: "'d \<Rightarrow> string \<Rightarrow> go_error option \<times> 'd"
  OpenAppendExcl :: "'d \<Rightarrow> string \<Rightarrow> 'f result \<times> 'd"
  file_Write :: "'d \<Rightarrow> 'f \<Rightarrow> bytes \<Rightarrow> go_error option \<times> 'd"
  file_Sync :: "'d \<Rightarrow> 'f \<Rightarrow> go_error option \<times> 'd"
  file_Close :: "'d \<Rightarrow> 'f \<Rightarrow> go_error option \<times> 'd"
  Rename :: "'d \<Rightarrow> string \<Rightarrow> string \<Rightarrow> go_error option \<times> 'd"
  dir_Sync :: "'d \<Rightarrow> go_error option \<times> 'd"
  is_not_exist :: "go_error \<Rightarrow> bool"

record Codec =
  Marshal :: "PersistentState \<Rightarrow> bytes result"
  Unmarshal :: "bytes \<Rightarrow> PersistentState result"

definition componentState :: string where
  "componentState = ''state''"

definition componentStateNew :: string where
  "componentStateNew = ''state.new''"

text \<open>\<open>newPersistentState\<close>, with the random number it draws as an argument.\<close>

definition newPersistentState :: "uint64 \<Rightarrow> PersistentState" where
  "newPersistentState random = \<lparr>MinimumEpochId = 1, MinimumLocation_pb = 0, Epochs = [],
     ReferenceLocationMapHashInitialization = random\<rparr>"

definition ReadPersistentState ::
  "('d, 'f) Directory \<Rightarrow> Codec \<Rightarrow> uint64 \<Rightarrow> 'd \<Rightarrow> PersistentState result" where
  "ReadPersistentState dir codec random d =
     (case OpenRead dir d componentState of
        Inl err \<Rightarrow> if is_not_exist dir err then Inr (newPersistentState random) else Inl (Status Internal)
      | Inr f \<Rightarrow>
          case ReadAll dir d f of
            Inl err \<Rightarrow> Inl (Status Internal)
          | Inr data \<Rightarrow>
              case Unmarshal codec data of
                Inl err \<Rightarrow> Inr (newPersistentState random)
              | Inr state \<Rightarrow> Inr state)"

text \<open>One step of the write: its error ends the function.\<close>

definition and_then :: "go_error option \<times> 'd \<Rightarrow> ('d \<Rightarrow> go_error option \<times> 'd) \<Rightarrow> go_error option \<times> 'd" where
  "and_then r k = (case r of (Some err, d) \<Rightarrow> (Some (Status Internal), d) | (None, d) \<Rightarrow> k d)"

text \<open>A step that closes the file if it fails; the error of that is ignored.\<close>

definition or_close ::
  "('d, 'f) Directory \<Rightarrow> 'f \<Rightarrow> go_error option \<times> 'd \<Rightarrow> go_error option \<times> 'd" where
  "or_close dir f r = (case r of (Some err, d) \<Rightarrow> (Some err, snd (file_Close dir d f)) | (None, d) \<Rightarrow> (None, d))"

definition WritePersistentState ::
  "('d, 'f) Directory \<Rightarrow> Codec \<Rightarrow> 'd \<Rightarrow> PersistentState \<Rightarrow> go_error option \<times> 'd" where
  "WritePersistentState dir codec d persistentState =
     (case Marshal codec persistentState of
        Inl err \<Rightarrow> (Some (Status Internal), d)
      | Inr data \<Rightarrow>
          and_then
            (case Remove dir d componentStateNew of
               (Some err, d) \<Rightarrow> (if is_not_exist dir err then None else Some err, d)
             | (None, d) \<Rightarrow> (None, d)) (\<lambda>d.
          case OpenAppendExcl dir d componentStateNew of
            (Inl err, d) \<Rightarrow> (Some (Status Internal), d)
          | (Inr f, d) \<Rightarrow>
              and_then (or_close dir f (file_Write dir d f data)) (\<lambda>d.
              and_then (or_close dir f (file_Sync dir d f)) (\<lambda>d.
              and_then (file_Close dir d f) (\<lambda>d.
              and_then (Rename dir d componentStateNew componentState) (\<lambda>d.
              and_then (dir_Sync dir d) (\<lambda>d. (None, d))))))))"

text \<open>
  What is relied on: an operation on one file leaves the others alone, a successful write appends,
  renaming replaces the target or does nothing, and reading yields the contents.
\<close>

definition directory_laws :: "('d, 'f) Directory \<Rightarrow> ('d \<Rightarrow> string \<Rightarrow> bytes option) \<Rightarrow> ('f \<Rightarrow> string) \<Rightarrow> bool" where
  "directory_laws dir file_of name_of \<longleftrightarrow>
     (\<forall>d n d' e m. Remove dir d n = (e, d') \<longrightarrow> m \<noteq> n \<longrightarrow> file_of d' m = file_of d m)
   \<and> (\<forall>d n d' r m. OpenAppendExcl dir d n = (r, d') \<longrightarrow> m \<noteq> n \<longrightarrow> file_of d' m = file_of d m)
   \<and> (\<forall>d n d' f. OpenAppendExcl dir d n = (Inr f, d') \<longrightarrow> name_of f = n \<and> file_of d' n = Some [])
   \<and> (\<forall>d f x d' e m. file_Write dir d f x = (e, d') \<longrightarrow> m \<noteq> name_of f \<longrightarrow> file_of d' m = file_of d m)
   \<and> (\<forall>d f x y d'. file_Write dir d f x = (None, d') \<longrightarrow> file_of d (name_of f) = Some y \<longrightarrow>
        file_of d' (name_of f) = Some (y @ x))
   \<and> (\<forall>d f d' e. file_Sync dir d f = (e, d') \<longrightarrow> file_of d' = file_of d)
   \<and> (\<forall>d f d' e. file_Close dir d f = (e, d') \<longrightarrow> file_of d' = file_of d)
   \<and> (\<forall>d d' e. dir_Sync dir d = (e, d') \<longrightarrow> file_of d' = file_of d)
   \<and> (\<forall>d m n d'. Rename dir d m n = (None, d') \<longrightarrow> file_of d' n = file_of d m)
   \<and> (\<forall>d m n d' e. Rename dir d m n = (Some e, d') \<longrightarrow> file_of d' = file_of d)
   \<and> (\<forall>d n f x. OpenRead dir d n = Inr f \<longrightarrow> ReadAll dir d f = Inr x \<longrightarrow> file_of d n = Some x)
   \<and> (\<forall>d n e. OpenRead dir d n = Inl e \<longrightarrow> is_not_exist dir e \<longrightarrow> file_of d n = None)"

lemma and_then_cases:
  assumes "and_then r k = (e, d')"
  obtains (failed) err where "r = (Some err, d')" "e = Some (Status Internal)"
    | (next_step) d where "r = (None, d)" "k d = (e, d')"
  using assms by (cases r; cases "fst r") (auto simp: and_then_def)

lemma directory_lawsD:
  assumes "directory_laws dir file_of name_of"
  shows law_remove: "\<And>d n d' e m. Remove dir d n = (e, d') \<Longrightarrow> m \<noteq> n \<Longrightarrow> file_of d' m = file_of d m"
    and law_open: "\<And>d n d' r m. OpenAppendExcl dir d n = (r, d') \<Longrightarrow> m \<noteq> n \<Longrightarrow> file_of d' m = file_of d m"
    and law_create: "\<And>d n d' f. OpenAppendExcl dir d n = (Inr f, d') \<Longrightarrow> name_of f = n \<and> file_of d' n = Some []"
    and law_write: "\<And>d f x d' e m. file_Write dir d f x = (e, d') \<Longrightarrow> m \<noteq> name_of f \<Longrightarrow> file_of d' m = file_of d m"
    and law_append: "\<And>d f x y d'. file_Write dir d f x = (None, d') \<Longrightarrow> file_of d (name_of f) = Some y \<Longrightarrow>
      file_of d' (name_of f) = Some (y @ x)"
    and law_sync: "\<And>d f d' e. file_Sync dir d f = (e, d') \<Longrightarrow> file_of d' = file_of d"
    and law_close: "\<And>d f d' e. file_Close dir d f = (e, d') \<Longrightarrow> file_of d' = file_of d"
    and law_dir_sync: "\<And>d d' e. dir_Sync dir d = (e, d') \<Longrightarrow> file_of d' = file_of d"
    and law_rename: "\<And>d m n d'. Rename dir d m n = (None, d') \<Longrightarrow> file_of d' n = file_of d m"
    and law_rename_failed: "\<And>d m n d' e. Rename dir d m n = (Some e, d') \<Longrightarrow> file_of d' = file_of d"
    and law_read: "\<And>d n f x. OpenRead dir d n = Inr f \<Longrightarrow> ReadAll dir d f = Inr x \<Longrightarrow> file_of d n = Some x"
    and law_absent: "\<And>d n e. OpenRead dir d n = Inl e \<Longrightarrow> is_not_exist dir e \<Longrightarrow> file_of d n = None"
  using assms unfolding directory_laws_def by meson+

lemma or_close_file_of:
  assumes "directory_laws dir file_of name_of" "or_close dir f r = (e, d)"
  shows "file_of d = file_of (snd r)" "e = fst r"
proof -
  have "file_of (snd (file_Close dir d f)) = file_of d" for d f
    using law_close [OF assms(1)] by (metis prod.collapse)
  then show "file_of d = file_of (snd r)" "e = fst r"
    using assms(2) by (cases r; cases "fst r"; auto simp: or_close_def)+
qed

text \<open>The part of the write that follows the creation of the temporary file.\<close>

lemma write_temporary:
  assumes laws: "directory_laws dir file_of name_of"
    and f: "name_of f = componentStateNew" "file_of d componentStateNew = Some []"
    and w: "and_then (or_close dir f (file_Write dir d f data)) (\<lambda>d.
              and_then (or_close dir f (file_Sync dir d f)) (\<lambda>d.
              and_then (file_Close dir d f) (\<lambda>d.
              and_then (Rename dir d componentStateNew componentState) (\<lambda>d.
              and_then (dir_Sync dir d) (\<lambda>d. (None, d)))))) = (err, d')"
  shows "file_of d' componentState = Some data
    \<or> err \<noteq> None \<and> file_of d' componentState = file_of d componentState"
proof -
  have ne: "componentState \<noteq> componentStateNew" by (simp add: componentState_def componentStateNew_def)
  have wr: "file_of d1 componentState = file_of d componentState"
    "e1 = None \<Longrightarrow> file_of d1 componentStateNew = Some data"
    if oc: "or_close dir f (file_Write dir d f data) = (e1, d1)" for e1 d1
  proof -
    obtain d0 where "file_Write dir d f data = (e1, d0)" "file_of d1 = file_of d0"
      using or_close_file_of [OF laws oc] by (cases "file_Write dir d f data") auto
    then show "file_of d1 componentState = file_of d componentState"
      "e1 = None \<Longrightarrow> file_of d1 componentStateNew = Some data"
      using law_write [OF laws, of d f data e1 d0 componentState] law_append [OF laws, of d f data d0 "[]"] f ne by auto
  qed
  have sy: "file_of d2 = file_of d1" if "or_close dir f (file_Sync dir d1 f) = (e2, d2)" for d1 d2 e2
    using or_close_file_of(1) [OF laws that] law_sync [OF laws, of d1 f "fst (file_Sync dir d1 f)"] by simp
  show ?thesis
    using w
  proof (cases rule: and_then_cases)
    case (failed e)
    then show ?thesis using wr by simp
  next
    case (next_step d1)
    note d1 = wr [OF next_step(1)]
    from next_step(2) show ?thesis
    proof (cases rule: and_then_cases)
      case (failed e)
      then show ?thesis using sy d1 by simp
    next
      case (next_step d2)
      note d2 = sy [OF next_step(1)]
      from next_step(2) show ?thesis
      proof (cases rule: and_then_cases)
        case (failed e)
        then show ?thesis using law_close [OF laws] d1 d2 by simp
      next
        case (next_step d3)
        note d3 = law_close [OF laws next_step(1)]
        from next_step(2) show ?thesis
        proof (cases rule: and_then_cases)
          case (failed e)
          then show ?thesis using law_rename_failed [OF laws] d1 d2 d3 by simp
        next
          case (next_step d4)
          then show ?thesis using law_rename [OF laws next_step(1)] law_dir_sync [OF laws] d1 d2 d3
            by (auto elim: and_then_cases)
        qed
      qed
    qed
  qed
qed

text \<open>
  C33. The state file is replaced atomically: whichever operation of the directory fails, the file holds
  either the previous state or the complete new one, and the new one if no error is returned. A
  subsequent \<open>ReadPersistentState\<close> that succeeds then returns the state that was written.
\<close>

theorem persistent_state_file_atomic:
  assumes laws: "directory_laws dir file_of name_of"
    and "Marshal codec s = Inr data" "Unmarshal codec data = Inr s"
    and "WritePersistentState dir codec d s = (err, d')"
  shows "(file_of d' componentState = Some data \<or> file_of d' componentState = file_of d componentState)
    \<and> (err = None \<longrightarrow> file_of d' componentState = Some data
        \<and> (\<forall>s'. ReadPersistentState dir codec random d' = Inr s' \<longrightarrow> s' = s))"
proof -
  have ne: "componentState \<noteq> componentStateNew" by (simp add: componentState_def componentStateNew_def)
  obtain e0 d0 where r: "Remove dir d componentStateNew = (e0, d0)" by fastforce
  obtain f d1 where o: "OpenAppendExcl dir d0 componentStateNew = (f, d1)" by fastforce
  have same: "file_of d0 componentState = file_of d componentState" "file_of d1 componentState = file_of d componentState"
    using law_remove [OF laws r ne] law_open [OF laws o ne] by auto
  have "file_of d' componentState = Some data \<or> err \<noteq> None \<and> file_of d' componentState = file_of d componentState"
  proof (cases "e0 = None \<or> is_not_exist dir (the e0)")
    case False
    then show ?thesis using assms(2,4) r same(1) by (auto simp: WritePersistentState_def and_then_def)
  next
    case ok: True
    show ?thesis
    proof (cases f)
      case (Inl e)
      then show ?thesis using assms(2,4) r o same ok
        by (cases e0) (auto simp: WritePersistentState_def and_then_def)
    next
      case (Inr h)
      note c = law_create [OF laws o [unfolded Inr]]
      show ?thesis
        using write_temporary [OF laws, of h d1 data err d'] c assms(2,4) r o same ok Inr
        by (cases e0) (auto simp: WritePersistentState_def and_then_def [of "(None, d0)"])
    qed
  qed
  moreover have "s' = s" if "file_of d' componentState = Some data" "ReadPersistentState dir codec random d' = Inr s'" for s'
    using that assms(3) law_read [OF laws, of d' componentState] law_absent [OF laws, of d' componentState]
    by (auto simp: ReadPersistentState_def split: sum.splits if_splits)
  ultimately show ?thesis by blast
qed

section \<open>Concrete instances\<close>

text \<open>A world that records the states that were written, and other goroutines that write an object.\<close>

definition example_syncer :: "PersistentState list PeriodicSyncer" where
  "example_syncer = NewPeriodicSyncer (\<lambda>w s. (None, s # w)) (\<lambda>w. 0) (\<lambda>w e. w) (\<lambda>w t. w) 10 300 42 (\<lambda>w. (None, w)) []"

definition example_write :: "nat PersistentEpochList \<Rightarrow> nat PersistentEpochList" where
  "example_write el = snd (p_FinalizeWriteUpToLocation example_rng el 50)"

definition example_env :: "(nat \<Rightarrow> nat PersistentEpochList \<Rightarrow> nat PersistentEpochList) \<Rightarrow> nat option \<Rightarrow> nat surroundings" where
  "example_env step cancelled = \<lparr>other_step = step, cancelled_after = cancelled, before_select = 1,
     prefers_done = (\<lambda>n. False), timer = (\<lambda>d. (2, d)), before_locking = example_write, while_syncing = example_write,
     while_syncing_finally = example_write, before_writing = example_write, while_retrying = example_write\<rparr>"

text \<open>Other goroutines that do nothing, and ones that write an object in the fourth step.\<close>

definition idle_step :: "nat \<Rightarrow> nat PersistentEpochList \<Rightarrow> nat PersistentEpochList" where
  "idle_step n el = el"

definition late_step :: "nat \<Rightarrow> nat PersistentEpochList \<Rightarrow> nat PersistentEpochList" where
  "late_step n el = (if n = 3 then example_write el else el)"

lemma example_write_writes: "writes example_rng el (example_write el)"
  using writes_finalize [OF writes_none, of example_rng el 50 "fst (p_FinalizeWriteUpToLocation example_rng el 50)"]
  by (simp add: example_write_def)

lemma example_env_writes:
  "only_writes example_rng (example_env idle_step cancelled)" "only_writes example_rng (example_env late_step cancelled)"
  by (auto simp: only_writes_def example_env_def idle_step_def late_step_def example_write_writes writes_none)

lemma example_retry [simp]:
  "retry (dataSyncer example_syncer) (logErrorAndSleep example_syncer) w = Some w"
  by (subst retry.simps) (simp add: example_syncer_def NewPeriodicSyncer_def)

theorem persisted_epochs_synchronized_witness:
  "(\<exists>w0. dataSyncer example_syncer w0 = (None, []))
   \<and> (\<exists>j < length (epochs example_list). 1 + of_nat 0 = minimumEpochID example_list + of_nat j
        \<and> epochs (NotifySyncCompleted (example_write (NotifySyncStarting example_list False))) ! 0 = epochs example_list ! j
        \<and> pb_HashSeed ([\<lparr>pb_HashSeed = 7, pb_LocationIncrease = 20\<rparr>] ! 0) = hashSeed (epochs example_list ! j))"
proof -
  let ?el = "NotifySyncCompleted (example_write (NotifySyncStarting example_list False))"
  have "notifyAndSyncDataLocked example_syncer False example_write (example_list, []) = Some (?el, [])"
    by (simp add: notifyAndSyncDataLocked_def)
  moreover have "GetPersistentState ?el = (1, 0, [\<lparr>pb_HashSeed = 7, pb_LocationIncrease = 20\<rparr>])" by code_simp
  ultimately show ?thesis
    using persisted_epochs_synchronized [OF el_reachable_inv [OF example_list_reachable], of example_syncer False
        example_write "[]" ?el "[]" example_rng 1 0 "[\<lparr>pb_HashSeed = 7, pb_LocationIncrease = 20\<rparr>]" 0]
      example_write_writes by simp
qed

lemma example_transient: "transient_failures example_syncer (\<lambda>w. 0)"
  by (simp add: transient_failures_def example_syncer_def NewPeriodicSyncer_def)

lemma example_idle: "others_until (example_env idle_step cancelled) n el = el"
  by (induction n) (simp_all add: example_env_def idle_step_def)

lemma example_open: "\<not> chan_closed example_list (GetLocationsChangedWakeup example_list)"
  by code_simp

theorem shutdown_persists_everything_witness:
  "\<exists>ps' el' w'. ProcessLocationsChanged example_syncer (example_env idle_step (Some 5)) (example_list, []) = Some (False, ps', el', w')
     \<and> closedForWriting el' \<and> synchronizedEpochs el' = length (epochs el')"
proof -
  let ?env = "example_env idle_step (Some 5)"
  have "\<exists>r. ProcessLocationsChanged example_syncer ?env (example_list, []) = Some r"
    unfolding ProcessLocationsChanged_returns_iff [OF example_transient]
    by (rule wait_for_interval_returns [of _ 5]) (simp_all add: ctx_done_def example_env_def)
  then obtain keepGoing ps' el' w' where e: "ProcessLocationsChanged example_syncer ?env (example_list, []) = Some (keepGoing, ps', el', w')"
    by auto
  have "\<not> keepGoing"
    using ProcessLocationsChanged_keepGoing [OF e] wait_for_interval_result example_idle example_open by metis
  with e have e: "ProcessLocationsChanged example_syncer ?env (example_list, []) = Some (False, ps', el', w')" by simp
  show ?thesis
    using shutdown_persists_everything [OF e el_reachable_inv [OF example_list_reachable] example_env_writes(1)] e by blast
qed

text \<open>A write that comes late ends the wait; if nothing ever happens, the call does not return.\<close>

theorem process_locations_changed_returns_witness:
  "(\<exists>r. ProcessLocationsChanged example_syncer (example_env late_step None) (example_list, []) = Some r)
   \<and> ProcessLocationsChanged example_syncer (example_env idle_step None) (example_list, []) = None"
proof -
  note inv = el_reachable_inv [OF example_list_reachable]
  have "others_until (example_env late_step None) 3 example_list = example_list"
    by (simp add: eval_nat_numeral example_env_def late_step_def)
  moreover have "makes_progress example_list 50" "\<not> closedForWriting example_list" by code_simp+
  ultimately have late: "\<exists>r. ProcessLocationsChanged example_syncer (example_env late_step None) (example_list, []) = Some r"
    by (intro process_locations_changed_returns [OF inv example_env_writes(2) example_transient,
          THEN conjunct2, THEN conjunct1, rule_format, of example_list None 3 50])
      (simp add: example_env_def late_step_def example_write_def)
  have "cancelled_after (example_env idle_step None) = None" by (simp add: example_env_def)
  then have "\<not> (\<exists>r. ProcessLocationsChanged example_syncer (example_env idle_step None) (example_list, []) = Some r)"
    by (subst process_locations_changed_returns [OF inv example_env_writes(1) example_transient, THEN conjunct1])
      (simp add: example_idle example_open)
  with late show ?thesis using not_None_eq by blast
qed

text \<open>A directory held in memory.\<close>

definition example_directory :: "(string \<Rightarrow> bytes option, string) Directory" where
  "example_directory =
     \<lparr>OpenRead = (\<lambda>d n. case d n of None \<Rightarrow> Inl (ErrOther 0) | Some x \<Rightarrow> Inr n),
      ReadAll = (\<lambda>d n. case d n of None \<Rightarrow> Inl (ErrOther 1) | Some x \<Rightarrow> Inr x),
      Remove = (\<lambda>d n. (if d n = None then Some (ErrOther 0) else None, d(n := None))),
      OpenAppendExcl = (\<lambda>d n. if d n = None then (Inr n, d(n \<mapsto> [])) else (Inl (ErrOther 2), d)),
      file_Write = (\<lambda>d n x. case d n of None \<Rightarrow> (Some (ErrOther 1), d) | Some y \<Rightarrow> (None, d(n \<mapsto> y @ x))),
      file_Sync = (\<lambda>d n. (None, d)), file_Close = (\<lambda>d n. (None, d)),
      Rename = (\<lambda>d m n. (None, (d(m := None))(n := d m))), dir_Sync = (\<lambda>d. (None, d)),
      is_not_exist = (\<lambda>e. e = ErrOther 0)\<rparr>"

lemma example_directory_laws: "directory_laws example_directory (\<lambda>d. d) (\<lambda>f. f)"
  by (auto simp: directory_laws_def example_directory_def split: option.splits if_splits)

definition example_codec :: Codec where
  "example_codec = \<lparr>Marshal = (\<lambda>s. Inr [1]), Unmarshal = (\<lambda>x. Inr (newPersistentState 5))\<rparr>"

theorem persistent_state_file_atomic_witness:
  "\<exists>d'. WritePersistentState example_directory example_codec Map.empty (newPersistentState 5) = (None, d')
     \<and> d' componentState = Some [1]"
proof -
  obtain err d' where w: "WritePersistentState example_directory example_codec Map.empty (newPersistentState 5) = (err, d')"
    by fastforce
  moreover have "err = None"
    using w by (auto simp: WritePersistentState_def example_codec_def example_directory_def and_then_def or_close_def)
  ultimately show ?thesis
    using persistent_state_file_atomic [OF example_directory_laws _ _ w, of "[1]"] by (auto simp: example_codec_def)
qed

end
