(* ===== verification/Location_Blob_Map.thy ===== *)
theory Location_Blob_Map
  imports Prelude
begin

text \<open>
  The location-blob maps of \<open>pkg/storage/object/local\<close>: ring buffers that hold the contents of objects,
  in memory or on a block device. The locale \<open>location_blob_map\<close> is what the store relies on; both
  implementations are interpretations of it. The block device is third party code: a parameter,
  whose behaviour is the predicate \<open>block_device\<close>.
\<close>

section \<open>The interface\<close>

record 'b LocationBlobMap =
  lbm_Get :: "'b \<Rightarrow> uint64 \<Rightarrow> nat \<Rightarrow> bytes result"
  lbm_Put :: "'b \<Rightarrow> bytes \<Rightarrow> uint64 result \<times> 'b"
  lbm_GetNextPutLocation :: "'b \<Rightarrow> uint64"

definition allocateLocation :: "uint64 \<Rightarrow> nat \<Rightarrow> uint64 \<times> uint64" where
  "allocateLocation nextLocation sizeBytes =
     (let (newNextLocation, carryOut) = bits_Add64 nextLocation (of_nat sizeBytes) 0
      in if carryOut = 0 then (nextLocation, newNextLocation) else (0, of_nat sizeBytes))"

text \<open>An allocated range never crosses the end of the location space.\<close>

lemma allocateLocation_range:
  assumes "n < 2 ^ 64" "allocateLocation next n = (loc, next')"
  shows "unat next' = unat loc + n" "loc = next \<or> loc = 0" "unat next + n < 2 ^ 64 \<Longrightarrow> loc = next"
proof -
  have n: "unat (of_nat n :: uint64) = n" using assms(1) by (simp add: unat_of_nat take_bit_nat_eq_self)
  show "unat next' = unat loc + n" "loc = next \<or> loc = 0" "unat next + n < 2 ^ 64 \<Longrightarrow> loc = next"
    using assms(2) n unat_plus_no_carry [of "next" "of_nat n"]
    by (auto simp: allocateLocation_def bits_Add64_def split: if_splits)
qed

section \<open>Ring buffers\<close>

text \<open>
  \<open>ring_written d d' loc blob pad\<close>: \<open>d'\<close> is the ring \<open>d\<close> with \<open>blob\<close> at location \<open>loc\<close>; the
  \<open>pad\<close> bytes that follow may have any value, all others are unchanged.
\<close>

definition ring_read :: "bytes \<Rightarrow> nat \<Rightarrow> nat \<Rightarrow> bytes" where
  "ring_read d loc n = map (\<lambda>i. d ! ((loc + i) mod length d)) [0..<n]"

definition ring_written :: "bytes \<Rightarrow> bytes \<Rightarrow> nat \<Rightarrow> bytes \<Rightarrow> nat \<Rightarrow> bool" where
  "ring_written d d' loc blob pad \<longleftrightarrow> length d' = length d
     \<and> (\<forall>i < length blob. d' ! ((loc + i) mod length d) = blob ! i)
     \<and> (\<forall>k < length d. (\<forall>i < length blob + pad. (loc + i) mod length d \<noteq> k) \<longrightarrow> d' ! k = d ! k)"

lemma length_ring_read [simp]: "length (ring_read d loc n) = n"
  by (simp add: ring_read_def)

lemma mod_add_inj:
  assumes "(loc + i) mod N = (loc + j) mod N" "i < N" "j < N"
  shows "i = (j :: nat)"
proof -
  have *: "a = b" if "(loc + a) mod N = (loc + b) mod N" "a \<le> b" "b < N" for a b :: nat
  proof -
    have "N dvd (loc + b) - (loc + a)"
      using that(1,2) mod_eq_dvd_iff_nat [of "loc + a" "loc + b" N] by (simp add: eq_commute)
    then show ?thesis using that(2,3) by (simp add: nat_dvd_not_less) (metis dvd_imp_le le_neq_implies_less less_imp_diff_less not_less zero_less_diff)
  qed
  show ?thesis using *[of i j] *[of j i] assms by (cases "i \<le> j") auto
qed

lemma ring_written_cong:
  "loc mod length d = loc' mod length d \<Longrightarrow> ring_written d d' loc blob pad = ring_written d d' loc' blob pad"
  unfolding ring_written_def by (metis mod_add_left_eq)

lemma ring_written_nil: "ring_written d d loc [] pad"
  by (simp add: ring_written_def)

lemma ring_written_append:
  assumes "ring_written d d1 loc b1 0" "ring_written d1 d2 (loc + length b1) b2 pad"
    and "length b1 + length b2 + pad \<le> length d"
  shows "ring_written d d2 loc (b1 @ b2) pad"
proof -
  let ?N = "length d"
  have len: "length d1 = ?N" "length d2 = ?N" using assms(1,2) by (auto simp: ring_written_def)
  have "d2 ! ((loc + i) mod ?N) = (b1 @ b2) ! i" if i: "i < length (b1 @ b2)" for i
  proof (cases "i < length b1")
    case True
    have "(loc + length b1 + j) mod ?N \<noteq> (loc + i) mod ?N" if "j < length b2 + pad" for j
      using mod_add_inj [of loc "length b1 + j" ?N i] that True i assms(3) by (auto simp: add.assoc)
    moreover have "(loc + i) mod ?N < ?N" using True assms(3) by (intro mod_less_divisor) linarith
    ultimately have "d2 ! ((loc + i) mod ?N) = d1 ! ((loc + i) mod ?N)"
      using assms(2) len by (auto simp: ring_written_def)
    then show ?thesis using assms(1) True by (simp add: ring_written_def nth_append)
  next
    case False
    then obtain j where j: "i = length b1 + j" "j < length b2" using i by (auto simp: le_iff_add not_less)
    then show ?thesis using assms(2) len by (simp add: ring_written_def add.assoc)
  qed
  moreover have "d2 ! k = d ! k" if k: "k < ?N" "\<forall>i < length (b1 @ b2) + pad. (loc + i) mod ?N \<noteq> k" for k
  proof -
    have "\<forall>i < length b2 + pad. (loc + length b1 + i) mod ?N \<noteq> k"
      using k(2) by (auto simp: add.assoc)
    then have "d2 ! k = d1 ! k" using assms(2) len k(1) by (simp add: ring_written_def)
    moreover have "d1 ! k = d ! k" using assms(1) k by (auto simp: ring_written_def)
    ultimately show ?thesis by simp
  qed
  ultimately show ?thesis using len by (auto simp: ring_written_def)
qed

text \<open>What was written can be read, and what precedes it at a distance within the ring is unchanged.\<close>

lemma ring_written_read:
  "ring_written d d' loc blob pad \<Longrightarrow> ring_read d' loc (length blob) = blob"
  by (auto simp: ring_written_def ring_read_def intro: nth_equalityI)

lemma ring_written_frame:
  assumes "ring_written d d' loc blob pad" "l + n \<le> loc" "loc + length blob + pad \<le> l + length d"
  shows "ring_read d' l n = ring_read d l n"
proof (rule nth_equalityI)
  fix j assume "j < length (ring_read d' l n)"
  then have j: "j < n" by simp
  let ?N = "length d"
  have N: "0 < ?N" using assms(2,3) j by linarith
  have "(loc + i) mod ?N \<noteq> (l + j) mod ?N" if "i < length blob + pad" for i
  proof -
    have e: "loc + i = l + j + (loc - l - j + i)" using j assms(2) by linarith
    have "0 < loc - l - j + i" "loc - l - j + i < ?N" using j assms(2,3) that by linarith+
    then show ?thesis using mod_add_inj [of "l + j" "loc - l - j + i" ?N 0] N unfolding e by fastforce
  qed
  then have "d' ! ((l + j) mod ?N) = d ! ((l + j) mod ?N)"
    using assms(1) N by (auto simp: ring_written_def)
  then show "ring_read d' l n ! j = ring_read d l n ! j"
    using j assms(1) by (simp add: ring_read_def ring_written_def)
qed simp

text \<open>A contiguous write.\<close>

lemma ring_written_put_bytes:
  assumes "off + length blob \<le> length d" "loc mod length d = off mod length d"
  shows "ring_written d (put_bytes d off blob) loc blob 0"
proof -
  have "ring_written d (put_bytes d off blob) off blob 0"
    using assms(1) by (auto simp: ring_written_def put_bytes_def nth_append not_less dest: spec [of _ "_ - off"])
  then show ?thesis using ring_written_cong [OF assms(2)] by blast
qed

lemma ring_read_contiguous:
  "off + n \<le> length d \<Longrightarrow> ring_read d off n = take n (drop off d)"
  by (rule nth_equalityI) (auto simp: ring_read_def)

lemma ring_read_split:
  "ring_read d loc (m + n) = ring_read d loc m @ ring_read d (loc + m) n"
  by (rule nth_equalityI) (auto simp: ring_read_def nth_append add.assoc)

lemma ring_read_mod [simp]: "ring_read d (loc mod length d) n = ring_read d loc n"
  by (simp add: ring_read_def mod_add_left_eq)

section \<open>What the store relies on\<close>

text \<open>
  \<open>holds s l x\<close>: the blob \<open>x\<close> is stored at location \<open>l\<close>. A blob that has been put is stored, and
  remains so until the following puts have covered the span. Reading it yields it, or an error.
\<close>

text \<open>A sequence of puts, all of which succeed.\<close>

fun lbm_Put_all :: "'b LocationBlobMap \<Rightarrow> 'b \<Rightarrow> bytes list \<Rightarrow> 'b option" where
  "lbm_Put_all M s [] = Some s"
| "lbm_Put_all M s (x # xs) = (case lbm_Put M s x of (Inl err, s') \<Rightarrow> None | (Inr loc, s') \<Rightarrow> lbm_Put_all M s' xs)"

locale location_blob_map =
  fixes M :: "'b LocationBlobMap"
    and inv :: "'b \<Rightarrow> bool"
    and span :: nat
    and holds :: "'b \<Rightarrow> uint64 \<Rightarrow> bytes \<Rightarrow> bool"
  assumes span_bound: "inv s \<Longrightarrow> span < 2 ^ 63"
    and put_inv: "inv s \<Longrightarrow> length x \<le> span \<Longrightarrow> lbm_Put M s x = (Inr loc, s') \<Longrightarrow>
      inv s' \<and> allocateLocation (lbm_GetNextPutLocation M s) (length x) = (loc, lbm_GetNextPutLocation M s')"
    and put_holds: "inv s \<Longrightarrow> length x \<le> span \<Longrightarrow> lbm_Put M s x = (Inr loc, s') \<Longrightarrow> holds s' loc x"
    and put_keeps: "inv s \<Longrightarrow> length x \<le> span \<Longrightarrow> lbm_Put M s x = (Inr loc, s') \<Longrightarrow> holds s l y \<Longrightarrow>
      unat l + length y \<le> unat loc \<Longrightarrow> unat loc + length x \<le> unat l + span \<Longrightarrow> holds s' l y"
    and get_holds: "inv s \<Longrightarrow> holds s l y \<Longrightarrow>
      lbm_Get M s l (length y) = Inr y \<or> (\<exists>err. lbm_Get M s l (length y) = Inl err \<and> err \<noteq> Panic)"
    and put_error: "inv s \<Longrightarrow> length x \<le> span \<Longrightarrow> lbm_Put M s x = (Inl err, s') \<Longrightarrow> err \<noteq> Panic"
begin

lemma put_next:
  assumes "inv s" "length x \<le> span" "lbm_Put M s x = (Inr loc, s')" "unat (lbm_GetNextPutLocation M s) + length x < 2 ^ 64"
  shows "loc = lbm_GetNextPutLocation M s" "unat (lbm_GetNextPutLocation M s') = unat loc + length x"
  using allocateLocation_range [OF _ conjunct2 [OF put_inv [OF assms(1-3)]]] assms(4) by auto

text \<open>A blob survives any sequence of puts that fits within the span.\<close>

lemma put_all_keeps:
  assumes "lbm_Put_all M s xs = Some s'" "inv s" "holds s l y"
    and "unat l + length y \<le> unat (lbm_GetNextPutLocation M s)"
    and "unat (lbm_GetNextPutLocation M s) + sum_list (map length xs) \<le> unat l + span"
    and "unat (lbm_GetNextPutLocation M s) + sum_list (map length xs) < 2 ^ 64"
  shows "inv s' \<and> holds s' l y"
  using assms
proof (induction xs arbitrary: s)
  case (Cons x xs)
  obtain loc s1 where p: "lbm_Put M s x = (Inr loc, s1)" "lbm_Put_all M s1 xs = Some s'"
    using Cons.prems(1) by (auto split: prod.splits sum.splits)
  have x: "length x \<le> span" using Cons.prems(4,5) by simp
  have n: "loc = lbm_GetNextPutLocation M s" "unat (lbm_GetNextPutLocation M s1) = unat loc + length x"
    using put_next [OF Cons.prems(2) x p(1)] Cons.prems(6) by auto
  show ?case
  proof (rule Cons.IH [OF p(2)])
    show "inv s1" using put_inv [OF Cons.prems(2) x p(1)] by simp
    show "holds s1 l y" using put_keeps [OF Cons.prems(2) x p(1) Cons.prems(3)] Cons.prems(4,5) n(1) by simp
  qed (use n Cons.prems in auto)
qed auto

text \<open>So a blob can be read after it and others have been put.\<close>

lemma put_then_read:
  assumes "inv s" "lbm_Put M s x = (Inr loc, s1)" "lbm_Put_all M s1 xs = Some s2"
    and fits: "length x + sum_list (map length xs) \<le> span"
    and no_wrap: "unat (lbm_GetNextPutLocation M s1) + sum_list (map length xs) < 2 ^ 64"
  shows "lbm_Get M s2 loc (length x) = Inr x \<or> (\<exists>err. lbm_Get M s2 loc (length x) = Inl err \<and> err \<noteq> Panic)"
proof -
  have x: "length x \<le> span" using fits by simp
  note p = put_inv [OF assms(1) x assms(2)] put_holds [OF assms(1) x assms(2)]
  have "length x < 2 ^ 64" using x span_bound [OF assms(1)] by simp
  then have "unat (lbm_GetNextPutLocation M s1) = unat loc + length x"
    using allocateLocation_range(1) p(1) by blast
  then have "inv s2 \<and> holds s2 loc x"
    using put_all_keeps [OF assms(3) _ p(2)] p(1) fits no_wrap by simp
  then show ?thesis using get_holds by blast
qed

end

section \<open>The map in memory\<close>

record inMemoryLocationBlobMap =
  im_data :: bytes
  im_nextLocation :: uint64

definition NewInMemoryLocationBlobMap :: "nat \<Rightarrow> inMemoryLocationBlobMap" where
  "NewInMemoryLocationBlobMap sizeBytes = \<lparr>im_data = replicate sizeBytes 0, im_nextLocation = 0\<rparr>"

text \<open>
  The loop of \<open>Get\<close>; \<open>inputRemaining\<close> is always the distance to the end of the array. Offsets are
  remainders, so they are within the array; slicing beyond it would panic.
\<close>

function im_Get_loop :: "bytes \<Rightarrow> nat \<Rightarrow> nat \<Rightarrow> bytes \<Rightarrow> bytes result" where
  "im_Get_loop data offset outRemaining out =
     (if length data \<le> offset then Inl Panic
      else
        let inputRemaining = length data - offset in
        if inputRemaining < outRemaining
        then im_Get_loop data 0 (outRemaining - inputRemaining) (out @ take inputRemaining (drop offset data))
        else Inr (out @ take outRemaining (drop offset data)))"
  by pat_completeness auto
termination by (relation "measure (\<lambda>(data, offset, n, out). n)") auto

declare im_Get_loop.simps [simp del]

text \<open>The remainder by zero panics.\<close>

definition im_Get :: "inMemoryLocationBlobMap \<Rightarrow> uint64 \<Rightarrow> nat \<Rightarrow> bytes result" where
  "im_Get lbm location sizeBytes =
     (if im_data lbm = [] then Inl Panic
      else im_Get_loop (im_data lbm) (unat location mod length (im_data lbm)) sizeBytes [])"

function im_Put_loop :: "bytes \<Rightarrow> nat \<Rightarrow> bytes \<Rightarrow> bytes result" where
  "im_Put_loop ring offset data =
     (if data = [] then Inr ring
      else if length ring \<le> offset then Inl Panic
      else
        let n = min (length data) (length ring - offset)
        in im_Put_loop (put_bytes ring offset (take n data)) 0 (drop n data))"
  by pat_completeness auto
termination by (relation "measure (\<lambda>(ring, offset, data). length data)") auto

declare im_Put_loop.simps [simp del]

text \<open>
  The location is allocated by a compare-and-swap loop, which succeeds in its first iteration if no
  other goroutine interferes, and has the same effect as an atomic allocation if one does.
\<close>

definition im_Put :: "inMemoryLocationBlobMap \<Rightarrow> bytes \<Rightarrow> uint64 result \<times> inMemoryLocationBlobMap" where
  "im_Put lbm data =
     (let (location, newNextLocation) = allocateLocation (im_nextLocation lbm) (length data);
          lbm = lbm\<lparr>im_nextLocation := newNextLocation\<rparr>
      in if im_data lbm = [] then (Inl Panic, lbm)
         else case im_Put_loop (im_data lbm) (unat location mod length (im_data lbm)) data of
                Inl err \<Rightarrow> (Inl err, lbm)
              | Inr ring \<Rightarrow> (Inr location, lbm\<lparr>im_data := ring\<rparr>))"

definition inMemoryLocationBlobMap :: "inMemoryLocationBlobMap LocationBlobMap" where
  "inMemoryLocationBlobMap =
     \<lparr>lbm_Get = im_Get, lbm_Put = im_Put, lbm_GetNextPutLocation = im_nextLocation\<rparr>"

text \<open>The loops read and write the ring, wherever it wraps around.\<close>

lemma im_Get_loop_eq:
  assumes "offset < length d"
  shows "im_Get_loop d offset n out = Inr (out @ ring_read d offset n)"
  using assms
proof (induction d offset n out rule: im_Get_loop.induct)
  case (1 d offset n out)
  let ?r = "length d - offset"
  show ?case
  proof (cases "?r < n")
    case True
    have "ring_read d offset n = take ?r (drop offset d) @ ring_read d 0 (n - ?r)"
      using ring_read_split [of d offset ?r "n - ?r"] ring_read_contiguous [of offset ?r d] True "1.prems"
        ring_read_mod [of d "length d" "n - ?r"] by simp
    moreover have "d \<noteq> []" using "1.prems" by auto
    ultimately show ?thesis using 1 True by (subst im_Get_loop.simps) (auto simp: Let_def)
  next
    case False
    then show ?thesis using "1.prems" by (subst im_Get_loop.simps) (simp add: ring_read_contiguous)
  qed
qed

lemma im_Put_loop_eq:
  assumes "offset < length d" "length x \<le> length d"
  shows "\<exists>d'. im_Put_loop d offset x = Inr d' \<and> ring_written d d' offset x 0"
proof (cases "offset + length x \<le> length d")
  case True
  have *: "im_Put_loop d' 0 [] = Inr d'" for d' by (simp add: im_Put_loop.simps)
  have "im_Put_loop d offset x = Inr (put_bytes d offset x)"
    using assms True by (subst im_Put_loop.simps) (auto simp: * min_def put_bytes_def)
  then show ?thesis using ring_written_put_bytes [OF True] by simp
next
  case False
  define n where "n = length d - offset"
  define d1 where "d1 = put_bytes d offset (take n x)"
  have n: "n < length x" "0 < n" "offset + n = length d" using False assms by (auto simp: n_def)
  have w1: "ring_written d d1 offset (take n x) 0" unfolding d1_def
    using n by (intro ring_written_put_bytes) auto
  then have len: "length d1 = length d" by (simp add: ring_written_def)
  have w2: "ring_written d1 (put_bytes d1 0 (drop n x)) (offset + length (take n x)) (drop n x) 0"
    using n len assms(2) by (intro ring_written_put_bytes) auto
  have "im_Put_loop d1 0 (drop n x) = Inr (put_bytes d1 0 (drop n x))"
    using n assms len by (subst im_Put_loop.simps) (auto simp: im_Put_loop.simps min_def)
  moreover have "im_Put_loop d offset x = im_Put_loop d1 0 (drop n x)"
    using n assms by (subst im_Put_loop.simps) (auto simp: Let_def min_def d1_def n_def [symmetric])
  ultimately show ?thesis using ring_written_append [OF w1 w2] n assms(2) by simp
qed

definition im_inv :: "nat \<Rightarrow> inMemoryLocationBlobMap \<Rightarrow> bool" where
  "im_inv sz lbm \<longleftrightarrow> length (im_data lbm) = sz \<and> 0 < sz \<and> sz < 2 ^ 63"

definition im_holds :: "inMemoryLocationBlobMap \<Rightarrow> uint64 \<Rightarrow> bytes \<Rightarrow> bool" where
  "im_holds lbm l x \<longleftrightarrow> ring_read (im_data lbm) (unat l) (length x) = x"

lemma im_Put_ok:
  assumes "im_inv sz s" "length x \<le> sz"
  obtains loc next' d' where "im_Put s x = (Inr loc, \<lparr>im_data = d', im_nextLocation = next'\<rparr>)"
    "allocateLocation (im_nextLocation s) (length x) = (loc, next')" "ring_written (im_data s) d' (unat loc) x 0"
proof -
  obtain loc next' where a: "allocateLocation (im_nextLocation s) (length x) = (loc, next')" by fastforce
  have "unat loc mod length (im_data s) < length (im_data s)" "im_data s \<noteq> []"
    using assms(1) by (auto simp: im_inv_def)
  moreover obtain d' where d': "im_Put_loop (im_data s) (unat loc mod length (im_data s)) x = Inr d'"
      "ring_written (im_data s) d' (unat loc mod length (im_data s)) x 0"
    using im_Put_loop_eq [of "unat loc mod length (im_data s)" "im_data s" x] assms calculation(1)
    by (auto simp: im_inv_def)
  ultimately have "im_Put s x = (Inr loc, \<lparr>im_data = d', im_nextLocation = next'\<rparr>)"
    using a by (cases s) (simp add: im_Put_def Let_def)
  moreover have "ring_written (im_data s) d' (unat loc) x 0"
    using d'(2) ring_written_cong [of "unat loc mod length (im_data s)" "im_data s" "unat loc"] by simp
  ultimately show ?thesis using that a by blast
qed

lemma im_Get_eq: "im_inv sz s \<Longrightarrow> im_Get s l n = Inr (ring_read (im_data s) (unat l) n)"
  by (auto simp: im_Get_def im_inv_def im_Get_loop_eq)

interpretation imlbm: location_blob_map inMemoryLocationBlobMap "im_inv sz" sz im_holds
  for sz
proof
  fix s x loc s'
  assume i: "im_inv sz s" and x: "length x \<le> sz" and p: "lbm_Put inMemoryLocationBlobMap s x = (Inr loc, s')"
  obtain loc0 n d' where e: "im_Put s x = (Inr loc0, \<lparr>im_data = d', im_nextLocation = n\<rparr>)"
    and a: "allocateLocation (im_nextLocation s) (length x) = (loc0, n)" and w: "ring_written (im_data s) d' (unat loc0) x 0"
    using im_Put_ok [OF i x] .
  have s: "s' = \<lparr>im_data = d', im_nextLocation = n\<rparr>" "loc0 = loc"
    using p e by (auto simp: inMemoryLocationBlobMap_def)
  show "im_inv sz s' \<and> allocateLocation (lbm_GetNextPutLocation inMemoryLocationBlobMap s) (length x) =
      (loc, lbm_GetNextPutLocation inMemoryLocationBlobMap s')"
    using i a w s by (simp add: inMemoryLocationBlobMap_def im_inv_def ring_written_def)
  show "im_holds s' loc x" using ring_written_read [OF w] s by (simp add: im_holds_def)
  fix l y
  assume "im_holds s l y" "unat l + length y \<le> unat loc" "unat loc + length x \<le> unat l + sz"
  then show "im_holds s' l y"
    using ring_written_frame [OF w, of "unat l" "length y"] i s by (simp add: im_holds_def im_inv_def)
next
  fix s l y
  assume "im_inv sz s" "im_holds s l y"
  then show "lbm_Get inMemoryLocationBlobMap s l (length y) = Inr y \<or>
      (\<exists>err. lbm_Get inMemoryLocationBlobMap s l (length y) = Inl err \<and> err \<noteq> Panic)"
    by (simp add: inMemoryLocationBlobMap_def im_Get_eq im_holds_def)
next
  fix s x err s'
  assume "im_inv sz s" "length x \<le> sz" "lbm_Put inMemoryLocationBlobMap s x = (Inl err, s')"
  then show "err \<noteq> Panic" using im_Put_ok [of sz s x] by (auto simp: inMemoryLocationBlobMap_def)
qed (simp add: im_inv_def)

section \<open>The map on a block device\<close>

text \<open>
  \<open>blockdevice.BlockDevice\<close> of bb-storage, as functions on the state of the device; offsets are in bytes.
  The hypothesis on it: reads and writes that succeed are those of an array of bytes.
\<close>

record 'd BlockDevice =
  dev_ReadAt :: "'d \<Rightarrow> nat \<Rightarrow> nat \<Rightarrow> bytes result"
  dev_WriteAt :: "'d \<Rightarrow> bytes \<Rightarrow> nat \<Rightarrow> go_error option \<times> 'd"

definition block_device :: "'d BlockDevice \<Rightarrow> ('d \<Rightarrow> bytes) \<Rightarrow> nat \<Rightarrow> bool" where
  "block_device bd dev_bytes sz \<longleftrightarrow>
     (\<forall>d. length (dev_bytes d) = sz)
   \<and> (\<forall>d n off x. off + n \<le> sz \<longrightarrow> dev_ReadAt bd d n off = Inr x \<longrightarrow> x = take n (drop off (dev_bytes d)))
   \<and> (\<forall>d n off err. off + n \<le> sz \<longrightarrow> dev_ReadAt bd d n off = Inl err \<longrightarrow> err \<noteq> Panic)
   \<and> (\<forall>d x off d'. off + length x \<le> sz \<longrightarrow> dev_WriteAt bd d x off = (None, d') \<longrightarrow>
        dev_bytes d' = put_bytes (dev_bytes d) off x)
   \<and> (\<forall>d x off err d'. off + length x \<le> sz \<longrightarrow> dev_WriteAt bd d x off = (Some err, d') \<longrightarrow> err \<noteq> Panic)"

text \<open>
  Shared sectors are references: \<open>bd_sectors\<close> holds the data of all that were created, \<open>bd_sharedSector\<close>
  is the index of the current one.
\<close>

record 'd blockDeviceBackedLocationBlobMap =
  bd_device :: 'd
  bd_nextLocation :: uint64
  bd_sectors :: "bytes list"
  bd_sharedSector :: "nat option"

definition NewBlockDeviceBackedLocationBlobMap ::
  "nat \<Rightarrow> 'd \<Rightarrow> uint64 \<Rightarrow> 'd blockDeviceBackedLocationBlobMap" where
  "NewBlockDeviceBackedLocationBlobMap sectorSizeBytes device initialLocation =
     \<lparr>bd_device = device,
      bd_nextLocation = (initialLocation + of_nat sectorSizeBytes - 1) div of_nat sectorSizeBytes * of_nat sectorSizeBytes,
      bd_sectors = [], bd_sharedSector = None\<rparr>"

function bd_Get_loop ::
  "'d BlockDevice \<Rightarrow> 'd \<Rightarrow> nat \<Rightarrow> nat \<Rightarrow> nat \<Rightarrow> bytes \<Rightarrow> bytes result" where
  "bd_Get_loop bd d sz offset outRemaining out =
     (if sz \<le> offset then Inl Panic
      else
        let inputRemaining = sz - offset in
        if inputRemaining < outRemaining then
          case dev_ReadAt bd d inputRemaining offset of
            Inl err \<Rightarrow> Inl err
          | Inr x \<Rightarrow> bd_Get_loop bd d sz 0 (outRemaining - inputRemaining) (out @ x)
        else
          case dev_ReadAt bd d outRemaining offset of
            Inl err \<Rightarrow> Inl err
          | Inr x \<Rightarrow> Inr (out @ x))"
  by pat_completeness auto
termination by (relation "measure (\<lambda>(bd, d, sz, offset, n, out). n)") auto

declare bd_Get_loop.simps [simp del]

definition bd_Get ::
  "'d BlockDevice \<Rightarrow> nat \<Rightarrow> nat \<Rightarrow> 'd blockDeviceBackedLocationBlobMap \<Rightarrow> uint64 \<Rightarrow> nat \<Rightarrow> bytes result" where
  "bd_Get bd sectorSizeBytes sectorCount lbm location sizeBytes =
     (let blockDeviceSizeBytes = unat (of_nat sectorSizeBytes * of_nat sectorCount :: uint64) in
      if blockDeviceSizeBytes = 0 then Inl Panic
      else bd_Get_loop bd (bd_device lbm) blockDeviceSizeBytes (unat location mod blockDeviceSizeBytes) sizeBytes [])"

text \<open>
  Copying data into a shared sector and writing the sector: the error, the data that did not fit,
  and the new state.
\<close>

definition write_shared ::
  "'d BlockDevice \<Rightarrow> nat \<Rightarrow> nat \<Rightarrow> nat \<Rightarrow> nat \<Rightarrow> bytes \<Rightarrow> 'd blockDeviceBackedLocationBlobMap
     \<Rightarrow> go_error option \<times> bytes \<times> 'd blockDeviceBackedLocationBlobMap" where
  "write_shared bd sectorSizeBytes sectorIndex sector off data lbm =
     (let old = bd_sectors lbm ! sector;
          n = min (length data) (length old - off);
          new = put_bytes old off (take n data);
          (err, d) = dev_WriteAt bd (bd_device lbm) new (sectorIndex * sectorSizeBytes)
      in (err, drop n data, lbm\<lparr>bd_device := d, bd_sectors := (bd_sectors lbm)[sector := new]\<rparr>))"

text \<open>Writing full sectors.\<close>

function write_full ::
  "'d BlockDevice \<Rightarrow> nat \<Rightarrow> nat \<Rightarrow> nat \<Rightarrow> bytes \<Rightarrow> 'd \<Rightarrow> go_error option \<times> bytes \<times> 'd" where
  "write_full bd sectorSizeBytes sectorCount fullSectorIndex data d =
     (if sectorSizeBytes = 0 \<or> sectorCount \<le> fullSectorIndex then (Some Panic, data, d)
      else if length data < sectorSizeBytes then (None, data, d)
      else
        let availableBytes = min (length data div sectorSizeBytes) (sectorCount - fullSectorIndex) * sectorSizeBytes in
        case dev_WriteAt bd d (take availableBytes data) (fullSectorIndex * sectorSizeBytes) of
          (Some err, d) \<Rightarrow> (Some err, data, d)
        | (None, d) \<Rightarrow> write_full bd sectorSizeBytes sectorCount 0 (drop availableBytes data) d)"
  by pat_completeness auto
termination
proof (relation "measure (\<lambda>(bd, ss, sc, i, data, d). length data)", goal_cases)
  case (2 bd ss sc i data d n)
  then have "0 < length data div ss" by (simp add: div_greater_zero_iff)
  then have "0 < n" "0 < length data" using 2 by auto
  then show ?case by simp
qed simp

declare write_full.simps [simp del]

text \<open>Cases 2 to 4 of \<open>Put\<close>: full sectors, and a trailing partial sector.\<close>

definition write_rest ::
  "'d BlockDevice \<Rightarrow> nat \<Rightarrow> nat \<Rightarrow> nat \<Rightarrow> nat option \<Rightarrow> nat \<Rightarrow> bytes \<Rightarrow> 'd blockDeviceBackedLocationBlobMap
     \<Rightarrow> go_error option \<times> 'd blockDeviceBackedLocationBlobMap" where
  "write_rest bd sectorSizeBytes sectorCount fullSectorIndex lastSector lastSectorIndex data lbm =
     (let (err, data, d) = write_full bd sectorSizeBytes sectorCount fullSectorIndex data (bd_device lbm);
          lbm = lbm\<lparr>bd_device := d\<rparr>
      in if err \<noteq> None then (err, lbm)
         else if data \<noteq> [] then
           case lastSector of
             None \<Rightarrow> (Some Panic, lbm)
           | Some sector \<Rightarrow>
               let (err, _, lbm) = write_shared bd sectorSizeBytes lastSectorIndex sector 0 data lbm in (err, lbm)
         else (None, lbm))"

text \<open>
  The part of \<open>Put\<close> that holds the lock, after the allocation: which shared sector the object starts in,
  and whether the sector it ends in becomes the new shared sector.
\<close>

definition first_sector :: "nat \<Rightarrow> uint64 \<Rightarrow> 'd blockDeviceBackedLocationBlobMap \<Rightarrow> nat option" where
  "first_sector sectorSizeBytes location lbm =
     (if unat location mod sectorSizeBytes = 0 then None else bd_sharedSector lbm)"

definition prepare_last_sector ::
  "nat \<Rightarrow> nat \<Rightarrow> uint64 \<Rightarrow> uint64 \<Rightarrow> 'd blockDeviceBackedLocationBlobMap \<Rightarrow> 'd blockDeviceBackedLocationBlobMap" where
  "prepare_last_sector sectorSizeBytes sectorCount location nextLocation lbm =
     (if unat nextLocation mod sectorSizeBytes = 0
      then lbm\<lparr>bd_nextLocation := nextLocation, bd_sharedSector := None\<rparr>
      else if first_sector sectorSizeBytes location lbm = None
        \<or> unat location div sectorSizeBytes mod sectorCount \<noteq> unat nextLocation div sectorSizeBytes mod sectorCount
      then lbm\<lparr>bd_nextLocation := nextLocation, bd_sectors := bd_sectors lbm @ [replicate sectorSizeBytes 0],
               bd_sharedSector := Some (length (bd_sectors lbm))\<rparr>
      else lbm\<lparr>bd_nextLocation := nextLocation\<rparr>)"

definition bd_Put ::
  "'d BlockDevice \<Rightarrow> nat \<Rightarrow> nat \<Rightarrow> 'd blockDeviceBackedLocationBlobMap \<Rightarrow> bytes
     \<Rightarrow> uint64 result \<times> 'd blockDeviceBackedLocationBlobMap" where
  "bd_Put bd sectorSizeBytes sectorCount lbm data =
     (let (location, nextLocation) = allocateLocation (bd_nextLocation lbm) (length data)
      in if sectorSizeBytes = 0 \<or> sectorCount = 0
         then (Inl Panic, lbm\<lparr>bd_nextLocation := nextLocation\<rparr>)
         else
           let firstSectorIndex = unat location div sectorSizeBytes mod sectorCount;
               firstSector = first_sector sectorSizeBytes location lbm;
               fullSectorIndex = (if unat location mod sectorSizeBytes = 0 then firstSectorIndex
                                  else (firstSectorIndex + 1) mod sectorCount);
               lastSectorIndex = (if unat nextLocation mod sectorSizeBytes = 0 then 0
                                  else unat nextLocation div sectorSizeBytes mod sectorCount);
               lbm = prepare_last_sector sectorSizeBytes sectorCount location nextLocation lbm;
               (err, data, lbm) =
                 (case firstSector of
                    None \<Rightarrow> (None, data, lbm)
                  | Some sector \<Rightarrow>
                      write_shared bd sectorSizeBytes firstSectorIndex sector
                        (unat location mod sectorSizeBytes) data lbm)
           in case err of
                Some err \<Rightarrow> (Inl err, lbm)
              | None \<Rightarrow>
                  case write_rest bd sectorSizeBytes sectorCount fullSectorIndex (bd_sharedSector lbm)
                         lastSectorIndex data lbm of
                    (Some err, lbm) \<Rightarrow> (Inl err, lbm)
                  | (None, lbm) \<Rightarrow> (Inr location, lbm))"

definition blockDeviceBackedLocationBlobMap ::
  "'d BlockDevice \<Rightarrow> nat \<Rightarrow> nat \<Rightarrow> 'd blockDeviceBackedLocationBlobMap LocationBlobMap" where
  "blockDeviceBackedLocationBlobMap bd sectorSizeBytes sectorCount =
     \<lparr>lbm_Get = bd_Get bd sectorSizeBytes sectorCount, lbm_Put = bd_Put bd sectorSizeBytes sectorCount,
      lbm_GetNextPutLocation = bd_nextLocation\<rparr>"

lemma block_deviceD:
  assumes "block_device bd db sz"
  shows dev_length: "\<And>d. length (db d) = sz"
    and dev_read: "\<And>d n off x. off + n \<le> sz \<Longrightarrow> dev_ReadAt bd d n off = Inr x \<Longrightarrow> x = take n (drop off (db d))"
    and dev_read_error: "\<And>d n off err. off + n \<le> sz \<Longrightarrow> dev_ReadAt bd d n off = Inl err \<Longrightarrow> err \<noteq> Panic"
    and dev_write: "\<And>d x off d'. off + length x \<le> sz \<Longrightarrow> dev_WriteAt bd d x off = (None, d') \<Longrightarrow>
      db d' = put_bytes (db d) off x"
    and dev_write_error: "\<And>d x off err d'. off + length x \<le> sz \<Longrightarrow> dev_WriteAt bd d x off = (Some err, d') \<Longrightarrow> err \<noteq> Panic"
proof -
  note l = assms [unfolded block_device_def]
  show "\<And>d. length (db d) = sz" by (rule l [THEN conjunct1, rule_format])
  note l = l [THEN conjunct2]
  show "\<And>d n off x. off + n \<le> sz \<Longrightarrow> dev_ReadAt bd d n off = Inr x \<Longrightarrow> x = take n (drop off (db d))"
    by (rule l [THEN conjunct1, rule_format])
  note l = l [THEN conjunct2]
  show "\<And>d n off err. off + n \<le> sz \<Longrightarrow> dev_ReadAt bd d n off = Inl err \<Longrightarrow> err \<noteq> Panic"
    by (rule l [THEN conjunct1, rule_format])
  note l = l [THEN conjunct2]
  show "\<And>d x off d'. off + length x \<le> sz \<Longrightarrow> dev_WriteAt bd d x off = (None, d') \<Longrightarrow>
      db d' = put_bytes (db d) off x"
    by (rule l [THEN conjunct1, rule_format])
  show "\<And>d x off err d'. off + length x \<le> sz \<Longrightarrow> dev_WriteAt bd d x off = (Some err, d') \<Longrightarrow> err \<noteq> Panic"
    by (rule l [THEN conjunct2, rule_format])
qed

lemma bd_Get_loop_eq:
  assumes "block_device bd db sz" "offset < sz"
  shows "bd_Get_loop bd d sz offset n out = Inr (out @ ring_read (db d) offset n)
    \<or> (\<exists>err. bd_Get_loop bd d sz offset n out = Inl err \<and> err \<noteq> Panic)"
  using assms
proof (induction bd d sz offset n out rule: bd_Get_loop.induct)
  case (1 bd d sz offset n out)
  let ?r = "sz - offset"
  note len = dev_length [OF "1.prems"(1)]
  show ?case
  proof (cases "?r < n")
    case True
    show ?thesis
    proof (cases "dev_ReadAt bd d ?r offset")
      case (Inl err)
      then show ?thesis using True "1.prems" dev_read_error [OF "1.prems"(1) _ Inl]
        by (subst (1 2) bd_Get_loop.simps) auto
    next
      case (Inr x)
      have x: "x = take ?r (drop offset (db d))" using dev_read [OF "1.prems"(1) _ Inr] "1.prems"(2) by simp
      have "ring_read (db d) offset n = x @ ring_read (db d) 0 (n - ?r)"
        using ring_read_split [of "db d" offset ?r "n - ?r"] ring_read_contiguous [of offset ?r "db d"] True "1.prems"(2)
          ring_read_mod [of "db d" sz "n - ?r"] len x by simp
      then show ?thesis using "1.IH" [OF _ refl True Inr "1.prems"(1)] "1.prems"(2) True Inr
        by (subst (1 2) bd_Get_loop.simps) auto
    qed
  next
    case False
    then show ?thesis using "1.prems" dev_read [OF "1.prems"(1), of offset n d] dev_read_error [OF "1.prems"(1), of offset n d] len
      by (cases "dev_ReadAt bd d n offset"; subst (1 2) bd_Get_loop.simps) (auto simp: ring_read_contiguous)
  qed
qed

lemma nth_put_bytes:
  "off + length src \<le> length dst \<Longrightarrow> k < length dst \<Longrightarrow>
   put_bytes dst off src ! k = (if off \<le> k \<and> k < off + length src then src ! (k - off) else dst ! k)"
  by (auto simp: put_bytes_def nth_append)

lemma sector_bounds: "i < sc \<Longrightarrow> i * ss + ss \<le> ss * (sc :: nat)"
proof -
  assume "i < sc"
  then have "Suc i * ss \<le> sc * ss" by (intro mult_le_mono1) simp
  then show ?thesis by (simp add: mult.commute)
qed

lemma write_shared_ok:
  assumes bd: "block_device bd db (ss * sc)" and i: "i < sc"
    and p: "p < length (bd_sectors s)" "length (bd_sectors s ! p) = ss" "off < ss"
    and same: "take off (bd_sectors s ! p) = take off (drop (i * ss) (db (bd_device s)))"
    and w: "write_shared bd ss i p off data s = (err, rest, s')"
  defines "n \<equiv> min (length data) (ss - off)"
  shows "rest = drop n data" "err = Some e \<Longrightarrow> e \<noteq> Panic"
    and "err = None \<Longrightarrow> \<exists>new. s' = s\<lparr>bd_device := bd_device s', bd_sectors := (bd_sectors s)[p := new]\<rparr>
      \<and> length new = ss \<and> new = take ss (drop (i * ss) (db (bd_device s')))
      \<and> ring_written (db (bd_device s)) (db (bd_device s')) (i * ss + off) (take n data) (ss - off - n)"
proof -
  define old where "old = bd_sectors s ! p"
  define new where "new = put_bytes old off (take n data)"
  let ?D = "db (bd_device s)"
  obtain d where d: "dev_WriteAt bd (bd_device s) new (i * ss) = (err, d)" and rest: "rest = drop n data"
    and s': "s' = s\<lparr>bd_device := d, bd_sectors := (bd_sectors s)[p := new]\<rparr>"
    using w p(2) by (auto simp: write_shared_def Let_def old_def new_def n_def split: prod.splits)
  have len: "length new = ss" "length ?D = ss * sc" "off + n \<le> ss" "length (take n data) = n"
    using p(2,3) dev_length [OF bd] by (auto simp: new_def old_def n_def)
  have b: "i * ss + length new \<le> ss * sc" using sector_bounds [OF i] len(1) by simp
  show "rest = drop n data" by (fact rest)
  show "err = Some e \<Longrightarrow> e \<noteq> Panic" using dev_write_error [OF bd b] d by auto
  assume "err = None"
  then have dd: "db d = put_bytes ?D (i * ss) new" using dev_write [OF bd b] d by auto
  have nth: "db d ! k = (if i * ss \<le> k \<and> k < i * ss + ss then new ! (k - i * ss) else ?D ! k)" if "k < ss * sc" for k
    using nth_put_bytes [of "i * ss" new ?D k] b len that by (simp add: dd)
  have new_nth: "new ! k = (if off \<le> k \<and> k < off + n then data ! (k - off) else old ! k)" if "k < ss" for k
    using nth_put_bytes [of off "take n data" old k] that len p(2) by (auto simp: new_def old_def)
  have old_nth: "old ! k = ?D ! (i * ss + k)" if "k < off" for k
  proof -
    have "i * ss \<le> length ?D" using b len by linarith
    then show ?thesis using arg_cong [OF same, of "\<lambda>xs. xs ! k"] that by (simp add: old_def)
  qed
  have "ring_written ?D (db d) (i * ss + off) (take n data) (ss - off - n)"
    unfolding ring_written_def
  proof (intro conjI allI impI)
    show "length (db d) = length ?D" using dev_length [OF bd] by simp
  next
    fix j assume j: "j < length (take n data)"
    then have "i * ss + off + j < ss * sc" using b len by linarith
    then show "db d ! ((i * ss + off + j) mod length ?D) = take n data ! j"
      using nth [of "i * ss + off + j"] new_nth [of "off + j"] j len by (simp add: add.assoc)
  next
    fix k assume k: "k < length ?D" "\<forall>j<length (take n data) + (ss - off - n). (i * ss + off + j) mod length ?D \<noteq> k"
    have "\<not> (i * ss + off \<le> k \<and> k < i * ss + ss)"
    proof
      assume a: "i * ss + off \<le> k \<and> k < i * ss + ss"
      then have "k - (i * ss + off) < length (take n data) + (ss - off - n)" using len by linarith
      then show False using k a by force
    qed
    then show "db d ! k = ?D ! k"
      using nth [of k] new_nth [of "k - i * ss"] old_nth [of "k - i * ss"] k(1) len by auto
  qed
  moreover have "new = take ss (drop (i * ss) (db d))"
  proof -
    have "i * ss \<le> length ?D" using b len by linarith
    then show ?thesis using put_bytes_same [of "i * ss" ?D new ss] len(1) by (simp add: dd)
  qed
  ultimately show "\<exists>new. s' = s\<lparr>bd_device := bd_device s', bd_sectors := (bd_sectors s)[p := new]\<rparr>
      \<and> length new = ss \<and> new = take ss (drop (i * ss) (db (bd_device s')))
      \<and> ring_written ?D (db (bd_device s')) (i * ss + off) (take n data) (ss - off - n)"
    using s' len by auto
qed

lemma write_full_ok:
  assumes "block_device bd db (ss * sc)" "0 < ss" "i < sc" "ss \<le> length data \<Longrightarrow> l mod (ss * sc) = i * ss"
    and "length data \<le> ss * sc"
    and "write_full bd ss sc i data d = (err, rest, d')"
  shows "err \<noteq> Some Panic \<and> (err = None \<longrightarrow> rest = drop (length data div ss * ss) data
      \<and> ring_written (db d) (db d') l (take (length data div ss * ss) data) 0)"
  using assms
proof (induction bd ss sc i data d arbitrary: l rule: write_full.induct)
  case (1 bd ss sc i data d)
  note bd = "1.prems"(1)
  define k where "k = length data div ss"
  define n where "n = min k (sc - i) * ss"
  show ?case
  proof (cases "length data < ss")
    case True
    then show ?thesis using "1.prems" by (auto simp: write_full.simps [of bd ss sc i] ring_written_nil)
  next
    case False
    have k: "0 < k" "k * ss \<le> length data" using False "1.prems"(2) by (auto simp: k_def div_greater_zero_iff)
    have nk: "n \<le> k * ss" by (simp add: n_def mult_le_mono1)
    have n: "i * ss + n \<le> ss * sc" "length (take n data) = n" "0 < n"
    proof -
      have "i * ss + min k (sc - i) * ss \<le> (i + (sc - i)) * ss" by (simp add: add_mult_distrib mult_le_mono1)
      then show "i * ss + n \<le> ss * sc" using "1.prems"(3) by (simp add: n_def mult.commute)
      show "length (take n data) = n" using nk k(2) by simp
      show "0 < n" using k(1) "1.prems"(2,3) by (simp add: n_def)
    qed
    obtain e1 d1 where w: "dev_WriteAt bd d (take n data) (i * ss) = (e1, d1)" by fastforce
    have e1: "e1 \<noteq> Some Panic" using dev_write_error [OF bd, of "i * ss" "take n data" d] n w by force
    have step: "write_full bd ss sc i data d = (case e1 of Some err \<Rightarrow> (Some err, data, d1)
        | None \<Rightarrow> write_full bd ss sc 0 (drop n data) d1)"
      using False "1.prems"(2,3) w by (simp add: write_full.simps [of bd ss sc i] n_def k_def Let_def split: option.split)
    show ?thesis
    proof (cases e1)
      case (Some e)
      then show ?thesis using step "1.prems"(6) e1 by auto
    next
      case None
      have N: "length (db d) = ss * sc" by (rule dev_length [OF bd])
      have l: "l mod (ss * sc) = i * ss" using "1.prems"(4) False by simp
      have isc: "i * ss < ss * sc" using n by linarith
      have w1: "ring_written (db d) (db d1) l (take n data) 0"
        using dev_write [OF bd, of "i * ss" "take n data" d d1] n w None N l isc
        by (auto intro!: ring_written_put_bytes)
      have wrap: "(l + n) mod (ss * sc) = 0 * ss" if "ss \<le> length (drop n data)"
      proof -
        have "min k (sc - i) = sc - i"
        proof (rule ccontr)
          assume "min k (sc - i) \<noteq> sc - i"
          then have "n = length data div ss * ss" by (simp add: n_def k_def min_def split: if_splits)
          then have "length (drop n data) = length data mod ss" by (simp add: minus_div_mult_eq_mod)
          then show False using that "1.prems"(2) by (metis mod_less_divisor not_le)
        qed
        then have "i * ss + n = (i + (sc - i)) * ss" by (simp add: n_def add_mult_distrib)
        then have "i * ss + n = ss * sc" using "1.prems"(3) by (simp add: mult.commute)
        then show ?thesis using l by (metis mod_add_left_eq mod_self mult_0)
      qed
      have le: "length (drop n data) \<le> ss * sc" using "1.prems"(5) by simp
      have wf: "write_full bd ss sc 0 (drop n data) d1 = (err, rest, d')" using step None "1.prems"(6) by simp
      have "err \<noteq> Some Panic \<and> (err = None \<longrightarrow>
          rest = drop (length (drop n data) div ss * ss) (drop n data) \<and>
          ring_written (db d1) (db d') (l + n) (take (length (drop n data) div ss * ss) (drop n data)) 0)"
        by (rule "1.IH" [OF _ False _ w [symmetric] None bd "1.prems"(2) _ wrap le wf])
          (use "1.prems"(2,3) in \<open>auto simp: n_def k_def\<close>)
      moreover have "n + length (drop n data) div ss * ss = k * ss"
      proof -
        define m where "m = min k (sc - i)"
        have nm: "n = m * ss" by (simp add: n_def m_def)
        have "n \<le> length data" using nk k(2) by linarith
        then have "length data = m * ss + length (drop n data)" unfolding nm by simp
        then have "k = m + length (drop n data) div ss"
          using "1.prems"(2) by (simp add: k_def del: length_drop)
        then show ?thesis by (simp add: nm add_mult_distrib)
      qed
      moreover have "k * ss \<le> length (db d)" using k(2) "1.prems"(5) N by linarith
      ultimately show ?thesis
        using ring_written_append [OF w1, of "db d'" "take (length (drop n data) div ss * ss) (drop n data)" 0] n(2)
        by (auto simp: add.commute take_add [symmetric] k_def [symmetric])
    qed
  qed
qed

lemma sector_of: "l mod ss = 0 \<Longrightarrow> l mod (ss * sc) = l div ss mod sc * (ss :: nat)"
  using mod_mult2_eq [of l ss sc] by (simp add: mult.commute [of ss "_ mod _"])

text \<open>The number of bytes between a length and the end of its last sector.\<close>

definition padding :: "nat \<Rightarrow> nat \<Rightarrow> nat" where
  "padding ss n = (if n mod ss = 0 then 0 else ss - n mod ss)"

lemma padding_less: "0 < ss \<Longrightarrow> padding ss n < ss"
  by (auto simp: padding_def)

lemma write_rest_ok:
  assumes bd: "block_device bd db (ss * sc)" and ss: "0 < ss" and l: "l mod ss = 0"
    and fits: "length data + padding ss (length data) \<le> ss * sc" and sc: "0 < sc"
    and last: "length data mod ss \<noteq> 0 \<Longrightarrow> lastSector = Some p \<and> p < length (bd_sectors s) \<and> length (bd_sectors s ! p) = ss
      \<and> li = (l + length data) div ss mod sc"
    and w: "write_rest bd ss sc (l div ss mod sc) lastSector li data s = (err, s')"
  shows "err \<noteq> Some Panic \<and> (err = None \<longrightarrow>
      ring_written (db (bd_device s)) (db (bd_device s')) l data (padding ss (length data))
      \<and> (\<exists>new. s' = s\<lparr>bd_device := bd_device s', bd_sectors := (if length data mod ss = 0 then bd_sectors s else (bd_sectors s)[p := new])\<rparr>
          \<and> (length data mod ss \<noteq> 0 \<longrightarrow> length new = ss \<and> new = take ss (drop (li * ss) (db (bd_device s'))))))"
proof -
  obtain e1 rest d1 where f: "write_full bd ss sc (l div ss mod sc) data (bd_device s) = (e1, rest, d1)"
    by (metis prod_cases3)
  define k where "k = length data div ss * ss"
  have full: "e1 \<noteq> Some Panic \<and> (e1 = None \<longrightarrow> rest = drop k data \<and> ring_written (db (bd_device s)) (db d1) l (take k data) 0)"
    unfolding k_def by (rule write_full_ok [OF bd ss _ _ _ f]) (use sc l fits in \<open>auto simp: sector_of\<close>)
  have r: "length (drop k data) = length data mod ss" by (simp add: k_def minus_div_mult_eq_mod)
  have kl: "length (take k data) = k" by (simp add: k_def)
  consider "e1 \<noteq> None" | "e1 = None" "length data mod ss = 0" | "e1 = None" "length data mod ss \<noteq> 0" by blast
  then show ?thesis
  proof cases
    case 1
    then show ?thesis using w f full by (auto simp: write_rest_def)
  next
    case 2
    then have "rest = []" "take k data = data" using full r by auto
    then show ?thesis using w f full 2 by (auto simp: write_rest_def padding_def)
  next
    case 3
    note last = last [OF 3(2)]
    define s1 where "s1 = s\<lparr>bd_device := d1\<rparr>"
    have rest: "rest = drop k data" "rest \<noteq> []" "length rest = length data mod ss" using full 3 r by auto
    obtain e2 r2 s2 where ws: "write_shared bd ss li p 0 rest s1 = (e2, r2, s2)" by (metis prod_cases3)
    have p1: "p < length (bd_sectors s1)" "length (bd_sectors s1 ! p) = ss" using last by (simp_all add: s1_def)
    have li: "li < sc" using last sc by simp
    note sh = write_shared_ok [OF bd li p1 ss _ ws]
    have res: "err = e2" "s' = s2"
      using w f 3(1) last rest(2) ws by (auto simp: write_rest_def s1_def Let_def)
    have m: "min (length rest) (ss - 0) = length rest" using rest(3) ss by (simp add: min_def less_imp_le)
    have "(l + k) mod (ss * sc) = li * ss"
    proof -
      have "(l + length data) div ss = (l + k) div ss"
      proof -
        have "l + length data = (l + k) + length data mod ss" by (simp add: k_def)
        moreover have "(l + k) mod ss = 0" using l by (simp add: k_def)
        ultimately show ?thesis using ss
          by (metis add.commute div_add1_eq div_less mod_less_divisor add_0 mod_mod_trivial)
      qed
      then show ?thesis using last l by (subst sector_of) (simp_all add: k_def)
    qed
    moreover have "li * ss < ss * sc" using sector_bounds [OF li, of ss] ss by linarith
    ultimately have cong: "(l + k) mod (ss * sc) = (li * ss) mod (ss * sc)" by simp
    have w2: "ring_written (db d1) (db (bd_device s2)) (l + k) rest (ss - length rest)
        \<and> (\<exists>new. s2 = s1\<lparr>bd_device := bd_device s2, bd_sectors := (bd_sectors s1)[p := new]\<rparr>
          \<and> length new = ss \<and> new = take ss (drop (li * ss) (db (bd_device s2))))" if "e2 = None"
      using sh(3) [OF _ that] ring_written_cong [of "l + k" "db d1" "li * ss"] cong dev_length [OF bd] m
      by (auto simp: s1_def)
    have pad: "padding ss (length data) = ss - length rest" using 3(2) rest(3) by (simp add: padding_def)
    have app: "ring_written (db (bd_device s)) (db (bd_device s2)) l data (padding ss (length data))" if "e2 = None"
      using ring_written_append [of "db (bd_device s)" "db d1" l "take k data" "db (bd_device s2)" rest "ss - length rest"]
        full 3(1) w2 [OF that] kl rest fits pad dev_length [OF bd] by simp
    show ?thesis
    proof (intro conjI impI)
      show "err \<noteq> Some Panic" using sh(2) res by auto
      assume "err = None"
      then have e2: "e2 = None" using res by simp
      show "ring_written (db (bd_device s)) (db (bd_device s')) l data (padding ss (length data))"
        using app [OF e2] res by simp
      show "\<exists>new. s' = s\<lparr>bd_device := bd_device s', bd_sectors := (if length data mod ss = 0 then bd_sectors s else (bd_sectors s)[p := new])\<rparr>
          \<and> (length data mod ss \<noteq> 0 \<longrightarrow> length new = ss \<and> new = take ss (drop (li * ss) (db (bd_device s'))))"
        using conjunct2 [OF w2 [OF e2]] 3(2) res by (auto simp: s1_def)
    qed
  qed
qed

text \<open>
  The invariant: unless the next location is aligned, the shared sector is the one it is in, and the part
  of it that precedes the next location is on the device.
\<close>

definition shared_inv :: "('d \<Rightarrow> bytes) \<Rightarrow> nat \<Rightarrow> nat \<Rightarrow> 'd blockDeviceBackedLocationBlobMap \<Rightarrow> bool" where
  "shared_inv db ss sc s \<longleftrightarrow> (\<forall>x \<in> set (bd_sectors s). length x = ss)
     \<and> (let off = unat (bd_nextLocation s) mod ss; i = unat (bd_nextLocation s) div ss mod sc in
        case bd_sharedSector s of
          None \<Rightarrow> off = 0
        | Some p \<Rightarrow> off \<noteq> 0 \<and> p < length (bd_sectors s)
            \<and> take off (bd_sectors s ! p) = take off (drop (i * ss) (db (bd_device s))))"

definition bd_inv :: "'d BlockDevice \<Rightarrow> ('d \<Rightarrow> bytes) \<Rightarrow> nat \<Rightarrow> nat \<Rightarrow> 'd blockDeviceBackedLocationBlobMap \<Rightarrow> bool" where
  "bd_inv bd db ss sc s \<longleftrightarrow> block_device bd db (ss * sc) \<and> 0 < ss \<and> 0 < sc \<and> ss * sc < 2 ^ 63
     \<and> shared_inv db ss sc s"

text \<open>What remains to be written once the location is aligned.\<close>

lemma write_rest_inv:
  assumes bd: "block_device bd db (ss * sc)" and ss: "0 < ss" and sc: "0 < sc" and l: "l mod ss = 0"
    and fits: "length data + padding ss (length data) \<le> ss * sc"
    and sectors: "\<forall>x \<in> set (bd_sectors s). length x = ss" and nxt: "unat (bd_nextLocation s) = l + length data"
    and shared: "length data mod ss = 0 \<Longrightarrow> bd_sharedSector s = None"
      "length data mod ss \<noteq> 0 \<Longrightarrow> \<exists>p < length (bd_sectors s). bd_sharedSector s = Some p"
    and w: "write_rest bd ss sc (l div ss mod sc) (bd_sharedSector s)
      (if unat (bd_nextLocation s) mod ss = 0 then 0 else unat (bd_nextLocation s) div ss mod sc) data s = (err, s')"
  shows "err \<noteq> Some Panic \<and> (err = None \<longrightarrow>
      ring_written (db (bd_device s)) (db (bd_device s')) l data (padding ss (length data))
      \<and> shared_inv db ss sc s' \<and> bd_nextLocation s' = bd_nextLocation s)"
proof -
  define li where "li = (if unat (bd_nextLocation s) mod ss = 0 then 0 else unat (bd_nextLocation s) div ss mod sc)"
  have off: "unat (bd_nextLocation s) mod ss = length data mod ss"
    using l nxt by (metis add.commute mod_add_right_eq add_0_right)
  define p where "p = the (bd_sharedSector s)"
  have last: "bd_sharedSector s = Some p \<and> p < length (bd_sectors s) \<and> length (bd_sectors s ! p) = ss
      \<and> li = (l + length data) div ss mod sc" if "length data mod ss \<noteq> 0"
    using shared(2) [OF that] sectors off that nxt by (auto simp: li_def p_def)
  note r = write_rest_ok [OF bd ss l fits sc last w [folded li_def]]
  show ?thesis
  proof (intro conjI impI)
    show "err \<noteq> Some Panic" using r by blast
    assume e: "err = None"
    then obtain new where s': "s' = s\<lparr>bd_device := bd_device s', bd_sectors := (if length data mod ss = 0 then bd_sectors s else (bd_sectors s)[p := new])\<rparr>"
      and new: "length data mod ss \<noteq> 0 \<Longrightarrow> length new = ss \<and> new = take ss (drop (li * ss) (db (bd_device s')))"
      using r by blast
    show "ring_written (db (bd_device s)) (db (bd_device s')) l data (padding ss (length data))" using r e by blast
    have eqs: "bd_nextLocation s' = bd_nextLocation s" "bd_sharedSector s' = bd_sharedSector s"
      "bd_sectors s' = (if length data mod ss = 0 then bd_sectors s else (bd_sectors s)[p := new])"
      by (subst s', simp)+
    then show "bd_nextLocation s' = bd_nextLocation s" by simp
    show "shared_inv db ss sc s'"
    proof (cases "length data mod ss = 0")
      case True
      then show ?thesis using eqs sectors shared(1) off by (simp add: shared_inv_def)
    next
      case False
      have le: "length data mod ss \<le> ss" using ss by (simp add: less_imp_le)
      have li: "li = unat (bd_nextLocation s') div ss mod sc" using False off by (simp add: li_def eqs)
      have "\<forall>x \<in> set (bd_sectors s'). length x = ss"
        using sectors new [OF False] False eqs set_update_subset_insert [of "bd_sectors s" p new] by auto
      moreover have "take (length data mod ss) (bd_sectors s' ! p)
          = take (length data mod ss) (drop (li * ss) (db (bd_device s')))"
        using last [OF False] new [OF False] False eqs le by (metis (no_types, lifting) min.absorb1 nth_list_update_eq take_take)
      ultimately show ?thesis using last [OF False] False off eqs li by (simp add: shared_inv_def Let_def)
    qed
  qed
qed

definition put_result ::
  "('d \<Rightarrow> bytes) \<Rightarrow> nat \<Rightarrow> nat \<Rightarrow> 'd blockDeviceBackedLocationBlobMap \<Rightarrow> bytes \<Rightarrow> uint64 \<Rightarrow> uint64
     \<Rightarrow> uint64 result \<times> 'd blockDeviceBackedLocationBlobMap \<Rightarrow> bool" where
  "put_result db ss sc s data loc nx = (\<lambda>(r, s').
     (\<forall>e. r = Inl e \<longrightarrow> e \<noteq> Panic) \<and> (\<forall>l. r = Inr l \<longrightarrow> l = loc \<and> bd_nextLocation s' = nx \<and> shared_inv db ss sc s'
        \<and> (\<exists>pad < ss. ring_written (db (bd_device s)) (db (bd_device s')) (unat loc) data pad)))"

lemma span_padding: "n \<le> ss * (sc - 1) \<Longrightarrow> 0 < ss \<Longrightarrow> 0 < sc \<Longrightarrow> n + padding ss n \<le> ss * sc"
proof -
  assume "n \<le> ss * (sc - 1)" "0 < ss" "0 < sc"
  moreover have "ss * sc = ss * (sc - 1) + ss" using \<open>0 < sc\<close> by (cases sc) auto
  ultimately show ?thesis using padding_less [of ss n] by linarith
qed

lemma prepare_simps [simp]:
  "bd_nextLocation (prepare_last_sector ss sc loc nx s) = nx"
  "bd_device (prepare_last_sector ss sc loc nx s) = bd_device s"
  by (simp_all add: prepare_last_sector_def)

lemma bd_Put_eq:
  assumes "allocateLocation (bd_nextLocation s) (length data) = (loc, nx)" "0 < ss" "0 < sc"
    and "u = prepare_last_sector ss sc loc nx s"
    and "(case first_sector ss loc s of None \<Rightarrow> (None, data, u)
      | Some q \<Rightarrow> write_shared bd ss (unat loc div ss mod sc) q (unat loc mod ss) data u) = (err, rest, t)"
    and "write_rest bd ss sc (if unat loc mod ss = 0 then unat loc div ss mod sc else (unat loc div ss mod sc + 1) mod sc)
      (bd_sharedSector t) (if unat nx mod ss = 0 then 0 else unat nx div ss mod sc) rest t = (err', s')"
  shows "bd_Put bd ss sc s data = (case err of Some e \<Rightarrow> (Inl e, t)
    | None \<Rightarrow> (case err' of Some e \<Rightarrow> Inl e | None \<Rightarrow> Inr loc, s'))"
  unfolding bd_Put_def assms(1) Let_def prod.case assms(4) [symmetric] assms(5,6)
  using assms(2,3) by (auto split: option.splits)

lemma bd_Put_aligned:
  assumes inv: "bd_inv bd db ss sc s" and fits: "length data \<le> ss * (sc - 1)"
    and a: "allocateLocation (bd_nextLocation s) (length data) = (loc, nx)" "unat nx = unat loc + length data"
    and aligned: "unat loc mod ss = 0"
  shows "put_result db ss sc s data loc nx (bd_Put bd ss sc s data)"
proof -
  have bd: "block_device bd db (ss * sc)" "0 < ss" "0 < sc" and sectors: "\<forall>x \<in> set (bd_sectors s). length x = ss"
    using inv by (auto simp: bd_inv_def shared_inv_def)
  define s1 where "s1 = prepare_last_sector ss sc loc nx s"
  have f: "first_sector ss loc s = None" using aligned by (simp add: first_sector_def)
  have off: "unat nx mod ss = length data mod ss" using aligned a(2) by (metis add.commute mod_add_right_eq add_0_right)
  have s1: "\<forall>x \<in> set (bd_sectors s1). length x = ss" "unat (bd_nextLocation s1) = unat loc + length data"
    "length data mod ss = 0 \<Longrightarrow> bd_sharedSector s1 = None"
    "length data mod ss \<noteq> 0 \<Longrightarrow> \<exists>p < length (bd_sectors s1). bd_sharedSector s1 = Some p"
    using sectors off f a(2) by (auto simp: s1_def prepare_last_sector_def)
  obtain err s' where w: "write_rest bd ss sc (unat loc div ss mod sc) (bd_sharedSector s1)
      (if unat (bd_nextLocation s1) mod ss = 0 then 0 else unat (bd_nextLocation s1) div ss mod sc) data s1 = (err, s')"
    by fastforce
  have nx1: "bd_nextLocation s1 = nx" by (simp add: s1_def)
  have "bd_Put bd ss sc s data = (case err of Some e \<Rightarrow> Inl e | None \<Rightarrow> Inr loc, s')"
    using bd_Put_eq [OF a(1) bd(2,3) s1_def, of bd None data s1 err s'] w [unfolded nx1] f aligned by simp
  then show ?thesis
    using write_rest_inv [OF bd aligned span_padding [OF fits bd(2,3)] s1 w] padding_less [OF bd(2)]
    by (auto simp: put_result_def s1_def split: option.splits)
qed

lemma div_mod_offset:
  assumes "0 < ss"
  shows "(L + n) mod ss = (L mod ss + n) mod ss" "(L + n) div ss = L div ss + (L mod ss + n) div (ss :: nat)"
proof -
  have "L + n = (L mod ss + n) + L div ss * ss" by simp
  then show "(L + n) div ss = L div ss + (L mod ss + n) div ss"
    using assms by (metis div_mult_self3 add.commute not_less_zero)
qed (simp add: mod_add_left_eq)

lemma write_rest_nil:
  "0 < ss \<Longrightarrow> i < sc \<Longrightarrow> write_rest bd ss sc i lastSector li [] s = (None, s)"
  by (simp add: write_rest_def write_full.simps)

lemma bd_Put_unaligned:
  assumes inv: "bd_inv bd db ss sc s" and fits: "length data \<le> ss * (sc - 1)"
    and a: "allocateLocation (bd_nextLocation s) (length data) = (loc, nx)" "unat nx = unat loc + length data"
    and un: "unat loc mod ss \<noteq> 0" "loc = bd_nextLocation s"
  shows "put_result db ss sc s data loc nx (bd_Put bd ss sc s data)"
proof -
  have bd: "block_device bd db (ss * sc)" "0 < ss" "0 < sc" and sectors: "\<forall>x \<in> set (bd_sectors s). length x = ss"
    using inv by (auto simp: bd_inv_def shared_inv_def)
  define off where "off = unat loc mod ss"
  define i where "i = unat loc div ss mod sc"
  obtain q where q: "bd_sharedSector s = Some q" "q < length (bd_sectors s)"
      "take off (bd_sectors s ! q) = take off (drop (i * ss) (db (bd_device s)))"
    using inv un by (auto simp: bd_inv_def shared_inv_def Let_def off_def i_def split: option.splits)
  have off: "0 < off" "off < ss" using un bd(2) by (auto simp: off_def)
  have i: "i < sc" using bd(3) by (simp add: i_def)
  have pos: "unat loc mod (ss * sc) = i * ss + off"
    using mod_mult2_eq [of "unat loc" ss sc] by (simp add: i_def off_def mult.commute [of ss "_ mod _"])
  define s1 where "s1 = prepare_last_sector ss sc loc nx s"
  have f: "first_sector ss loc s = Some q" using un q(1) by (simp add: first_sector_def)
  have s1: "q < length (bd_sectors s1)" "bd_sectors s1 ! q = bd_sectors s ! q" "\<forall>x \<in> set (bd_sectors s1). length x = ss"
    using q sectors by (auto simp: s1_def prepare_last_sector_def nth_append)
  have nx: "unat nx mod ss = (off + length data) mod ss" "unat nx div ss = unat loc div ss + (off + length data) div ss"
    using div_mod_offset [OF bd(2), of "unat loc" "length data"] a(2) by (simp_all add: off_def)
  obtain e1 rest s2 where ws: "write_shared bd ss i q off data s1 = (e1, rest, s2)" by (metis prod_cases3)
  obtain e2 s' where wr: "write_rest bd ss sc ((i + 1) mod sc) (bd_sharedSector s2)
      (if unat nx mod ss = 0 then 0 else unat nx div ss mod sc) rest s2 = (e2, s')"
    by fastforce
  have put: "bd_Put bd ss sc s data = (case e1 of Some e \<Rightarrow> (Inl e, s2)
      | None \<Rightarrow> (case e2 of Some e \<Rightarrow> Inl e | None \<Rightarrow> Inr loc, s'))"
    using bd_Put_eq [OF a(1) bd(2,3) s1_def, of bd e1 rest s2 e2 s'] ws wr f un by (simp add: i_def off_def)
  define n where "n = min (length data) (ss - off)"
  have len_q: "length (bd_sectors s1 ! q) = ss" using s1(3) nth_mem [OF s1(1)] by blast
  have same: "take off (bd_sectors s1 ! q) = take off (drop (i * ss) (db (bd_device s1)))"
    using q(3) s1(2) by (simp add: s1_def)
  note ok = write_shared_ok [OF bd(1) i s1(1) len_q off(2) same ws, folded n_def]
  show ?thesis
  proof (cases e1)
    case (Some e)
    then show ?thesis using put ok(2) by (auto simp: put_result_def)
  next
    case None
    obtain new where s2: "s2 = s1\<lparr>bd_device := bd_device s2, bd_sectors := (bd_sectors s1)[q := new]\<rparr>"
      and new: "length new = ss" "new = take ss (drop (i * ss) (db (bd_device s2)))"
      and w1: "ring_written (db (bd_device s1)) (db (bd_device s2)) (i * ss + off) (take n data) (ss - off - n)"
      using ok(3) [OF None] by blast
    have w1: "ring_written (db (bd_device s)) (db (bd_device s2)) (unat loc) (take n data) (ss - off - n)"
      using w1 ring_written_cong [of "unat loc" "db (bd_device s)" "i * ss + off"] pos dev_length [OF bd(1)]
        sector_bounds [OF i, of ss] off(2) by (simp add: s1_def)
    have s2_simps: "bd_nextLocation s2 = nx" "bd_sharedSector s2 = bd_sharedSector s1" "bd_sectors s2 = (bd_sectors s1)[q := new]"
      by (subst s2, simp add: s1_def)+
    have s2_sectors: "\<forall>x \<in> set (bd_sectors s2). length x = ss"
      using s1(3) new(1) set_update_subset_insert [of "bd_sectors s1" q new] by (auto simp: s2_simps)
    show ?thesis
    proof (cases "length data \<le> ss - off")
      case True
      then have n: "take n data = data" "rest = []" using ok(1) by (auto simp: n_def)
      have "bd_Put bd ss sc s data = (Inr loc, s2)"
        using put None wr n(2) bd(2,3) by (simp add: write_rest_nil)
      moreover have "shared_inv db ss sc s2"
      proof (cases "off + length data = ss")
        case True
        then have "unat nx mod ss = 0" using nx(1) by simp
        then have "bd_sharedSector s2 = None" unfolding s2_simps by (simp add: s1_def prepare_last_sector_def)
        then show ?thesis using \<open>unat nx mod ss = 0\<close> s2_sectors by (simp add: shared_inv_def s2_simps(1))
      next
        case False
        then have lt: "off + length data < ss" using True off by simp
        then have o: "unat nx mod ss = off + length data" "unat nx div ss mod sc = i" using nx by (simp_all add: i_def)
        then have "s1 = s\<lparr>bd_nextLocation := nx\<rparr>" using f off(1) by (simp add: s1_def prepare_last_sector_def i_def)
        then have "bd_sharedSector s2 = Some q" using q(1) by (simp add: s2_simps(2))
        moreover have "take (off + length data) (bd_sectors s2 ! q) = take (off + length data) (drop (i * ss) (db (bd_device s2)))"
          using s1(1) lt new(2) by (metis s2_simps(3) nth_list_update_eq take_take min.absorb1 less_imp_le)
        ultimately show ?thesis using o s2_sectors off(1) s1(1) by (simp add: shared_inv_def s2_simps(1,3))
      qed
      moreover have "ss - off - n < ss" using off by linarith
      ultimately show ?thesis using w1 n(1) s2_simps(1) by (auto simp: put_result_def)
    next
      case False
      then have n: "n = ss - off" "length (take n data) = n" "rest = drop n data" using ok(1) by (auto simp: n_def)
      define l where "l = unat loc + n"
      have l: "l mod ss = 0" "l div ss mod sc = (i + 1) mod sc"
        using div_mod_offset [OF bd(2), of "unat loc" n] off n(1)
        by (simp_all add: l_def i_def mod_Suc_eq flip: off_def)
      have nxt: "unat (bd_nextLocation s2) = l + length rest"
        using False n a(2) by (simp add: s2_simps l_def)
      have r: "length rest mod ss = unat nx mod ss"
        using nxt l(1) s2_simps(1) by (metis add.commute mod_add_right_eq add_0_right)
      have ne: "i \<noteq> unat nx div ss mod sc"
      proof -
        have "off + length data < ss * sc"
          using fits off bd(3) by (cases sc) auto
        then have "(off + length data) div ss < sc" using bd(2) by (simp add: less_mult_imp_div_less mult.commute)
        moreover have "0 < (off + length data) div ss" using False bd(2) by (simp add: div_greater_zero_iff)
        ultimately show ?thesis
          using mod_add_inj [of "unat loc div ss" "(off + length data) div ss" sc 0] bd(3) by (auto simp: nx(2) i_def)
      qed
      have sh: "length rest mod ss = 0 \<Longrightarrow> bd_sharedSector s2 = None"
        "length rest mod ss \<noteq> 0 \<Longrightarrow> \<exists>p < length (bd_sectors s2). bd_sharedSector s2 = Some p"
        using r ne f by (simp_all add: s2_simps s1_def prepare_last_sector_def i_def)
      have fits': "length rest + padding ss (length rest) \<le> ss * sc"
        using fits n by (intro span_padding [OF _ bd(2,3)]) simp
      have wi: "e2 \<noteq> Some Panic \<and> (e2 = None \<longrightarrow>
          ring_written (db (bd_device s2)) (db (bd_device s')) l rest (padding ss (length rest))
          \<and> shared_inv db ss sc s' \<and> bd_nextLocation s' = nx)"
        by (rule write_rest_inv [OF bd l(1) fits' s2_sectors nxt, unfolded l(2) s2_simps(1)]) (use sh wr in simp_all)
      have "ss * sc = ss * (sc - 1) + ss" using bd(3) by (cases sc) auto
      then have "length data + padding ss (length rest) \<le> ss * sc"
        using fits padding_less [OF bd(2), of "length rest"] by linarith
      moreover have "length (take n data) + length rest = length data" using n False by simp
      ultimately have "ring_written (db (bd_device s)) (db (bd_device s')) (unat loc) (take n data @ rest) (padding ss (length rest))"
        if "e2 = None"
        using w1 wi that n dev_length [OF bd(1)]
        by (intro ring_written_append [of _ "db (bd_device s2)"]) (simp_all add: l_def)
      then show ?thesis using put None wi padding_less [OF bd(2)] n(3) by (auto simp: put_result_def split: option.splits)
    qed
  qed
qed

lemma bd_Put_ok:
  assumes inv: "bd_inv bd db ss sc s" and fits: "length data \<le> ss * (sc - 1)"
    and a: "allocateLocation (bd_nextLocation s) (length data) = (loc, nx)"
  shows "put_result db ss sc s data loc nx (bd_Put bd ss sc s data)"
proof -
  have ss: "0 < ss" "ss * sc < 2 ^ 63" "0 < sc" using inv by (auto simp: bd_inv_def)
  have "ss * (sc - 1) \<le> ss * sc" by simp
  then have "length data < 2 ^ 63" using fits ss(2) by linarith
  then have n: "length data < 2 ^ 64" by simp
  note r = allocateLocation_range [OF n a]
  show ?thesis
  proof (cases "unat loc mod ss = 0")
    case True
    then show ?thesis using bd_Put_aligned [OF inv fits a r(1)] by simp
  next
    case False
    then have "loc = bd_nextLocation s" using r(2) by (auto simp del: unat_eq_zero)
    then show ?thesis using bd_Put_unaligned [OF inv fits a r(1) False] by simp
  qed
qed

definition bd_holds :: "('d \<Rightarrow> bytes) \<Rightarrow> 'd blockDeviceBackedLocationBlobMap \<Rightarrow> uint64 \<Rightarrow> bytes \<Rightarrow> bool" where
  "bd_holds db s l x \<longleftrightarrow> ring_read (db (bd_device s)) (unat l) (length x) = x"

lemma bd_Put_result:
  assumes "bd_inv bd db ss sc s" "length x \<le> ss * (sc - 1)"
    "lbm_Put (blockDeviceBackedLocationBlobMap bd ss sc) s x = (r, s')"
  obtains loc nx where "allocateLocation (bd_nextLocation s) (length x) = (loc, nx)" "put_result db ss sc s x loc nx (r, s')"
proof -
  obtain loc nx where a: "allocateLocation (bd_nextLocation s) (length x) = (loc, nx)" by fastforce
  then show ?thesis using that bd_Put_ok [OF assms(1,2) a] assms(3)
    by (simp add: blockDeviceBackedLocationBlobMap_def)
qed

interpretation bdlbm: location_blob_map "blockDeviceBackedLocationBlobMap bd ss sc" "bd_inv bd db ss sc" "ss * (sc - 1)" "bd_holds db"
  for bd :: "'d BlockDevice" and db ss sc
proof
  fix s :: "'d blockDeviceBackedLocationBlobMap"
  assume i: "bd_inv bd db ss sc s"
  have "ss * (sc - 1) \<le> ss * sc" by simp
  then show "ss * (sc - 1) < 2 ^ 63" using i unfolding bd_inv_def by linarith
next
  fix s x loc s'
  assume i: "bd_inv bd db ss sc s" and x: "length x \<le> ss * (sc - 1)"
    and p: "lbm_Put (blockDeviceBackedLocationBlobMap bd ss sc) s x = (Inr loc, s')"
  obtain nx pad where r: "allocateLocation (bd_nextLocation s) (length x) = (loc, nx)" "bd_nextLocation s' = nx"
      "shared_inv db ss sc s'" and w: "ring_written (db (bd_device s)) (db (bd_device s')) (unat loc) x pad" "pad < ss"
    by (rule bd_Put_result [OF i x p]) (auto simp: put_result_def)
  show "bd_inv bd db ss sc s' \<and> allocateLocation (lbm_GetNextPutLocation (blockDeviceBackedLocationBlobMap bd ss sc) s) (length x) =
      (loc, lbm_GetNextPutLocation (blockDeviceBackedLocationBlobMap bd ss sc) s')"
    using r i by (simp add: blockDeviceBackedLocationBlobMap_def bd_inv_def)
  show "bd_holds db s' loc x" using ring_written_read [OF w(1)] by (simp add: bd_holds_def)
  fix l y
  assume h: "bd_holds db s l y" and b: "unat l + length y \<le> unat loc" "unat loc + length x \<le> unat l + ss * (sc - 1)"
  have bd: "block_device bd db (ss * sc)" "0 < sc" using i by (auto simp: bd_inv_def)
  have "ss * (sc - 1) + ss = ss * sc" using bd(2) by (cases sc) auto
  then have "unat loc + length x + pad \<le> unat l + length (db (bd_device s))"
    using b(2) w(2) dev_length [OF bd(1), of "bd_device s"] by linarith
  then show "bd_holds db s' l y"
    using ring_written_frame [OF w(1) b(1)] h by (simp add: bd_holds_def)
next
  fix s l y
  assume i: "bd_inv bd db ss sc s" and h: "bd_holds db s l y"
  have bd: "block_device bd db (ss * sc)" "0 < ss * sc" "ss * sc < 2 ^ 64" using i by (auto simp: bd_inv_def)
  have u: "unat (of_nat ss * of_nat sc :: uint64) = ss * sc"
    using bd(3) by (simp add: unat_of_nat take_bit_nat_eq_self flip: of_nat_mult)
  have "bd_Get bd ss sc s l (length y) = bd_Get_loop bd (bd_device s) (ss * sc) (unat l mod (ss * sc)) (length y) []"
    using bd(2) by (simp add: bd_Get_def u Let_def)
  moreover have "ring_read (db (bd_device s)) (unat l mod (ss * sc)) (length y) = y"
    using h ring_read_mod [of "db (bd_device s)" "unat l" "length y"] dev_length [OF bd(1)] by (simp add: bd_holds_def)
  ultimately show "lbm_Get (blockDeviceBackedLocationBlobMap bd ss sc) s l (length y) = Inr y \<or>
      (\<exists>err. lbm_Get (blockDeviceBackedLocationBlobMap bd ss sc) s l (length y) = Inl err \<and> err \<noteq> Panic)"
    using bd_Get_loop_eq [OF bd(1), of "unat l mod (ss * sc)" "bd_device s" "length y" "[]"] bd(2)
    by (simp add: blockDeviceBackedLocationBlobMap_def)
next
  fix s x err s'
  assume "bd_inv bd db ss sc s" "length x \<le> ss * (sc - 1)"
    "lbm_Put (blockDeviceBackedLocationBlobMap bd ss sc) s x = (Inl err, s')"
  then show "err \<noteq> Panic" by (rule bd_Put_result) (auto simp: put_result_def)
qed

section \<open>Properties\<close>

lemma bd_Get_loop_error:
  "bd_Get_loop bd d sz offset n out = Inl err \<Longrightarrow> err \<noteq> Panic \<Longrightarrow>
     \<exists>k off. off + k \<le> sz \<and> dev_ReadAt bd d k off = Inl err"
proof (induction bd d sz offset n out rule: bd_Get_loop.induct)
  case (1 bd d sz offset n out)
  show ?case
  proof (cases "offset < sz \<and> sz - offset < n")
    case True
    then show ?thesis using 1 by (subst (asm) (2) bd_Get_loop.simps) (auto simp: Let_def not_le split: sum.splits,
        intro exI [of _ "sz - offset"] exI [of _ offset], simp)
  next
    case False
    then show ?thesis using 1(2,3)
      by (subst (asm) bd_Get_loop.simps) (auto simp: Let_def split: sum.splits if_splits, intro exI [of _ n] exI [of _ offset], simp)
  qed
qed

text \<open>
  C19. The block device as a ring buffer: a blob that was put is read back byte for byte after any number of
  further puts, as long as all of them succeed, together they do not exceed the size of the device minus one
  sector, which is the capacity that the configuration assumes, and locations do not wrap around. Reading only fails if the device fails to read, and with
  the error of the device. This holds although blobs share sectors, wrap around the end of the device and
  pad the last sector with null bytes.
\<close>

theorem block_device_blob_survives:
  assumes "bd_inv bd db ss sc s" "bd_Put bd ss sc s x = (Inr loc, s1)"
    and "lbm_Put_all (blockDeviceBackedLocationBlobMap bd ss sc) s1 ys = Some s2"
    and "length x + sum_list (map length ys) \<le> ss * (sc - 1)"
    and "unat (bd_nextLocation s1) + sum_list (map length ys) < 2 ^ 64"
  shows "bd_Get bd ss sc s2 loc (length x) = Inr x
    \<or> (\<exists>n off err. off + n \<le> ss * sc \<and> dev_ReadAt bd (bd_device s2) n off = Inl err
        \<and> bd_Get bd ss sc s2 loc (length x) = Inl err \<and> err \<noteq> Panic)"
proof -
  have "ss * sc < 2 ^ 64" using assms(1) by (simp add: bd_inv_def)
  then have u: "unat (of_nat ss * of_nat sc :: uint64) = ss * sc"
    by (simp add: unat_of_nat take_bit_nat_eq_self flip: of_nat_mult)
  have "bd_Get bd ss sc s2 loc (length x) = Inr x \<or> (\<exists>err. bd_Get bd ss sc s2 loc (length x) = Inl err \<and> err \<noteq> Panic)"
    using bdlbm.put_then_read [of bd db ss sc s x loc s1 ys s2] assms
    by (simp add: blockDeviceBackedLocationBlobMap_def)
  moreover have "\<exists>n off. off + n \<le> ss * sc \<and> dev_ReadAt bd (bd_device s2) n off = Inl err"
    if "bd_Get bd ss sc s2 loc (length x) = Inl err" "err \<noteq> Panic" for err
    using that bd_Get_loop_error unfolding bd_Get_def u Let_def by (auto split: if_splits)
  ultimately show ?thesis by blast
qed

text \<open>A new map satisfies the invariant: its first location is rounded up to a sector.\<close>

lemma unat_round_down:
  assumes "0 < n" "n < 2 ^ 64"
  shows "unat (x div of_nat n * of_nat n :: uint64) = unat x div n * n"
proof -
  have n: "unat (of_nat n :: uint64) = n" using assms(2) by (simp add: unat_of_nat take_bit_nat_eq_self)
  have "unat x div n * n < 2 ^ 64"
    using le_less_trans [OF div_times_less_eq_dividend unat_bounds(4), of x n] by simp
  then show ?thesis by (simp add: unat_word_ariths(2) n unat_div_distrib)
qed

lemma bd_New_inv:
  assumes "block_device bd db (ss * sc)" "0 < ss" "0 < sc" "ss * sc < 2 ^ 63"
  shows "bd_inv bd db ss sc (NewBlockDeviceBackedLocationBlobMap ss d l)"
proof -
  have "ss \<le> ss * sc" using assms(3) by simp
  then have "ss < 2 ^ 63" using assms(4) by linarith
  then have "ss < 2 ^ 64" by simp
  then show ?thesis using assms unat_round_down [of ss "l + of_nat ss - 1"]
    by (simp add: bd_inv_def shared_inv_def NewBlockDeviceBackedLocationBlobMap_def Let_def)
qed

text \<open>
  C20. The ring buffer in memory refines its specification: reading returns the bytes of the ring from the
  location on, modulo its size, and a put that is not larger than the ring succeeds, changing exactly the
  bytes at the allocated location and returning that location.
\<close>

theorem in_memory_refines_ring:
  assumes "im_inv sz s" "length x \<le> sz"
  shows "im_Get s l n = Inr (ring_read (im_data s) (unat l) n)
    \<and> (\<exists>loc s'. im_Put s x = (Inr loc, s') \<and> allocateLocation (im_nextLocation s) (length x) = (loc, im_nextLocation s')
        \<and> ring_written (im_data s) (im_data s') (unat loc) x 0)"
  using im_Get_eq [OF assms(1)] im_Put_ok [OF assms] by (metis inMemoryLocationBlobMap.select_convs)

text \<open>
  Allocation never hands out a range that crosses the end of the 64-bit location space: the location is
  the cursor, or zero if the cursor would overflow, and the new cursor is the exact end of the range.
\<close>

theorem allocation_bounds:
  assumes "n < 2 ^ 63"
  shows "case allocateLocation nextLocation n of (location, nextLocation') \<Rightarrow>
    unat nextLocation' = unat location + n
    \<and> location = (if unat nextLocation + n < 2 ^ 64 then nextLocation else 0)"
proof -
  have n: "unat (of_nat n :: uint64) = n" using assms by (simp add: unat_of_nat take_bit_nat_eq_self)
  show ?thesis
    using n unat_plus_no_carry [of nextLocation "of_nat n"] by (auto simp: allocateLocation_def bits_Add64_def)
qed

section \<open>Concrete instances\<close>

text \<open>A device of four sectors of two bytes.\<close>

definition example_bytes :: "bytes \<Rightarrow> bytes" where
  "example_bytes d = take 8 (d @ [0, 0, 0, 0, 0, 0, 0, 0])"

definition example_device :: "bytes BlockDevice" where
  "example_device = \<lparr>dev_ReadAt = (\<lambda>d n off. Inr (take n (drop off (example_bytes d)))),
     dev_WriteAt = (\<lambda>d x off. (None, put_bytes (example_bytes d) off x))\<rparr>"

lemma example_block_device: "block_device example_device example_bytes (2 * 4)"
proof -
  have len: "length (example_bytes d) = 8" for d by (simp add: example_bytes_def)
  have "example_bytes (put_bytes (example_bytes d) off x) = put_bytes (example_bytes d) off x"
    if "off + length x \<le> 8" for d off x
    using that len [of d] by (simp add: example_bytes_def [of "put_bytes _ _ _"])
  then show ?thesis by (auto simp: block_device_def example_device_def len)
qed

definition example_map :: "bytes blockDeviceBackedLocationBlobMap" where
  "example_map = NewBlockDeviceBackedLocationBlobMap 2 [] 5"

lemma replicate_two: "replicate 2 (0 :: byte) = [0, 0]"
  by (simp add: numeral_2_eq_2)

lemmas bd_eval = bd_Put_def allocateLocation_def bits_Add64_def first_sector_def prepare_last_sector_def
  write_shared_def write_rest_def write_full.simps example_device_def example_bytes_def put_bytes_def replicate_two Let_def

lemma example_map_eq:
  "example_map = \<lparr>bd_device = [], bd_nextLocation = 6, bd_sectors = [], bd_sharedSector = None\<rparr>"
  by code_simp

lemma example_put:
  "bd_Put example_device 2 4 example_map [1, 2, 3] =
     (Inr 6, \<lparr>bd_device = [3, 0, 0, 0, 0, 0, 1, 2], bd_nextLocation = 9, bd_sectors = [[3, 0]], bd_sharedSector = Some 0\<rparr>)"
  by (simp add: bd_eval example_map_eq)

lemma example_put_again:
  "lbm_Put_all (blockDeviceBackedLocationBlobMap example_device 2 4)
     \<lparr>bd_device = [3, 0, 0, 0, 0, 0, 1, 2], bd_nextLocation = 9, bd_sectors = [[3, 0]], bd_sharedSector = Some 0\<rparr> [[4], [5, 6]] =
   Some \<lparr>bd_device = [3, 4, 5, 6, 0, 0, 1, 2], bd_nextLocation = 12, bd_sectors = [[3, 4]], bd_sharedSector = None\<rparr>"
  by (simp add: bd_eval blockDeviceBackedLocationBlobMap_def)

theorem block_device_blob_survives_witness:
  "bd_Get example_device 2 4
     \<lparr>bd_device = [3, 4, 5, 6, 0, 0, 1, 2], bd_nextLocation = 12, bd_sectors = [[3, 4]], bd_sharedSector = None\<rparr> 6 3
     = Inr [1, 2, 3]"
proof -
  let ?s = "\<lparr>bd_device = [3, 4, 5, 6, 0, 0, 1, 2], bd_nextLocation = 12, bd_sectors = [[3, 4]], bd_sharedSector = None\<rparr>"
  have inv: "bd_inv example_device example_bytes 2 4 example_map"
    unfolding example_map_def by (rule bd_New_inv [OF example_block_device]) simp_all
  have len: "length [1, 2, 3 :: byte] = 3" by simp
  have "bd_Get example_device 2 4 ?s 6 3 = Inr [1, 2, 3]
      \<or> (\<exists>n off err. off + n \<le> 2 * 4 \<and> dev_ReadAt example_device (bd_device ?s) n off = Inl err
          \<and> bd_Get example_device 2 4 ?s 6 3 = Inl err \<and> err \<noteq> Panic)"
    by (rule block_device_blob_survives [OF inv example_put example_put_again, unfolded len]) simp_all
  then show ?thesis by (auto simp: example_device_def split: if_splits)
qed

text \<open>
  The last sector is needed: three puts of one, two and six bytes pad the sector in which they end with null
  bytes, which overwrites the first byte of the second blob, although the last two fit the device.
\<close>

lemma padding_overwrites_oldest_sector:
  "\<exists>s1 s2 s3. bd_Put example_device 2 4 (NewBlockDeviceBackedLocationBlobMap 2 [] 0) [1] = (Inr 0, s1)
     \<and> bd_Put example_device 2 4 s1 [2, 3] = (Inr 1, s2)
     \<and> bd_Put example_device 2 4 s2 [4, 5, 6, 7, 8, 9] = (Inr 3, s3)
     \<and> bd_Get example_device 2 4 s3 1 2 = Inr [0, 3]"
  by (simp add: bd_eval NewBlockDeviceBackedLocationBlobMap_def bd_Get_def bd_Get_loop.simps)

theorem in_memory_refines_ring_witness:
  "im_Get (NewInMemoryLocationBlobMap 4) 3 2 = Inr (ring_read (im_data (NewInMemoryLocationBlobMap 4)) 3 2)
   \<and> (\<exists>loc s'. im_Put (NewInMemoryLocationBlobMap 4) [1, 2, 3] = (Inr loc, s')
      \<and> ring_written (im_data (NewInMemoryLocationBlobMap 4)) (im_data s') (unat loc) [1, 2, 3] 0)"
  using in_memory_refines_ring [of 4 "NewInMemoryLocationBlobMap 4" "[1, 2, 3]" 3 2]
  by (auto simp: im_inv_def NewInMemoryLocationBlobMap_def)

theorem allocation_bounds_witness:
  "fst (allocateLocation (- 2) 5) = 0 \<and> unat (snd (allocateLocation (- 2) 5)) = 5"
proof -
  have "\<not> unat (- 2 :: uint64) + 5 < 2 ^ 64" by simp
  then show ?thesis using allocation_bounds [of 5 "- 2"] by (simp split: prod.splits)
qed

end
