(* ===== verification/Location_Records.thy ===== *)
theory Location_Records
  imports Lossy_Map Reference Epoch_List Location_Blob_Map
begin

text \<open>
  The backing stores of the reference-location map of the local object store: an array of records that
  resides in memory and one on a block device, whose records carry the identifier of the epoch in which
  they were written and a checksum seeded by that epoch. Both implement the contract of a record array.
\<close>

type_synonym ReferenceLocationRecord = "(FlatReference, uint64) Record"
type_synonym ReferenceLocationRecordKey = "FlatReference RecordKey"

section \<open>FNV-1a\<close>

definition fnv1a_step :: "uint64 \<Rightarrow> byte \<Rightarrow> uint64" where
  "fnv1a_step h c = (h XOR ucast c) * 1099511628211"

definition fnv1a :: "uint64 \<Rightarrow> bytes \<Rightarrow> uint64" where
  "fnv1a h bs = foldl fnv1a_step h bs"

section \<open>Records on a block device\<close>

text \<open>
  A record has 56 bytes: the epoch, the flat reference, the probing attempt, the location and the checksum.
\<close>

definition blockDeviceBackedReferenceLocationRecordSize :: nat where
  "blockDeviceBackedReferenceLocationRecordSize = 4 + SHA256V1FlatReferenceSizeBytes + 1 + 8 + 8"

lemma record_size [simp]: "blockDeviceBackedReferenceLocationRecordSize = 56"
  by (simp add: blockDeviceBackedReferenceLocationRecordSize_def size_consts)

definition computeChecksumForRecord :: "bytes \<Rightarrow> uint64 \<Rightarrow> uint64" where
  "computeChecksumForRecord record h = fnv1a h (take (SHA256V1FlatReferenceSizeBytes + 1 + 8) (drop 4 record))"

text \<open>
  The offset of a record. The product is computed at 64 bits; one that is negative as a signed number is
  an offset beyond the end of any device.
\<close>

definition record_offset :: "uint64 \<Rightarrow> nat" where
  "record_offset index = unat (index * of_nat blockDeviceBackedReferenceLocationRecordSize)"

definition bdra_Get ::
  "'d BlockDevice \<Rightarrow> 'e EpochList \<Rightarrow> 'd \<Rightarrow> uint64 \<Rightarrow> 'e \<Rightarrow> ReferenceLocationRecord result" where
  "bdra_Get bd E device index resolver =
     (case dev_ReadAt bd device blockDeviceBackedReferenceLocationRecordSize (record_offset index) of
        Inl err \<Rightarrow> Inl err
      | Inr record \<Rightarrow>
          case GetEpochStateForEpochID E resolver (Uint32_at record 0) of
            None \<Rightarrow> Inl ErrRecordInvalidOrExpired
          | Some epochState \<Rightarrow>
              if computeChecksumForRecord record (HashSeed epochState)
                   \<noteq> Uint64_at record (4 + SHA256V1FlatReferenceSizeBytes + 1 + 8)
              then Inl ErrRecordInvalidOrExpired
              else
                case NewFlatReference (take SHA256V1FlatReferenceSizeBytes (drop 4 record)) of
                  Inl err \<Rightarrow> Inl ErrRecordInvalidOrExpired
                | Inr reference \<Rightarrow>
                    let location = Uint64_at record (4 + SHA256V1FlatReferenceSizeBytes + 1) in
                    if \<not> IsValidLocation epochState location (FlatReference_GetSizeBytes reference)
                    then Inl ErrRecordInvalidOrExpired
                    else Inr \<lparr>RecordKey = \<lparr>Key = reference, Attempt = record ! (4 + SHA256V1FlatReferenceSizeBytes)\<rparr>,
                              Value = location\<rparr>)"

text \<open>The model has one reference format, so that the check for it always passes.\<close>

definition serialize_record :: "uint32 \<Rightarrow> uint64 \<Rightarrow> ReferenceLocationRecord \<Rightarrow> bytes" where
  "serialize_record epochID seed record =
     (let rawRecord = le_bytes 4 epochID @ rawFlatReference (Key (RecordKey record))
            @ [Attempt (RecordKey record)] @ le_bytes 8 (Value record)
      in rawRecord @ le_bytes 8 (computeChecksumForRecord rawRecord seed))"

definition bdra_Put ::
  "'d BlockDevice \<Rightarrow> 'e EpochList \<Rightarrow> 'd \<Rightarrow> uint64 \<Rightarrow> ReferenceLocationRecord \<Rightarrow> 'e \<Rightarrow> go_error option \<times> 'd" where
  "bdra_Put bd E device index record resolver =
     (case GetCurrentEpochState E resolver of
        Inl err \<Rightarrow> (Some err, device)
      | Inr (epochState, epochID) \<Rightarrow>
          if IsValidLocation epochState (Value record) (FlatReference_GetSizeBytes (Key (RecordKey record)))
          then dev_WriteAt bd device (serialize_record epochID (HashSeed epochState) record) (record_offset index)
          else (None, device))"

definition NewBlockDeviceBackedReferenceLocationRecordArray ::
  "'d BlockDevice \<Rightarrow> 'e EpochList \<Rightarrow> ('d, FlatReference, uint64, 'e) RecordArray" where
  "NewBlockDeviceBackedReferenceLocationRecordArray bd E = \<lparr>ra_Get = bdra_Get bd E, ra_Put = bdra_Put bd E\<rparr>"

section \<open>Records in memory\<close>

record inMemoryReferenceLocationRecord =
  imr_epochID :: uint32
  imr_record :: ReferenceLocationRecord

text \<open>The zero value of a record: a reference of 35 zero bytes.\<close>

definition zero_record :: inMemoryReferenceLocationRecord where
  "zero_record = \<lparr>imr_epochID = 0,
     imr_record = \<lparr>RecordKey = \<lparr>Key = \<lparr>rawFlatReference = replicate SHA256V1FlatReferenceSizeBytes 0\<rparr>, Attempt = 0\<rparr>,
                   Value = 0\<rparr>\<rparr>"

definition NewInMemoryReferenceLocationRecordArray :: "nat \<Rightarrow> inMemoryReferenceLocationRecord list" where
  "NewInMemoryReferenceLocationRecordArray sz = replicate sz zero_record"

definition imra_Get ::
  "'e EpochList \<Rightarrow> inMemoryReferenceLocationRecord list \<Rightarrow> uint64 \<Rightarrow> 'e \<Rightarrow> ReferenceLocationRecord result" where
  "imra_Get E records index resolver =
     (if unat index \<ge> length records then Inl Panic
      else
        let record = records ! unat index in
        case GetEpochStateForEpochID E resolver (imr_epochID record) of
          None \<Rightarrow> Inl ErrRecordInvalidOrExpired
        | Some epochState \<Rightarrow>
            if IsValidLocation epochState (Value (imr_record record))
                 (FlatReference_GetSizeBytes (Key (RecordKey (imr_record record))))
            then Inr (imr_record record)
            else Inl ErrRecordInvalidOrExpired)"

definition imra_Put ::
  "'e EpochList \<Rightarrow> inMemoryReferenceLocationRecord list \<Rightarrow> uint64 \<Rightarrow> ReferenceLocationRecord \<Rightarrow> 'e
     \<Rightarrow> go_error option \<times> inMemoryReferenceLocationRecord list" where
  "imra_Put E records index record resolver =
     (case GetCurrentEpochState E resolver of
        Inl err \<Rightarrow> (Some err, records)
      | Inr (epochState, epochID) \<Rightarrow>
          if IsValidLocation epochState (Value record) (FlatReference_GetSizeBytes (Key (RecordKey record)))
          then
            if unat index \<ge> length records then (Some Panic, records)
            else (None, records[unat index := \<lparr>imr_epochID = epochID, imr_record = record\<rparr>])
          else (None, records))"

definition inMemoryReferenceLocationRecordArray ::
  "'e EpochList \<Rightarrow> (inMemoryReferenceLocationRecord list, FlatReference, uint64, 'e) RecordArray" where
  "inMemoryReferenceLocationRecordArray E = \<lparr>ra_Get = imra_Get E, ra_Put = imra_Put E\<rparr>"

section \<open>The reference-location map\<close>

text \<open>
  The state of a record array of either kind, and the factory for both. That a slice cannot be allocated,
  because its length is negative or exceeds the memory, ends the program and is not modelled.
\<close>

datatype 'd record_array_state = InMemoryRecords "inMemoryReferenceLocationRecord list" | DeviceRecords 'd

definition LocationRecordArray ::
  "'d BlockDevice \<Rightarrow> 'e EpochList \<Rightarrow> ('d record_array_state, FlatReference, uint64, 'e) RecordArray" where
  "LocationRecordArray bd E =
     \<lparr>ra_Get = (\<lambda>a index resolver. case a of
        InMemoryRecords records \<Rightarrow> imra_Get E records index resolver
      | DeviceRecords device \<Rightarrow> bdra_Get bd E device index resolver),
      ra_Put = (\<lambda>a index record resolver. case a of
        InMemoryRecords records \<Rightarrow> map_prod id InMemoryRecords (imra_Put E records index record resolver)
      | DeviceRecords device \<Rightarrow> map_prod id DeviceRecords (bdra_Put bd E device index record resolver))\<rparr>"

definition LocationRecordArrayFactory ::
  "'d BlockDevice \<Rightarrow> 'e EpochList \<Rightarrow> ('d, 'd record_array_state, FlatReference, uint64, 'e) RecordArrayFactory" where
  "LocationRecordArrayFactory bd E =
     \<lparr>GetBlockDeviceBackedRecordSize = int blockDeviceBackedReferenceLocationRecordSize,
      NewInMemoryRecordArray = (\<lambda>entries. (LocationRecordArray bd E,
        InMemoryRecords (NewInMemoryReferenceLocationRecordArray (nat entries)))),
      NewBlockDeviceBackedRecordArray = (\<lambda>blockDevice. (LocationRecordArray bd E, DeviceRecords blockDevice))\<rparr>"

text \<open>The hash of a record key. The attempt has eight bits, so that only the first of the four rounds mixes it in.\<close>

fun hash_attempt :: "nat \<Rightarrow> uint8 \<Rightarrow> uint64 \<Rightarrow> uint64" where
  "hash_attempt 0 attempt h = h"
| "hash_attempt (Suc n) attempt h = hash_attempt n (drop_bit 8 attempt) (fnv1a_step h (attempt AND 0xff))"

definition referenceLocationHasher :: "uint64 \<Rightarrow> ReferenceLocationRecordKey \<Rightarrow> uint64" where
  "referenceLocationHasher initialization k =
     hash_attempt 4 (Attempt k) (fnv1a initialization (rawFlatReference (Key k)))"

section \<open>Serialization\<close>

definition flat_reference_ok :: "FlatReference \<Rightarrow> bool" where
  "flat_reference_ok r \<longleftrightarrow> NewFlatReference (rawFlatReference r) = Inr r"

lemma flat_reference_ok_iff:
  "flat_reference_ok r \<longleftrightarrow> length (rawFlatReference r) = 35 \<and> 1 \<le> FlatReference_GetSizeBytes r
     \<and> FlatReference_GetSizeBytes r \<le> 2 ^ 21"
  by (cases r) (auto simp: flat_reference_ok_def NewFlatReference_def validateObjectSizeBytes_def size_consts Let_def
      split: if_splits)

lemma NewFlatReference_ok: "NewFlatReference raw = Inr r \<Longrightarrow> flat_reference_ok r"
  by (auto simp: flat_reference_ok_def NewFlatReference_def Let_def split: if_splits option.splits)

lemma length_serialize_record [simp]:
  "length (rawFlatReference (Key (RecordKey r))) = 35 \<Longrightarrow> length (serialize_record i seed r) = 56"
  by (simp add: serialize_record_def Let_def)

lemma serialize_record_fields:
  assumes "length (rawFlatReference (Key (RecordKey r))) = 35"
  shows "Uint32_at (serialize_record i seed r) 0 = i"
    and "take 35 (drop 4 (serialize_record i seed r)) = rawFlatReference (Key (RecordKey r))"
    and "serialize_record i seed r ! 39 = Attempt (RecordKey r)"
    and "Uint64_at (serialize_record i seed r) 40 = Value r"
    and "Uint64_at (serialize_record i seed r) 48 = computeChecksumForRecord (serialize_record i seed r) seed"
  using assms
  by (simp_all add: serialize_record_def Let_def Uint32_at_def Uint64_at_def of_le_le_bytes nth_append
      computeChecksumForRecord_def size_consts take_bit_word_eq_self)

section \<open>The contract of a record array\<close>

text \<open>
  The epoch in which records are written can be looked up again, and a record is valid if it can be written.
\<close>

definition current_resolves_in :: "'e EpochList \<Rightarrow> 'e \<Rightarrow> bool" where
  "current_resolves_in E e \<longleftrightarrow>
     (\<forall>st i. GetCurrentEpochState E e = Inr (st, i) \<longrightarrow> GetEpochStateForEpochID E e i = Some st)"

definition valid_record :: "'e EpochList \<Rightarrow> 'e \<Rightarrow> ReferenceLocationRecord \<Rightarrow> bool" where
  "valid_record E e r \<longleftrightarrow>
     (case GetCurrentEpochState E e of
        Inl err \<Rightarrow> False
      | Inr (st, i) \<Rightarrow> IsValidLocation st (Value r) (FlatReference_GetSizeBytes (Key (RecordKey r))))"

interpretation imra: record_array "cmp_Compare :: uint64 ValueComparator" "inMemoryReferenceLocationRecordArray E"
    "\<lambda>a. length a = n" n "current_resolves_in E" "valid_record E" "\<lambda>_. True"
  for E :: "'e EpochList" and n
  by unfold_locales
     (auto simp: inMemoryReferenceLocationRecordArray_def imra_Put_def imra_Get_def current_resolves_in_def
       valid_record_def nth_list_update Let_def word_unat_eq_iff split: if_splits sum.splits option.splits)

text \<open>
  For an array on a block device, the hypotheses on the device are those of
  \<^const>\<open>block_device\<close> and that reads within the device succeed.
\<close>

definition device_array :: "'d BlockDevice \<Rightarrow> ('d \<Rightarrow> bytes) \<Rightarrow> nat \<Rightarrow> nat \<Rightarrow> bool" where
  "device_array bd dev_bytes sz n \<longleftrightarrow>
     block_device bd dev_bytes sz \<and> n * 56 \<le> sz \<and> sz < 2 ^ 64
   \<and> (\<forall>d k off. off + k \<le> sz \<longrightarrow> (\<exists>x. dev_ReadAt bd d k off = Inr x))"

lemma record_offset_eq:
  assumes "device_array bd dev_bytes sz n" "unat i < n"
  shows "record_offset i = unat i * 56" "record_offset i + 56 \<le> sz"
proof -
  have "unat i * 56 + 56 \<le> n * 56" using assms(2) by linarith
  then show o: "record_offset i = unat i * 56"
    using assms(1) by (simp add: record_offset_def device_array_def unat_word_ariths)
  show "record_offset i + 56 \<le> sz" unfolding o using \<open>unat i * 56 + 56 \<le> n * 56\<close> assms(1) by (simp add: device_array_def)
qed

lemma device_read:
  assumes "device_array bd dev_bytes sz n" "off + k \<le> sz"
  shows "dev_ReadAt bd d k off = Inr (take k (drop off (dev_bytes d)))"
proof -
  obtain x where x: "dev_ReadAt bd d k off = Inr x" using assms unfolding device_array_def by blast
  then show ?thesis using assms by (simp add: device_array_def block_device_def)
qed

lemma bdra_Get_bytes:
  assumes "device_array bd dev_bytes sz n" "unat i < n" "unat j < n"
    and "\<And>k. k = 56 \<Longrightarrow> take k (drop (record_offset i) (dev_bytes d)) = take k (drop (record_offset j) (dev_bytes d'))"
  shows "bdra_Get bd E d i e = bdra_Get bd E d' j e"
  using device_read [OF assms(1) record_offset_eq(2) [OF assms(1,2)]]
    device_read [OF assms(1) record_offset_eq(2) [OF assms(1,3)]] assms(4)
  by (simp add: bdra_Get_def)

text \<open>What was serialized is read back.\<close>

lemma bdra_Get_serialized:
  assumes "dev_ReadAt bd d 56 (record_offset i) = Inr (serialize_record epochID (HashSeed st) r)"
    and "GetEpochStateForEpochID E e epochID = Some st" "flat_reference_ok (Key (RecordKey r))"
    and "IsValidLocation st (Value r) (FlatReference_GetSizeBytes (Key (RecordKey r)))"
  shows "bdra_Get bd E d i e = Inr r"
proof -
  have l: "length (rawFlatReference (Key (RecordKey r))) = 35" using assms(3) by (simp add: flat_reference_ok_iff)
  show ?thesis
    using assms serialize_record_fields [OF l]
    by (simp add: bdra_Get_def size_consts flat_reference_ok_def Let_def)
qed

lemma bdra_Put_written:
  assumes "device_array bd dev_bytes sz n" "unat i < n" "flat_reference_ok (Key (RecordKey r))"
    and "bdra_Put bd E d i r e = (None, d')" "valid_record E e r"
  shows "\<exists>st epochID. GetCurrentEpochState E e = Inr (st, epochID)
    \<and> dev_bytes d' = put_bytes (dev_bytes d) (record_offset i) (serialize_record epochID (HashSeed st) r)"
proof -
  obtain st epochID where st: "GetCurrentEpochState E e = Inr (st, epochID)"
    and v: "IsValidLocation st (Value r) (FlatReference_GetSizeBytes (Key (RecordKey r)))"
    using assms(5) by (auto simp: valid_record_def split: sum.splits)
  have "dev_WriteAt bd d (serialize_record epochID (HashSeed st) r) (record_offset i) = (None, d')"
    using assms(4) st v by (simp add: bdra_Put_def)
  moreover have "length (serialize_record epochID (HashSeed st) r) = 56" using assms(3) by (simp add: flat_reference_ok_iff)
  ultimately have "dev_bytes d' = put_bytes (dev_bytes d) (record_offset i) (serialize_record epochID (HashSeed st) r)"
    using assms(1) record_offset_eq(2) [OF assms(1,2)] by (simp add: device_array_def block_device_def)
  then show ?thesis using st by blast
qed

lemma bdra_Put_unwritten: "bdra_Put bd E d i r e = (None, d') \<Longrightarrow> \<not> valid_record E e r \<Longrightarrow> d' = d"
  by (auto simp: bdra_Put_def valid_record_def split: sum.splits if_splits)

lemma offsets_disjoint:
  assumes "device_array bd dev_bytes sz n" "unat i < n" "unat j < n" "i \<noteq> j"
  shows "record_offset i + 56 \<le> record_offset j \<or> record_offset j + 56 \<le> record_offset i"
proof -
  have "unat i < unat j \<or> unat j < unat i" using assms(4) by (metis linorder_neqE_nat word_unat_eq_iff)
  then show ?thesis using record_offset_eq(1) [OF assms(1,2)] record_offset_eq(1) [OF assms(1,3)] by auto
qed

lemma bdra_Get_Put:
  assumes dev: "device_array bd dev_bytes sz n" and e: "current_resolves_in E e" and i: "unat i < n" and j: "unat j < n"
    and r: "flat_reference_ok (Key (RecordKey r))" and put: "bdra_Put bd E d i r e = (None, d')"
  shows "bdra_Get bd E d' j e = (if i = j \<and> valid_record E e r then Inr r else bdra_Get bd E d j e)"
proof (cases "valid_record E e r")
  case valid: True
  obtain st epochID where st: "GetCurrentEpochState E e = Inr (st, epochID)"
    and b: "dev_bytes d' = put_bytes (dev_bytes d) (record_offset i) (serialize_record epochID (HashSeed st) r)"
    using bdra_Put_written [OF dev i r put valid] by blast
  have len: "length (serialize_record epochID (HashSeed st) r) = 56" "length (dev_bytes d) = sz"
    using r dev by (simp_all add: flat_reference_ok_iff device_array_def block_device_def)
  show ?thesis
  proof (cases "i = j")
    case True
    have "take 56 (drop (record_offset i) (dev_bytes d')) = serialize_record epochID (HashSeed st) r"
      using b len record_offset_eq(2) [OF dev i] by (simp add: put_bytes_same)
    then have "dev_ReadAt bd d' 56 (record_offset i) = Inr (serialize_record epochID (HashSeed st) r)"
      using device_read [OF dev record_offset_eq(2) [OF dev i]] by simp
    then have "bdra_Get bd E d' i e = Inr r"
      using st e r valid by (intro bdra_Get_serialized) (auto simp: current_resolves_in_def valid_record_def)
    then show ?thesis using True valid by simp
  next
    case False
    then have "take k (drop (record_offset j) (dev_bytes d')) = take k (drop (record_offset j) (dev_bytes d))" if "k = 56" for k
      unfolding that
      using offsets_disjoint [OF dev i j False] record_offset_eq(2) [OF dev i] record_offset_eq(2) [OF dev j] len b
      by (auto simp: take_drop_put_bytes_before take_drop_put_bytes_after)
    then show ?thesis using bdra_Get_bytes [OF dev j j] False by simp
  qed
next
  case False
  then show ?thesis using bdra_Put_unwritten [OF put] by simp
qed

interpretation bdra: record_array "cmp_Compare :: uint64 ValueComparator"
    "NewBlockDeviceBackedReferenceLocationRecordArray bd E" "\<lambda>_. device_array bd dev_bytes sz n" n
    "current_resolves_in E" "valid_record E" flat_reference_ok
  for bd :: "'d BlockDevice" and E :: "'e EpochList" and dev_bytes sz n
proof (unfold_locales, goal_cases)
  case (2 a i e r)
  then show ?case
    by (auto simp: NewBlockDeviceBackedReferenceLocationRecordArray_def bdra_Get_def Let_def
        dest: NewFlatReference_ok split: sum.splits option.splits if_splits)
next
  case (3 e a i j r a')
  then show ?case
    using bdra_Get_Put [of bd dev_bytes sz n E e i j r a a'] by (simp add: NewBlockDeviceBackedReferenceLocationRecordArray_def)
qed

section \<open>Properties\<close>

text \<open>Only serialized records are accepted.\<close>

lemma split_record:
  assumes "length x = (56 :: nat)"
  shows "x = take 4 x @ take 35 (drop 4 x) @ [x ! 39] @ take 8 (drop 40 x) @ take 8 (drop 48 x)"
proof -
  have "drop 39 x = x ! 39 # drop 40 x" using Cons_nth_drop_Suc [of 39 x] assms by simp
  moreover have "drop 4 x = take 35 (drop 4 x) @ drop 39 x" "drop 40 x = take 8 (drop 40 x) @ drop 48 x"
    using append_take_drop_id [of 35 "drop 4 x"] append_take_drop_id [of 8 "drop 40 x"] by (simp_all del: append_take_drop_id)
  moreover have "x = take 4 x @ drop 4 x" "drop 48 x = take 8 (drop 48 x)" using assms by simp_all
  ultimately show ?thesis by (metis append_Cons append_Nil)
qed

lemma serialize_record_parsed:
  assumes "length x = 56" "computeChecksumForRecord x seed = Uint64_at x 48"
  shows "serialize_record (Uint32_at x 0) seed
    \<lparr>RecordKey = \<lparr>Key = \<lparr>rawFlatReference = take 35 (drop 4 x)\<rparr>, Attempt = x ! 39\<rparr>, Value = Uint64_at x 40\<rparr> = x"
    (is "serialize_record _ _ ?r = x")
proof -
  define y where "y = take 4 x @ take 35 (drop 4 x) @ [x ! 39] @ take 8 (drop 40 x)"
  have x: "x = y @ take 8 (drop 48 x)" using split_record [OF assms(1)] by (simp add: y_def)
  have f: "le_bytes 4 (Uint32_at x 0) = take 4 x" "le_bytes 8 (Uint64_at x 40) = take 8 (drop 40 x)"
      "le_bytes 8 (Uint64_at x 48) = take 8 (drop 48 x)"
    using assms(1) by (simp_all add: Uint32_at_def Uint64_at_def le_bytes_of_le)
  have "length y = 48" using assms(1) by (simp add: y_def)
  moreover have "take 44 (drop 4 x) = take 44 (drop 4 (y @ take 8 (drop 48 x)))" using x by simp
  ultimately have y: "take 44 (drop 4 y) = take 44 (drop 4 x)" by simp
  have "computeChecksumForRecord y seed = Uint64_at x 48"
    using assms(2) y by (simp add: computeChecksumForRecord_def size_consts)
  then have "serialize_record (Uint32_at x 0) seed ?r = y @ take 8 (drop 48 x)"
    using f by (simp add: serialize_record_def y_def)
  then show ?thesis using x by simp
qed

lemma bdra_Get_parsed:
  assumes "dev_ReadAt bd d 56 (record_offset i) = Inr x" "length x = 56" "bdra_Get bd E d i e = Inr r"
  shows "\<exists>epochID st. x = serialize_record epochID (HashSeed st) r \<and> GetEpochStateForEpochID E e epochID = Some st
    \<and> IsValidLocation st (Value r) (FlatReference_GetSizeBytes (Key (RecordKey r)))"
proof -
  obtain st where st: "GetEpochStateForEpochID E e (Uint32_at x 0) = Some st"
      "computeChecksumForRecord x (HashSeed st) = Uint64_at x 48"
      "IsValidLocation st (Value r) (FlatReference_GetSizeBytes (Key (RecordKey r)))"
    and r: "r = \<lparr>RecordKey = \<lparr>Key = \<lparr>rawFlatReference = take 35 (drop 4 x)\<rparr>, Attempt = x ! 39\<rparr>, Value = Uint64_at x 40\<rparr>"
    using assms(1,3) by (auto simp: bdra_Get_def size_consts Let_def NewFlatReference_def split: option.splits if_splits)
  have "x = serialize_record (Uint32_at x 0) (HashSeed st) r"
    unfolding r by (rule serialize_record_parsed [OF assms(2) st(2), symmetric])
  then show ?thesis using st by blast
qed

text \<open>
  C21. On a block device, the lookup of a record is the exact inverse of its serialization: it yields a record
  if and only if the bytes at its index are the serialization of that record in an epoch that is still known,
  with the checksum seeded by that epoch, a valid reference and a location that is valid in the epoch. A write
  in the current epoch makes precisely that record readable, and leaves all others as they were.
\<close>

theorem location_record_roundtrip:
  assumes "device_array bd dev_bytes sz n" "unat i < n" "unat j < n" "current_resolves_in E e"
    and "flat_reference_ok (Key (RecordKey r))"
  shows "(bdra_Get bd E d i e = Inr r \<longleftrightarrow>
      (\<exists>epochID st. take 56 (drop (56 * unat i) (dev_bytes d)) = serialize_record epochID (HashSeed st) r
        \<and> GetEpochStateForEpochID E e epochID = Some st
        \<and> IsValidLocation st (Value r) (FlatReference_GetSizeBytes (Key (RecordKey r)))))
    \<and> (bdra_Put bd E d i r e = (None, d') \<longrightarrow>
      bdra_Get bd E d' j e = (if i = j \<and> valid_record E e r then Inr r else bdra_Get bd E d j e))"
proof (intro conjI impI)
  let ?x = "take 56 (drop (56 * unat i) (dev_bytes d))"
  note o = record_offset_eq [OF assms(1,2)]
  have read: "dev_ReadAt bd d 56 (record_offset i) = Inr ?x"
    using device_read [OF assms(1) o(2)] o(1) by (simp add: mult.commute)
  have len: "length ?x = 56" using o assms(1) by (simp add: device_array_def block_device_def)
  show "bdra_Get bd E d i e = Inr r \<longleftrightarrow>
      (\<exists>epochID st. ?x = serialize_record epochID (HashSeed st) r
        \<and> GetEpochStateForEpochID E e epochID = Some st
        \<and> IsValidLocation st (Value r) (FlatReference_GetSizeBytes (Key (RecordKey r))))"
    using bdra_Get_parsed [OF read len] bdra_Get_serialized [OF _ _ assms(5)] read by metis
  show "bdra_Get bd E d' j e = (if i = j \<and> valid_record E e r then Inr r else bdra_Get bd E d j e)"
    if "bdra_Put bd E d i r e = (None, d')"
    using bdra_Get_Put [OF assms(1,4,2,3,5) that] .
qed

section \<open>Concrete instances\<close>

text \<open>A device that keeps its bytes in memory.\<close>

definition ram_bytes :: "nat \<Rightarrow> bytes \<Rightarrow> bytes" where
  "ram_bytes sz d = take sz (d @ replicate sz 0)"

definition ram_device :: "nat \<Rightarrow> bytes BlockDevice" where
  "ram_device sz = \<lparr>dev_ReadAt = (\<lambda>d n off. Inr (take n (drop off (ram_bytes sz d)))),
     dev_WriteAt = (\<lambda>d x off. (None, put_bytes (ram_bytes sz d) off x))\<rparr>"

lemma ram_device_array:
  assumes "n * 56 \<le> sz" "sz < 2 ^ 64"
  shows "device_array (ram_device sz) (ram_bytes sz) sz n"
proof -
  have len: "length (ram_bytes sz d) = sz" for d by (simp add: ram_bytes_def)
  have "ram_bytes sz (put_bytes (ram_bytes sz d) off x) = put_bytes (ram_bytes sz d) off x"
    if "off + length x \<le> sz" for d off x
    using that len [of d] by (simp add: ram_bytes_def [of _ "put_bytes _ _ _"])
  then show ?thesis using assms by (auto simp: device_array_def block_device_def ram_device_def len)
qed

definition example_epoch_list :: "nat volatileEpochList" where
  "example_epoch_list = \<lparr>v_maximumLocationSpan = 100, v_randomNumberGenerator = 0, v_epochID = 7,
     v_epochState = \<lparr>HashSeed = 5, MinimumLocation = 0, MaximumLocation = 50\<rparr>\<rparr>"

lemma volatile_current_resolves: "current_resolves_in (volatileEpochList rng) e"
  by (simp add: current_resolves_in_def volatileEpochList_def v_GetCurrentEpochState_def v_GetEpochStateForEpochID_def)

definition example_record :: ReferenceLocationRecord where
  "example_record = \<lparr>RecordKey = \<lparr>Key = \<lparr>rawFlatReference = replicate 32 9 @ [10, 0, 0]\<rparr>, Attempt = 2\<rparr>, Value = 20\<rparr>"

theorem location_record_roundtrip_witness:
  "\<exists>d'. bdra_Put (ram_device 112) (volatileEpochList example_rng) [] 1 example_record example_epoch_list = (None, d')
   \<and> bdra_Get (ram_device 112) (volatileEpochList example_rng) d' 1 example_epoch_list = Inr example_record"
proof -
  have sz: "FlatReference_GetSizeBytes (Key (RecordKey example_record)) = 10"
    by (simp add: example_record_def FlatReference_GetSizeBytes_def nth_append)
  then have ok: "flat_reference_ok (Key (RecordKey example_record))"
    by (simp add: flat_reference_ok_iff example_record_def)
  have v: "valid_record (volatileEpochList example_rng) example_epoch_list example_record"
    using sz by (simp add: valid_record_def volatileEpochList_def v_GetCurrentEpochState_def example_epoch_list_def
        IsValidLocation_def example_record_def)
  have "fst (bdra_Put (ram_device 112) (volatileEpochList example_rng) [] 1 example_record example_epoch_list) = None"
    by (simp add: bdra_Put_def ram_device_def volatileEpochList_def v_GetCurrentEpochState_def)
  then obtain d' where put: "bdra_Put (ram_device 112) (volatileEpochList example_rng) [] 1 example_record example_epoch_list = (None, d')"
    by (metis prod.collapse)
  have "bdra_Get (ram_device 112) (volatileEpochList example_rng) d' 1 example_epoch_list = Inr example_record"
    using conjunct2 [OF location_record_roundtrip [OF ram_device_array [of 2 112] _ _ volatile_current_resolves [of example_rng example_epoch_list] ok, of 1 1]] put v
    by simp
  then show ?thesis using put by blast
qed

end
