(* ===== verification/Object_Store.thy ===== *)
theory Object_Store
  imports Reference
begin

text \<open>
  The interfaces of object storage: downloaders and uploaders of objects, and stores, which are both. Their
  methods act on an explicit state. Contexts, which only carry deadlines and cancellation, are not modelled.
\<close>

record ('s, 'r) Downloader =
  DownloadObject :: "'s \<Rightarrow> 'r \<Rightarrow> Contents result \<times> 's"

datatype 'l UploadObjectResult =
    UploadObjectComplete (Lease: 'l)
  | UploadObjectIncomplete (IncompleteContents: "Contents option") (WantOutgoingReferencesLeases: "nat list")
  | UploadObjectMissing

record ('s, 'r, 'l) Uploader =
  UploadObject :: "'s \<Rightarrow> 'r \<Rightarrow> Contents option \<Rightarrow> 'l list \<Rightarrow> bool \<Rightarrow> 'l UploadObjectResult result \<times> 's"

record ('s, 'r, 'l) Store =
  store_Downloader :: "('s, 'r) Downloader"
  store_Uploader :: "('s, 'r, 'l) Uploader"

definition NewStore_object :: "('s, 'r) Downloader \<Rightarrow> ('s, 'r, 'l) Uploader \<Rightarrow> ('s, 'r, 'l) Store" where
  "NewStore_object downloader uploader = \<lparr>store_Downloader = downloader, store_Uploader = uploader\<rparr>"

text \<open>The contents of a reference: the data has the size and the hash that the reference promises.\<close>

definition contents_of :: "LocalReference \<Rightarrow> Contents \<Rightarrow> bool" where
  "contents_of r c \<longleftrightarrow> contents_reference c = r \<and> length (contents_data c) = GetSizeBytes r
     \<and> Sum256 (contents_data c) = GetHash r"

lemma NewContentsFromFullData_contents_of: "NewContentsFromFullData r d = Inr c \<Longrightarrow> contents_of r c \<and> contents_data c = d"
  by (auto simp: NewContentsFromFullData_def contents_of_def Let_def split: if_splits option.splits)

end
