(* ===== verification/Local_Store.thy ===== *)
theory Local_Store
  imports Object_Store Location_Records Location_Blob_Map Epoch_List
begin

text \<open>
  The local object store, which composes the reference-location map, the location-blob map and the epoch
  list. The methods run one at a time; the locks that the code holds are not modelled.
\<close>

section \<open>The store\<close>

record ('a, 'b, 'e) store =
  currentRegionSizeBytes :: uint64
  newRegionSizeBytes :: uint64
  referenceLocationMap :: "('a, FlatReference, uint64, 'e) hashMap"
  locationBlobMap :: "'b LocationBlobMap"
  epochList :: "'e EpochList"

record ('a, 'b, 'e) store_state =
  st_records :: 'a
  st_blobs :: 'b
  st_epochs :: 'e

definition NewStore ::
  "('a, FlatReference, uint64, 'e) hashMap \<Rightarrow> 'b LocationBlobMap \<Rightarrow> 'e EpochList \<Rightarrow> uint64 \<Rightarrow> uint64 \<Rightarrow> ('a, 'b, 'e) store" where
  "NewStore rlm lbm el currentRegion newRegion =
     \<lparr>currentRegionSizeBytes = currentRegion, newRegionSizeBytes = newRegion, referenceLocationMap = rlm,
      locationBlobMap = lbm, epochList = el\<rparr>"

text \<open>The location of an object and whether it needs to be refreshed. The remainder by zero panics.\<close>

definition getObjectLocation ::
  "('a, 'b, 'e) store \<Rightarrow> ('a, 'b, 'e) store_state \<Rightarrow> FlatReference \<Rightarrow> (uint64 \<times> bool) result" where
  "getObjectLocation s st reference =
     (case hashMap_Get (referenceLocationMap s) (st_records st) reference (st_epochs st) of
        Inl err \<Rightarrow> Inl err
      | Inr location \<Rightarrow>
          let distanceFromMaximum = sint (lbm_GetNextPutLocation (locationBlobMap s) (st_blobs st) - location) in
          if currentRegionSizeBytes s = 0 then Inl Panic
          else
            let threshold = (location XOR Uint64_at (rawFlatReference reference) 0) mod currentRegionSizeBytes s;
                needsRefresh = distanceFromMaximum > sint (newRegionSizeBytes s + threshold)
            in Inr (location, needsRefresh))"

definition readObjectAtLocation ::
  "('a, 'b, 'e) store \<Rightarrow> ('a, 'b, 'e) store_state \<Rightarrow> FlatReference \<Rightarrow> uint64
     \<Rightarrow> Contents result \<times> ('a, 'b, 'e) store_state" where
  "readObjectAtLocation s st reference location =
     (let sizeBytes = FlatReference_GetSizeBytes reference in
      case lbm_Get (locationBlobMap s) (st_blobs st) location sizeBytes of
        Inl err \<Rightarrow> (Inl err, st)
      | Inr data \<Rightarrow>
          case NewContentsFromFullData (FlatReference_GetLocalReference reference) data of
            Inr contents \<Rightarrow> (Inr contents, st)
          | Inl err \<Rightarrow>
              if err = Panic then (Inl Panic, st)
              else
                case DiscardUpToLocation (epochList s) (st_epochs st) (location + of_nat sizeBytes) of
                  Inl err \<Rightarrow> (Inl err, st)
                | Inr e \<Rightarrow> (Inl (Status NotFound), st\<lparr>st_epochs := e\<rparr>))"

text \<open>The second half of \<open>maybeWriteObject\<close>, which writes the object unconditionally.\<close>

definition write_object ::
  "('a, 'b, 'e) store \<Rightarrow> ('a, 'b, 'e) store_state \<Rightarrow> FlatReference \<Rightarrow> bytes
     \<Rightarrow> go_error option \<times> ('a, 'b, 'e) store_state" where
  "write_object s st reference data =
     (case lbm_Put (locationBlobMap s) (st_blobs st) data of
        (Inl err, b) \<Rightarrow> (Some err, st\<lparr>st_blobs := b\<rparr>)
      | (Inr location, b) \<Rightarrow>
          case FinalizeWriteUpToLocation (epochList s) (st_epochs st) (location + of_nat (length data)) of
            (Some err, e) \<Rightarrow> (Some err, st\<lparr>st_blobs := b, st_epochs := e\<rparr>)
          | (None, e) \<Rightarrow>
              case hashMap_Put (referenceLocationMap s) (st_records st) reference location e of
                (err, a) \<Rightarrow> (err, st\<lparr>st_blobs := b, st_epochs := e, st_records := a\<rparr>))"

definition maybeWriteObject ::
  "('a, 'b, 'e) store \<Rightarrow> ('a, 'b, 'e) store_state \<Rightarrow> FlatReference \<Rightarrow> Contents
     \<Rightarrow> go_error option \<times> ('a, 'b, 'e) store_state" where
  "maybeWriteObject s st reference contents =
     (case getObjectLocation s st reference of
        Inl err \<Rightarrow>
          if err \<noteq> Status NotFound then (Some err, st)
          else write_object s st reference (GetFullData contents)
      | Inr (location, needsRefresh) \<Rightarrow>
          if \<not> needsRefresh then (None, st)
          else write_object s st reference (GetFullData contents))"

definition local_DownloadObject ::
  "('a, 'b, 'e) store \<Rightarrow> ('a, 'b, 'e) store_state \<Rightarrow> FlatReference \<Rightarrow> Contents result \<times> ('a, 'b, 'e) store_state" where
  "local_DownloadObject s st reference =
     (case getObjectLocation s st reference of
        Inl err \<Rightarrow> (Inl err, st)
      | Inr (location, needsRefresh) \<Rightarrow>
          case readObjectAtLocation s st reference location of
            (Inl err, st) \<Rightarrow> (Inl err, st)
          | (Inr contents, st) \<Rightarrow>
              if needsRefresh then
                case maybeWriteObject s st reference contents of
                  (Some err, st) \<Rightarrow> (Inl err, st)
                | (None, st) \<Rightarrow> (Inr contents, st)
              else (Inr contents, st))"

definition local_UploadObject ::
  "('a, 'b, 'e) store \<Rightarrow> ('a, 'b, 'e) store_state \<Rightarrow> FlatReference \<Rightarrow> Contents option \<Rightarrow> unit list \<Rightarrow> bool
     \<Rightarrow> unit UploadObjectResult result \<times> ('a, 'b, 'e) store_state" where
  "local_UploadObject s st reference contents childrenLeases wantContentsIfIncomplete =
     (let write = (\<lambda>st contents.
        case maybeWriteObject s st reference contents of
          (Some err, st) \<Rightarrow> (Inl err, st)
        | (None, st) \<Rightarrow> (Inr (UploadObjectComplete ()), st))
      in
      case getObjectLocation s st reference of
        Inl err \<Rightarrow>
          if err \<noteq> Status NotFound then (Inl err, st)
          else
            (case contents of
               None \<Rightarrow> (Inr UploadObjectMissing, st)
             | Some contents \<Rightarrow> write st contents)
      | Inr (location, needsRefresh) \<Rightarrow>
          if needsRefresh then
            case contents of
              Some contents \<Rightarrow> write st contents
            | None \<Rightarrow>
                (case readObjectAtLocation s st reference location of
                   (Inl err, st) \<Rightarrow>
                     if err \<noteq> Status NotFound then (Inl err, st) else (Inr UploadObjectMissing, st)
                 | (Inr contents, st) \<Rightarrow> write st contents)
          else (Inr (UploadObjectComplete ()), st))"

definition local_store ::
  "('a, 'b, 'e) store \<Rightarrow> (('a, 'b, 'e) store_state, FlatReference, unit) Store" where
  "local_store s = \<lparr>store_Downloader = \<lparr>DownloadObject = local_DownloadObject s\<rparr>,
     store_Uploader = \<lparr>UploadObject = local_UploadObject s\<rparr>\<rparr>"

section \<open>Integrity\<close>

lemma readObjectAtLocation_integrity:
  "readObjectAtLocation s st r l = (Inr c, st') \<Longrightarrow> contents_of (FlatReference_GetLocalReference r) c"
  by (auto simp: readObjectAtLocation_def Let_def dest: NewContentsFromFullData_contents_of
      split: sum.splits if_splits)

lemma local_DownloadObject_read:
  assumes "local_DownloadObject s st r = (Inr c, st')"
  shows "\<exists>l n st''. getObjectLocation s st r = Inr (l, n) \<and> readObjectAtLocation s st r l = (Inr c, st'')"
  using assms by (auto simp: local_DownloadObject_def split: sum.splits prod.splits if_splits option.splits)

section \<open>Flat references as local references\<close>

lemma flat_local_raw:
  assumes "length (rawFlatReference r) = 35"
  shows "rawReference (FlatReference_GetLocalReference r) = rawFlatReference r @ [0, 0, 0, 0, 0]"
  using assms by (simp add: FlatReference_GetLocalReference_def put_bytes_def size_consts numeral_eq_Suc)

lemma of_le_three:
  "unat (take_bit 24 (of_le [a, b, c, 0] :: uint32)) = unat a OR push_bit 8 (unat b) OR push_bit 16 (unat c)"
proof (rule bit_eqI)
  fix n
  show "bit (unat (take_bit 24 (of_le [a, b, c, 0] :: uint32))) n
      = bit (unat a OR push_bit 8 (unat b) OR push_bit 16 (unat c)) n"
  proof (cases "n < 24")
    case True
    then consider "n < 8" | "8 \<le> n" "n < 16" | "16 \<le> n" "n < 24" by linarith
    then show ?thesis by cases (auto simp: bit_simps dest: bit_imp_le_length)
  next
    case False
    then show ?thesis by (auto simp: bit_simps dest: bit_imp_le_length)
  qed
qed

lemma flat_local_fields:
  assumes "length (rawFlatReference r) = 35"
  shows "GetSizeBytes (FlatReference_GetLocalReference r) = FlatReference_GetSizeBytes r"
    and "GetHash (FlatReference_GetLocalReference r) = FlatReference_GetHash r"
    and "GetHeight (FlatReference_GetLocalReference r) = 0" "GetDegree (FlatReference_GetLocalReference r) = 0"
    and "getRawMaximumTotalParentsSizeBytes (FlatReference_GetLocalReference r) = 0"
proof -
  obtain raw a b c where raw: "rawFlatReference r = raw @ [a, b, c]" "length raw = 32"
  proof
    show "rawFlatReference r = take 32 (rawFlatReference r) @ [rawFlatReference r ! 32, rawFlatReference r ! 33, rawFlatReference r ! 34]"
      using assms by (intro nth_equalityI) (auto simp: nth_append nth_Cons' numeral_eq_Suc less_Suc_eq)
    show "length (take 32 (rawFlatReference r)) = 32" using assms by simp
  qed
  note l = flat_local_raw [OF assms]
  show "GetSizeBytes (FlatReference_GetLocalReference r) = FlatReference_GetSizeBytes r"
    unfolding GetSizeBytes_def and_mask_24 l FlatReference_GetSizeBytes_def Uint32_at_def
    using of_le_three [of a b c] raw by (simp add: nth_append)
  show "GetHash (FlatReference_GetLocalReference r) = FlatReference_GetHash r"
    "GetHeight (FlatReference_GetLocalReference r) = 0" "GetDegree (FlatReference_GetLocalReference r) = 0"
    "getRawMaximumTotalParentsSizeBytes (FlatReference_GetLocalReference r) = 0"
    using raw by (simp_all add: GetHash_def FlatReference_GetHash_def GetHeight_def GetDegree_def
        getRawMaximumTotalParentsSizeBytes_def Uint16_at_def l nth_append)
qed

lemma flat_contents:
  assumes "flat_reference_ok r" "contents_of (FlatReference_GetLocalReference r) c"
  shows "NewContentsFromFullData (FlatReference_GetLocalReference r) (contents_data c) = Inr c"
proof -
  have "length (rawFlatReference r) = 35" using assms(1) by (simp add: flat_reference_ok_iff)
  note f = flat_local_fields [OF this]
  have "validateOutgoingReferences c = None"
    using assms(2) f by (simp add: contents_of_def validateOutgoingReferences_def new_rcs_def FromUint64RoundUp_0)
  then show ?thesis using assms(2) by (cases c) (simp add: NewContentsFromFullData_def contents_of_def Let_def)
qed

section \<open>Stores without persistency\<close>

text \<open>
  A store whose records reside in memory and whose epoch list is volatile, over any location-blob map.
\<close>

definition volatile_store ::
  "'b LocationBlobMap \<Rightarrow> 'g SingleThreadedGenerator
     \<Rightarrow> (inMemoryReferenceLocationRecord list, 'b, 'g volatileEpochList) store \<Rightarrow> bool" where
  "volatile_store M rng s \<longleftrightarrow>
     locationBlobMap s = M \<and> epochList s = volatileEpochList rng
   \<and> recordArray (referenceLocationMap s) = inMemoryReferenceLocationRecordArray (volatileEpochList rng)
   \<and> valueComparator (referenceLocationMap s) = cmp_Compare
   \<and> recordCount (referenceLocationMap s) \<noteq> 0 \<and> 1 \<le> maximumPutAttempts (referenceLocationMap s)
   \<and> currentRegionSizeBytes s \<noteq> 0"

abbreviation low :: "'g volatileEpochList \<Rightarrow> uint64" where
  "low e \<equiv> MinimumLocation (v_epochState e)"

abbreviation high :: "'g volatileEpochList \<Rightarrow> uint64" where
  "high e \<equiv> MaximumLocation (v_epochState e)"

abbreviation record_key :: "inMemoryReferenceLocationRecord \<Rightarrow> FlatReference" where
  "record_key x \<equiv> Key (RecordKey (imr_record x))"

text \<open>
  No record of the current epoch is stale: it is for an actual object, and lies below the maximum location.
  As the records are initially zero, this needs the identifier of the epoch, a random number, to be nonzero.
\<close>

definition records_ok :: "'g volatileEpochList \<Rightarrow> inMemoryReferenceLocationRecord list \<Rightarrow> bool" where
  "records_ok e a \<longleftrightarrow>
     (\<forall>x \<in> set a. imr_epochID x = v_epochID e \<longrightarrow>
        1 \<le> FlatReference_GetSizeBytes (record_key x)
      \<and> unat (Value (imr_record x)) + FlatReference_GetSizeBytes (record_key x) \<le> unat (high e))"

text \<open>
  The invariant of the store: writes have been finalized up to the cursor of the location-blob map, valid
  locations lie within its span, and for every record that can be read, the location-blob map holds the
  contents of its reference.
\<close>

definition store_inv ::
  "('b \<Rightarrow> bool) \<Rightarrow> nat \<Rightarrow> ('b \<Rightarrow> uint64 \<Rightarrow> bytes \<Rightarrow> bool)
     \<Rightarrow> (inMemoryReferenceLocationRecord list, 'b, 'g volatileEpochList) store
     \<Rightarrow> (inMemoryReferenceLocationRecord list, 'b, 'g volatileEpochList) store_state \<Rightarrow> bool" where
  "store_inv binv span holds s st \<longleftrightarrow>
     binv (st_blobs st) \<and> v_inv (st_epochs st) \<and> unat (v_maximumLocationSpan (st_epochs st)) = span
   \<and> length (st_records st) = unat (recordCount (referenceLocationMap s))
   \<and> high (st_epochs st) = lbm_GetNextPutLocation (locationBlobMap s) (st_blobs st)
   \<and> unat (high (st_epochs st)) \<le> unat (low (st_epochs st)) + span
   \<and> records_ok (st_epochs st) (st_records st)
   \<and> probe_inv (referenceLocationMap s) (st_epochs st) (st_records st)
   \<and> (\<forall>k v. (k, v) \<in> map_contents (referenceLocationMap s) (st_epochs st) (st_records st) \<longrightarrow> flat_reference_ok k \<longrightarrow>
        (\<exists>c. contents_of (FlatReference_GetLocalReference k) c \<and> holds (st_blobs st) v (contents_data c)))"

subsection \<open>The record array under the volatile epoch list\<close>

lemma imra_Get_volatile:
  "imra_Get (volatileEpochList rng) a i e = Inr r \<longleftrightarrow>
     unat i < length a \<and> imr_epochID (a ! unat i) = v_epochID e \<and> imr_record (a ! unat i) = r
     \<and> IsValidLocation (v_epochState e) (Value r) (FlatReference_GetSizeBytes (Key (RecordKey r)))"
  by (auto simp: imra_Get_def volatileEpochList_def v_GetEpochStateForEpochID_def Let_def split: if_splits)

lemma IsValidLocation_iff:
  assumes "n < 2 ^ 64" "1 \<le> n"
  shows "IsValidLocation st l n \<longleftrightarrow> MinimumLocation st \<le> l \<and> unat l + n \<le> unat (MaximumLocation st)"
proof -
  have n: "unat (of_nat n :: uint64) = n" using assms(1) by (simp add: unat_of_nat take_bit_nat_eq_self)
  show ?thesis using assms(2) n
    by (auto simp: IsValidLocation_def word_le_nat_alt word_less_nat_alt unat_sub)
qed

lemma size_bound: "FlatReference_GetSizeBytes r < 2 ^ 24"
  unfolding FlatReference_GetSizeBytes_def of_le_three [symmetric] unsigned_take_bit_eq
  by (rule take_bit_nat_less_exp)

text \<open>Finalizing a write just above the maximum location.\<close>

lemma v_Finalize_next:
  assumes "v_inv e" "1 \<le> n" "n \<le> unat (v_maximumLocationSpan e)" "unat (v_maximumLocationSpan e) < 2 ^ 63"
    "unat (high e) + n < 2 ^ 64"
  shows "\<exists>e'. v_FinalizeWriteUpToLocation rng e (high e + of_nat n) = (None, e') \<and> v_inv e'
    \<and> v_epochID e' = v_epochID e \<and> v_maximumLocationSpan e' = v_maximumLocationSpan e
    \<and> unat (high e') = unat (high e) + n \<and> high e' = high e + of_nat n \<and> low e \<le> low e'
    \<and> unat (high e') \<le> unat (low e') + unat (v_maximumLocationSpan e) \<and> low e' \<le> high e"
proof -
  define l where "l = high e + of_nat n"
  have n: "unat (of_nat n :: uint64) = n" using assms(3,4) by (simp add: unat_of_nat take_bit_nat_eq_self)
  then have l: "unat l = unat (high e) + n" using assms(5) by (simp add: l_def unat_plus_no_carry)
  have lh: "low e \<le> high e" using assms(1) by (simp add: v_inv_def)
  have "unat (l - high e) = n" using n by (simp add: l_def)
  then have pos: "0 < sint (l - high e)" "\<not> l < high e"
    using assms(2-4) l by (auto simp: sint_minus_pos word_less_nat_alt)
  obtain err e' where f: "v_FinalizeWriteUpToLocation rng e l = (err, e')" by fastforce
  have "low e \<le> l" "unat (l - low e) = unat l - unat (low e)"
    using lh l by (auto simp: word_le_nat_alt unat_sub)
  then have e': "v_epochID e' = v_epochID e" "high e' = l"
      "unat (low e') = max (unat (low e)) (unat l - unat (v_maximumLocationSpan e))"
    using f pos by (auto simp: v_FinalizeWriteUpToLocation_def Let_def word_less_nat_alt unat_sub word_le_nat_alt max_def)
  show ?thesis
    unfolding l_def [symmetric]
    using f v_Finalize_inv [OF assms(1) f] e' l lh assms(3) by (auto simp: word_le_nat_alt)
qed

subsection \<open>The reference-location map\<close>

lemma volatile_hash_map:
  assumes "volatile_store M rng s"
  shows "hash_map cmp_Compare (inMemoryReferenceLocationRecordArray (volatileEpochList rng))
    (\<lambda>a. length a = unat (recordCount (referenceLocationMap s))) (unat (recordCount (referenceLocationMap s)))
    (current_resolves_in (volatileEpochList rng)) (valid_record (volatileEpochList rng)) (\<lambda>_. True)
    (referenceLocationMap s) e"
  using assms volatile_current_resolves
  by (intro hash_map.intro imra.record_array_axioms hash_map_axioms.intro) (auto simp: volatile_store_def)

lemma volatile_Get:
  assumes "volatile_store M rng s"
  shows "ra_Get (recordArray (referenceLocationMap s)) = imra_Get (volatileEpochList rng)"
    and "ra_Put (recordArray (referenceLocationMap s)) = imra_Put (volatileEpochList rng)"
  using assms by (simp_all add: volatile_store_def inMemoryReferenceLocationRecordArray_def)

text \<open>As writes are finalized, records only expire.\<close>

lemma finalized_Get:
  assumes "records_ok e a" "v_epochID e' = v_epochID e" "low e \<le> low e'" "high e \<le> high e'"
  shows "imra_Get (volatileEpochList rng) a i e' = Inr r \<longleftrightarrow>
    imra_Get (volatileEpochList rng) a i e = Inr r \<and> low e' \<le> Value r"
proof -
  have "FlatReference_GetSizeBytes k < 2 ^ 64" for k using size_bound [of k] by simp
  then show ?thesis using assms
    unfolding imra_Get_volatile records_ok_def
    by (auto simp: IsValidLocation_iff word_le_nat_alt dest!: bspec [OF _ nth_mem])
qed

lemma finalized_probe_inv:
  assumes s: "volatile_store M rng s" and inv: "probe_inv (referenceLocationMap s) e a"
    and e: "records_ok e a" "v_epochID e' = v_epochID e" "low e \<le> low e'" "high e \<le> high e'"
  shows "probe_inv (referenceLocationMap s) e' a"
  unfolding probe_inv_def volatile_Get [OF s] finalized_Get [OF e]
proof (intro allI impI)
  fix i r j
  assume i: "unat i < unat (recordCount (referenceLocationMap s))"
    and r: "imra_Get (volatileEpochList rng) a i e = Inr r \<and> low e' \<le> Value r" and j: "j \<le> Attempt (RecordKey r)"
  obtain x where x: "imra_Get (volatileEpochList rng) a (record_index (referenceLocationMap s) ((RecordKey r)\<lparr>Attempt := j\<rparr>)) e = Inr x"
    "\<not> valueComparator (referenceLocationMap s) (Value x) (Value r) < 0"
    using inv i r j unfolding probe_inv_def volatile_Get [OF s] by blast
  have "Value r \<le> Value x" using x(2) s by (simp add: volatile_store_def not_less)
  then show "\<exists>x. (imra_Get (volatileEpochList rng) a (record_index (referenceLocationMap s) ((RecordKey r)\<lparr>Attempt := j\<rparr>)) e = Inr x
      \<and> low e' \<le> Value x) \<and> \<not> valueComparator (referenceLocationMap s) (Value x) (Value r) < 0"
    using x r order_trans [of "low e'" "Value r" "Value x"] by blast
qed

lemma imra_Put_volatile:
  assumes "unat i < length a"
  shows "imra_Put (volatileEpochList rng) a i r e =
    (None, if IsValidLocation (v_epochState e) (Value r) (FlatReference_GetSizeBytes (Key (RecordKey r)))
           then a[unat i := \<lparr>imr_epochID = v_epochID e, imr_record = r\<rparr>] else a)"
  using assms by (simp add: imra_Put_def volatileEpochList_def v_GetCurrentEpochState_def)

lemma volatile_Put_total:
  assumes s: "volatile_store M rng s" and a: "length a = unat (recordCount (referenceLocationMap s))"
  shows "\<exists>a'. hashMap_Put (referenceLocationMap s) a k v e = (None, a') \<and> length a' = unat (recordCount (referenceLocationMap s))"
  unfolding hashMap_Put_def
proof (rule Put_loop_total [where P = "\<lambda>a. length a = unat (recordCount (referenceLocationMap s))", OF _ a])
  fix a :: "inMemoryReferenceLocationRecord list" and i :: uint64 and r
  assume a: "length a = unat (recordCount (referenceLocationMap s))" "unat i < unat (recordCount (referenceLocationMap s))"
  show "err = ErrRecordInvalidOrExpired" if "ra_Get (recordArray (referenceLocationMap s)) a i e = Inl err" for err
    using that a unfolding volatile_Get [OF s] by (auto simp: imra_Get_def Let_def split: option.splits if_splits)
  show "\<exists>a'. ra_Put (recordArray (referenceLocationMap s)) a i r e = (None, a') \<and> length a' = unat (recordCount (referenceLocationMap s))"
    unfolding volatile_Get [OF s] using a imra_Put_volatile [of i a rng r e] by simp
qed (use s in \<open>simp add: volatile_store_def\<close>)

lemma Put_records_ok:
  assumes s: "volatile_store M rng s" and a: "length a = unat (recordCount (referenceLocationMap s))"
    and put: "hashMap_Put (referenceLocationMap s) a k v e = (None, a')"
    and ok: "records_ok e a" and k: "1 \<le> FlatReference_GetSizeBytes k"
  shows "records_ok e a'"
proof -
  let ?m = "referenceLocationMap s"
  define P where "P a r \<longleftrightarrow> length a = unat (recordCount ?m) \<and> records_ok e a
      \<and> 1 \<le> FlatReference_GetSizeBytes (Key (RecordKey r))" for a and r :: ReferenceLocationRecord
  have w: "P a' r" if "P a r" "imra_Put (volatileEpochList rng) a (record_index ?m (RecordKey r)) r e = (None, a')" for a r a'
  proof -
    have "FlatReference_GetSizeBytes (Key (RecordKey r)) < 2 ^ 64" using size_bound [of "Key (RecordKey r)"] by simp
    moreover have "unat (record_index ?m (RecordKey r)) < length a"
      using record_index_less [of ?m] s that(1) by (simp add: volatile_store_def P_def)
    ultimately show ?thesis using that
      by (auto simp: imra_Put_volatile P_def records_ok_def IsValidLocation_iff dest!: subsetD [OF set_update_subset_insert] split: if_splits)
  qed
  have x: "1 \<le> FlatReference_GetSizeBytes (Key (RecordKey x))"
    if "P a r" "imra_Get (volatileEpochList rng) a i e = Inr x" for a r i x
    using that by (auto simp: imra_Get_volatile P_def records_ok_def)
  have P: "P a r \<Longrightarrow> records_ok e a" "P a (r\<lparr>RecordKey := next_attempt (RecordKey r)\<rparr>) = P a r"
    "P a r \<Longrightarrow> 1 \<le> FlatReference_GetSizeBytes (Key (RecordKey q)) \<Longrightarrow> P a q" for a r q
    by (simp_all add: P_def next_attempt_def)
  show ?thesis
  proof (rule Put_loop_rule [OF put [unfolded hashMap_Put_def], where P = P and Q = "\<lambda>_ _ a. records_ok e a"],
        unfold volatile_Get [OF s], goal_cases)
    case 1
    then show ?case using a ok k by (simp add: P_def)
  next
    case (4 a r a' x)
    then have "P a' r" using w by blast
    then show ?case using P 4 x by blast
  qed (use w P in blast)+
qed

lemma Get_loop_error:
  assumes "Get_loop m a e rk = Inl err" "recordCount m \<noteq> 0"
    and "\<And>i err. unat i < unat (recordCount m) \<Longrightarrow> ra_Get (recordArray m) a i e = Inl err \<Longrightarrow> err = ErrRecordInvalidOrExpired"
  shows "err = Status NotFound"
  using assms
proof (induction m a e rk rule: Get_loop.induct)
  case (1 m a e rk)
  have i: "unat (record_index m rk) < unat (recordCount m)" by (rule record_index_less [OF 1(3)])
  show ?case
  proof (cases "ra_Get (recordArray m) a (record_index m rk) e")
    case (Inl err')
    then show ?thesis using 1(2) 1(4) [OF i Inl] Get_loop_steps(1) [OF 1(3) Inl] by simp
  next
    case (Inr r)
    show ?thesis
    proof (cases "RecordKey r = rk")
      case True
      then show ?thesis using Get_loop_steps(2) [OF 1(3) Inr True] 1(2) by simp
    next
      case False
      note l = Get_loop_steps(3) [OF 1(3) Inr False]
      show ?thesis
      proof (cases "maximumGetAttempts m \<le> Attempt rk + 1")
        case True
        then show ?thesis using l 1(2) by simp
      next
        case F: False
        then show ?thesis using l 1(1) [OF 1(3) Inr False refl] 1(2-4) by (simp add: next_attempt_def)
      qed
    qed
  qed
qed

lemma volatile_Get_error:
  assumes s: "volatile_store M rng s" and a: "length a = unat (recordCount (referenceLocationMap s))"
    and "hashMap_Get (referenceLocationMap s) a k e = Inl err"
  shows "err = Status NotFound"
  using assms(3) unfolding hashMap_Get_def
proof (rule Get_loop_error)
  show "recordCount (referenceLocationMap s) \<noteq> 0" using s by (simp add: volatile_store_def)
  show "err = ErrRecordInvalidOrExpired"
    if "unat i < unat (recordCount (referenceLocationMap s))" "ra_Get (recordArray (referenceLocationMap s)) a i e = Inl err" for i err
    using that a unfolding volatile_Get [OF s] by (auto simp: imra_Get_def Let_def split: option.splits if_splits)
qed

lemma stored_map_contents: "recordCount m \<noteq> 0 \<Longrightarrow> stored m e a k v \<Longrightarrow> (k, v) \<in> map_contents m e a"
  unfolding stored_def map_contents_def using record_index_less by force

lemma volatile_Get_contents:
  assumes "volatile_store M rng s" "probe_inv (referenceLocationMap s) e a"
    and "hashMap_Get (referenceLocationMap s) a k e = Inr v"
  shows "(k, v) \<in> map_contents (referenceLocationMap s) e a"
  using hash_map.Get_correct(1) [OF volatile_hash_map [OF assms(1)] assms(2,3)] assms(1)
  by (auto simp: volatile_store_def intro: stored_map_contents)

lemma map_contents_valid:
  assumes "volatile_store M rng s" "(k, v) \<in> map_contents (referenceLocationMap s) e a" "1 \<le> FlatReference_GetSizeBytes k"
  shows "low e \<le> v" "unat v + FlatReference_GetSizeBytes k \<le> unat (high e)"
proof -
  have "FlatReference_GetSizeBytes k < 2 ^ 64" using size_bound [of k] by simp
  then show "low e \<le> v" "unat v + FlatReference_GetSizeBytes k \<le> unat (high e)"
    using assms(2,3) unfolding map_contents_def volatile_Get [OF assms(1)]
    by (auto simp: imra_Get_volatile IsValidLocation_iff)
qed

lemma finalized_map_contents:
  assumes "volatile_store M rng s"
    and "records_ok e a" "v_epochID e' = v_epochID e" "low e \<le> low e'" "high e \<le> high e'"
  shows "map_contents (referenceLocationMap s) e' a = {(k, v) \<in> map_contents (referenceLocationMap s) e a. low e' \<le> v}"
  unfolding map_contents_def volatile_Get [OF assms(1)] finalized_Get [OF assms(2-5)] by auto

subsection \<open>Writing an object\<close>

text \<open>The object that is written is the newest in the map, so that it can be looked up.\<close>

lemma written_record:
  fixes rng :: "'g SingleThreadedGenerator" and e e' :: "'g volatileEpochList"
  assumes s: "volatile_store M rng s" and a: "length a = unat (recordCount (referenceLocationMap s))"
    and ok: "records_ok e a" and e': "v_epochID e' = v_epochID e" "low e \<le> low e'" "high e \<le> high e'" "low e' \<le> high e"
    and n: "unat (high e') = unat (high e) + FlatReference_GetSizeBytes k" "1 \<le> FlatReference_GetSizeBytes k"
    and put: "hashMap_Put (referenceLocationMap s) a k (high e) e' = (None, a')"
  shows "hashMap_Get (referenceLocationMap s) a' k e' = Inr (high e)"
proof (rule hash_map.Put_newest [OF volatile_hash_map [OF s] put a])
  have sz: "FlatReference_GetSizeBytes k < 2 ^ 64" for k using size_bound [of k] by simp
  show "valid_record (volatileEpochList rng) e' \<lparr>RecordKey = \<lparr>Key = k, Attempt = 0\<rparr>, Value = high e\<rparr>"
    using n e'(4) sz by (simp add: valid_record_def volatileEpochList_def v_GetCurrentEpochState_def IsValidLocation_iff)
  show "cmp_Compare (Value x) (high e) < 0"
    if "ra_Get (inMemoryReferenceLocationRecordArray (volatileEpochList rng)) a i e' = Inr x" for i x
  proof -
    have "imra_Get (volatileEpochList rng) a i e = Inr x"
      using that finalized_Get [OF ok e'(1-3)] by (simp add: inMemoryReferenceLocationRecordArray_def)
    then have "a ! unat i \<in> set a" "imr_epochID (a ! unat i) = v_epochID e" "x = imr_record (a ! unat i)"
      by (auto simp: imra_Get_volatile)
    then show ?thesis using ok by (auto simp: records_ok_def word_less_nat_alt)
  qed
qed (use s in \<open>auto simp: volatile_store_def\<close>)

text \<open>
  The states of a store that any sequence of successful uploads and downloads leads to, as long as the
  64-bit locations are not exhausted. Clients upload contents that match their reference.
\<close>

inductive store_reachable ::
  "('a, 'b, 'e) store \<Rightarrow> ('a, 'b, 'e) store_state \<Rightarrow> ('a, 'b, 'e) store_state \<Rightarrow> bool" for s st0 where
  start: "store_reachable s st0 st0"
| upload: "store_reachable s st0 st \<Longrightarrow> flat_reference_ok k
    \<Longrightarrow> pred_option (contents_of (FlatReference_GetLocalReference k)) contents
    \<Longrightarrow> unat (lbm_GetNextPutLocation (locationBlobMap s) (st_blobs st)) + 2 ^ 21 < 2 ^ 64
    \<Longrightarrow> local_UploadObject s st k contents leases want = (Inr r, st') \<Longrightarrow> store_reachable s st0 st'"
| download: "store_reachable s st0 st \<Longrightarrow> flat_reference_ok k
    \<Longrightarrow> unat (lbm_GetNextPutLocation (locationBlobMap s) (st_blobs st)) + 2 ^ 21 < 2 ^ 64
    \<Longrightarrow> local_DownloadObject s st k = (Inr c, st') \<Longrightarrow> store_reachable s st0 st'"

text \<open>The errors of a location-blob map that is used as intended.\<close>

definition backend_error ::
  "'b LocationBlobMap \<Rightarrow> ('b \<Rightarrow> bool) \<Rightarrow> nat \<Rightarrow> ('b \<Rightarrow> uint64 \<Rightarrow> bytes \<Rightarrow> bool) \<Rightarrow> go_error \<Rightarrow> bool" where
  "backend_error M binv span holds err \<longleftrightarrow> err \<noteq> Panic
     \<and> ((\<exists>b l x. binv b \<and> holds b l x \<and> lbm_Get M b l (length x) = Inl err)
       \<or> (\<exists>b x b'. binv b \<and> length x \<le> span \<and> lbm_Put M b x = (Inl err, b')))"

context location_blob_map
begin

text \<open>Blobs of objects that remain valid are kept.\<close>

lemma write_keeps:
  assumes s: "volatile_store M rng s" and i: "store_inv inv span holds s st"
    and put: "lbm_Put M (st_blobs st) x = (Inr (high (st_epochs st)), b)" "length x \<le> span"
    and e': "unat (high (st_epochs st)) + length x \<le> unat (low e') + span"
    and kv: "(k, v) \<in> map_contents (referenceLocationMap s) (st_epochs st) (st_records st)" "low e' \<le> v" "flat_reference_ok k"
  shows "\<exists>c. contents_of (FlatReference_GetLocalReference k) c \<and> holds b v (contents_data c)"
proof -
  obtain c where c: "contents_of (FlatReference_GetLocalReference k) c" "holds (st_blobs st) v (contents_data c)"
    using i kv unfolding store_inv_def by blast
  have k: "1 \<le> FlatReference_GetSizeBytes k" "length (contents_data c) = FlatReference_GetSizeBytes k"
    using kv(3) c(1) flat_local_fields(1) [of k] by (simp_all add: flat_reference_ok_iff contents_of_def)
  have "holds b v (contents_data c)"
  proof (rule put_keeps [OF _ put(2,1) c(2)])
    show "inv (st_blobs st)" using i by (simp add: store_inv_def)
    show "unat v + length (contents_data c) \<le> unat (high (st_epochs st))"
      using map_contents_valid [OF s kv(1) k(1)] k(2) by simp
    show "unat (high (st_epochs st)) + length x \<le> unat v + span" using e' kv(2) by (simp add: word_le_nat_alt)
  qed
  then show ?thesis using c(1) by blast
qed

lemma write_object_ok:
  assumes s: "volatile_store M rng s" and i: "store_inv inv span holds s st"
    and k: "flat_reference_ok k" "contents_of (FlatReference_GetLocalReference k) c" "FlatReference_GetSizeBytes k \<le> span"
    and no_wrap: "unat (high (st_epochs st)) + FlatReference_GetSizeBytes k < 2 ^ 64"
    and put: "lbm_Put M (st_blobs st) (contents_data c) = (Inr loc, b)"
  shows "\<exists>st'. write_object s st k (contents_data c) = (None, st') \<and> store_inv inv span holds s st'
    \<and> hashMap_Get (referenceLocationMap s) (st_records st') k (st_epochs st') = Inr loc
    \<and> holds (st_blobs st') loc (contents_data c)
    \<and> unat (high (st_epochs st')) \<le> unat (high (st_epochs st)) + FlatReference_GetSizeBytes k"
proof -
  define e a where "e = st_epochs st" and "a = st_records st"
  note i' = i [unfolded store_inv_def, folded e_def a_def]
  have sz: "1 \<le> FlatReference_GetSizeBytes k" "length (contents_data c) = FlatReference_GetSizeBytes k"
    using k(1,2) flat_local_fields(1) [of k] by (simp_all add: flat_reference_ok_iff contents_of_def)
  have M: "locationBlobMap s = M" "epochList s = volatileEpochList rng" using s by (simp_all add: volatile_store_def)
  have len: "length (contents_data c) \<le> span" using k(3) sz(2) by simp
  have bl: "inv (st_blobs st)" "lbm_GetNextPutLocation M (st_blobs st) = high e" using i' M(1) by simp_all
  have nw: "unat (lbm_GetNextPutLocation M (st_blobs st)) + length (contents_data c) < 2 ^ 64"
    using no_wrap sz(2) bl(2) by (simp add: e_def)
  note loc = put_next [OF bl(1) len put nw, unfolded bl(2)]
  note b = put_inv [OF bl(1) len put] put_holds [OF bl(1) len put]
  have span: "unat (v_maximumLocationSpan e) = span" "span < 2 ^ 63" using i' span_bound [OF bl(1)] by simp_all
  obtain e' where f: "v_FinalizeWriteUpToLocation rng e (high e + of_nat (FlatReference_GetSizeBytes k)) = (None, e')" "v_inv e'"
    and e': "v_epochID e' = v_epochID e" "v_maximumLocationSpan e' = v_maximumLocationSpan e"
      "unat (high e') = unat (high e) + FlatReference_GetSizeBytes k" "low e \<le> low e'"
      "unat (high e') \<le> unat (low e') + span" "low e' \<le> high e"
    using v_Finalize_next [of e "FlatReference_GetSizeBytes k" rng] i' sz(1) k(3) span no_wrap unfolding e_def by auto
  have he: "high e \<le> high e'" using e'(3) by (simp add: word_le_nat_alt)
  obtain a' where p: "hashMap_Put (referenceLocationMap s) a k (high e) e' = (None, a')"
    using volatile_Put_total [OF s] i' by blast
  define st' where "st' = st\<lparr>st_blobs := b, st_epochs := e', st_records := a'\<rparr>"
  have w: "write_object s st k (contents_data c) = (None, st')"
    using put loc(1) f(1) p sz(2) unfolding e_def a_def
    by (simp add: write_object_def M volatileEpochList_def st'_def)
  have ok: "records_ok e a" "length a = unat (recordCount (referenceLocationMap s))" using i' by simp_all
  have ok': "records_ok e' a" using ok(1) e'(1) he by (auto simp: records_ok_def word_le_nat_alt)
  note hm = volatile_hash_map [OF s, of e']
  have pi: "probe_inv (referenceLocationMap s) e' a" using finalized_probe_inv [OF s _ ok(1) e'(1,4) he] i' by simp
  have inv': "store_inv inv span holds s st'"
    unfolding store_inv_def
  proof (intro conjI allI impI)
    show "inv (st_blobs st')" "v_inv (st_epochs st')" "unat (v_maximumLocationSpan (st_epochs st')) = span"
      "unat (high (st_epochs st')) \<le> unat (low (st_epochs st')) + span"
      using b f(2) span e' by (simp_all add: st'_def)
    show "length (st_records st') = unat (recordCount (referenceLocationMap s))" "probe_inv (referenceLocationMap s) (st_epochs st') (st_records st')"
      using hash_map.Put_correct(2) [OF hm p ok(2)] pi by (simp_all add: st'_def)
    show "high (st_epochs st') = lbm_GetNextPutLocation (locationBlobMap s) (st_blobs st')"
      using loc e'(3) sz(2) M(1) by (simp add: st'_def word_unat_eq_iff)
    show "records_ok (st_epochs st') (st_records st')" using Put_records_ok [OF s ok(2) p ok' sz(1)] by (simp add: st'_def)
  next
    fix k' v assume kv: "(k', v) \<in> map_contents (referenceLocationMap s) (st_epochs st') (st_records st')" "flat_reference_ok k'"
    then have "(k', v) = (k, high e) \<or> (k', v) \<in> map_contents (referenceLocationMap s) e a \<and> low e' \<le> v"
      using hash_map.Put_correct(1) [OF hm p ok(2)] finalized_map_contents [OF s ok(1) e'(1,4) he] by (auto simp: st'_def)
    then show "\<exists>c. contents_of (FlatReference_GetLocalReference k') c \<and> holds (st_blobs st') v (contents_data c)"
      using write_keeps [OF s i _ len, of b e' k' v] put loc(1) e'(3,5) sz(2) kv(2) k(2) b(2)
      by (auto simp: st'_def e_def a_def)
  qed
  show ?thesis
    using w inv' b(2) loc(1) written_record [OF s ok(2,1) e'(1,4) he e'(6,3) sz(1) p] e'(3) by (auto simp: st'_def e_def)
qed

lemma location_cases:
  assumes s: "volatile_store M rng s" and i: "store_inv inv span holds s st" and k: "flat_reference_ok k"
  shows "getObjectLocation s st k = Inl (Status NotFound) \<or>
    (\<exists>v n c. getObjectLocation s st k = Inr (v, n)
      \<and> hashMap_Get (referenceLocationMap s) (st_records st) k (st_epochs st) = Inr v
      \<and> contents_of (FlatReference_GetLocalReference k) c \<and> holds (st_blobs st) v (contents_data c))"
proof (cases "hashMap_Get (referenceLocationMap s) (st_records st) k (st_epochs st)")
  case (Inl err)
  then show ?thesis using volatile_Get_error [OF s _ Inl] i by (simp add: getObjectLocation_def store_inv_def)
next
  case (Inr v)
  then have "(k, v) \<in> map_contents (referenceLocationMap s) (st_epochs st) (st_records st)"
    using volatile_Get_contents [OF s _ Inr] i by (simp add: store_inv_def)
  then show ?thesis using i k s Inr
    by (auto simp: store_inv_def getObjectLocation_def volatile_store_def Let_def)
qed

lemma getObjectLocation_found:
  assumes "volatile_store M rng s" "hashMap_Get (referenceLocationMap s) (st_records st) k (st_epochs st) = Inr v"
  shows "\<exists>n. getObjectLocation s st k = Inr (v, n)"
  using assms by (simp add: getObjectLocation_def volatile_store_def Let_def)

lemma read_ok:
  assumes s: "volatile_store M rng s" and i: "store_inv inv span holds s st" and k: "flat_reference_ok k"
    and c: "contents_of (FlatReference_GetLocalReference k) c" "holds (st_blobs st) v (contents_data c)"
  shows "readObjectAtLocation s st k v = (Inr c, st) \<or>
    (\<exists>err. readObjectAtLocation s st k v = (Inl err, st) \<and> backend_error M inv span holds err)"
proof -
  have len: "length (contents_data c) = FlatReference_GetSizeBytes k"
    using k c(1) flat_local_fields(1) [of k] by (simp add: flat_reference_ok_iff contents_of_def)
  have b: "inv (st_blobs st)" "locationBlobMap s = M" using i s by (simp_all add: store_inv_def volatile_store_def)
  show ?thesis
  proof (cases "lbm_Get M (st_blobs st) v (length (contents_data c))")
    case (Inl err)
    then have "backend_error M inv span holds err" using get_holds [OF b(1) c(2)] b(1) c(2) unfolding backend_error_def by force
    then show ?thesis using Inl b(2) len by (simp add: readObjectAtLocation_def)
  next
    case (Inr x)
    then have "x = contents_data c" using get_holds [OF b(1) c(2)] by simp
    then show ?thesis using Inr b(2) len flat_contents [OF k c(1)] by (simp add: readObjectAtLocation_def)
  qed
qed

lemma write_cases:
  assumes s: "volatile_store M rng s" and i: "store_inv inv span holds s st"
    and k: "flat_reference_ok k" "contents_of (FlatReference_GetLocalReference k) c" "FlatReference_GetSizeBytes k \<le> span"
    and no_wrap: "unat (high (st_epochs st)) + FlatReference_GetSizeBytes k < 2 ^ 64"
  shows "(\<exists>v st'. write_object s st k (contents_data c) = (None, st') \<and> store_inv inv span holds s st'
      \<and> hashMap_Get (referenceLocationMap s) (st_records st') k (st_epochs st') = Inr v
      \<and> holds (st_blobs st') v (contents_data c)
      \<and> unat (high (st_epochs st')) \<le> unat (high (st_epochs st)) + FlatReference_GetSizeBytes k)
    \<or> (\<exists>err st'. write_object s st k (contents_data c) = (Some err, st') \<and> backend_error M inv span holds err)"
proof (cases "lbm_Put M (st_blobs st) (contents_data c)")
  case (Pair r b)
  show ?thesis
  proof (cases r)
    case (Inr loc)
    then show ?thesis using write_object_ok [OF s i k no_wrap, of loc b] Pair by blast
  next
    case (Inl err)
    have "length (contents_data c) \<le> span"
      using k flat_local_fields(1) [of k] by (simp add: flat_reference_ok_iff contents_of_def)
    moreover have "inv (st_blobs st)" using i by (simp add: store_inv_def)
    ultimately have "backend_error M inv span holds err" using put_error Pair Inl by (auto simp: backend_error_def)
    then show ?thesis using Pair Inl s by (simp add: write_object_def volatile_store_def)
  qed
qed

text \<open>An object that is present can be downloaded, unless the backend fails.\<close>

lemma download_ok:
  assumes s: "volatile_store M rng s" and i: "store_inv inv span holds s st"
    and k: "flat_reference_ok k" "contents_of (FlatReference_GetLocalReference k) c" "FlatReference_GetSizeBytes k \<le> span"
    and no_wrap: "unat (high (st_epochs st)) + FlatReference_GetSizeBytes k < 2 ^ 64"
    and v: "hashMap_Get (referenceLocationMap s) (st_records st) k (st_epochs st) = Inr v" "holds (st_blobs st) v (contents_data c)"
  shows "\<exists>r st'. local_DownloadObject s st k = (r, st')
    \<and> (r = Inr c \<and> store_inv inv span holds s st' \<or> (\<exists>err. r = Inl err \<and> backend_error M inv span holds err))"
proof -
  obtain n where n: "getObjectLocation s st k = Inr (v, n)" using getObjectLocation_found [OF s v(1)] by blast
  show ?thesis
    using read_ok [OF s i k(1,2) v(2)] write_cases [OF s i k no_wrap] n i
    by (auto simp: local_DownloadObject_def maybeWriteObject_def GetFullData_def)
qed

lemma upload_ok:
  assumes s: "volatile_store M rng s" and i: "store_inv inv span holds s st"
    and k: "flat_reference_ok k" "contents_of (FlatReference_GetLocalReference k) c" "FlatReference_GetSizeBytes k \<le> span"
    and no_wrap: "unat (high (st_epochs st)) + FlatReference_GetSizeBytes k < 2 ^ 64"
  shows "\<exists>r st'. local_UploadObject s st k (Some c) leases want = (r, st')
    \<and> ((\<exists>v c'. r = Inr (UploadObjectComplete ()) \<and> store_inv inv span holds s st'
          \<and> hashMap_Get (referenceLocationMap s) (st_records st') k (st_epochs st') = Inr v
          \<and> contents_of (FlatReference_GetLocalReference k) c' \<and> holds (st_blobs st') v (contents_data c')
          \<and> (getObjectLocation s st k = Inl (Status NotFound) \<longrightarrow> c' = c)
          \<and> unat (high (st_epochs st')) \<le> unat (high (st_epochs st)) + FlatReference_GetSizeBytes k)
       \<or> (\<exists>err. r = Inl err \<and> backend_error M inv span holds err))"
  using location_cases [OF s i k(1)] write_cases [OF s i k no_wrap] i k(2)
  by (fastforce simp: local_UploadObject_def maybeWriteObject_def GetFullData_def Let_def)

lemma upload_none_ok:
  assumes s: "volatile_store M rng s" and i: "store_inv inv span holds s st"
    and k: "flat_reference_ok k" "FlatReference_GetSizeBytes k \<le> span"
    and no_wrap: "unat (high (st_epochs st)) + FlatReference_GetSizeBytes k < 2 ^ 64"
    and u: "local_UploadObject s st k None leases want = (Inr r, st')"
  shows "store_inv inv span holds s st'"
proof (rule disjE [OF location_cases [OF s i k(1)]])
  assume "getObjectLocation s st k = Inl (Status NotFound)"
  then show ?thesis using u i by (simp add: local_UploadObject_def Let_def)
next
  assume "\<exists>v n c. getObjectLocation s st k = Inr (v, n)
      \<and> hashMap_Get (referenceLocationMap s) (st_records st) k (st_epochs st) = Inr v
      \<and> contents_of (FlatReference_GetLocalReference k) c \<and> holds (st_blobs st) v (contents_data c)"
  then obtain v n c where l: "getObjectLocation s st k = Inr (v, n)"
    and c: "contents_of (FlatReference_GetLocalReference k) c" "holds (st_blobs st) v (contents_data c)" by blast
  show ?thesis
    using read_ok [OF s i k(1) c] write_cases [OF s i k(1) c(1) k(2) no_wrap] u i l
    by (auto simp: local_UploadObject_def maybeWriteObject_def GetFullData_def Let_def split: if_splits)
qed

lemma store_reachable_inv:
  assumes "store_reachable s st0 st" and s: "volatile_store M rng s" and i: "store_inv inv span holds s st0" and span: "2 ^ 21 \<le> span"
  shows "store_inv inv span holds s st"
  using assms(1)
proof (induction rule: store_reachable.induct)
  case start
  show ?case by (rule i)
next
  case (upload st k contents leases want r st')
  have k: "FlatReference_GetSizeBytes k \<le> span" "unat (high (st_epochs st)) + FlatReference_GetSizeBytes k < 2 ^ 64"
    using upload.hyps(2,4) upload.IH span by (auto simp: flat_reference_ok_iff store_inv_def)
  show ?case
  proof (cases contents)
    case None
    then show ?thesis using upload_none_ok [OF s upload.IH upload.hyps(2) k] upload.hyps(5) by simp
  next
    case (Some c)
    then show ?thesis
      using upload_ok [OF s upload.IH upload.hyps(2) _ k, of c leases want] upload.hyps(3,5) by auto
  qed
next
  case (download st k c st')
  have k: "FlatReference_GetSizeBytes k \<le> span" "unat (high (st_epochs st)) + FlatReference_GetSizeBytes k < 2 ^ 64"
    using download.hyps(2,3) download.IH span by (auto simp: flat_reference_ok_iff store_inv_def)
  have "getObjectLocation s st k \<noteq> Inl (Status NotFound)"
    using download.hyps(4) by (auto simp: local_DownloadObject_def)
  then obtain v c' where v: "contents_of (FlatReference_GetLocalReference k) c'" "holds (st_blobs st) v (contents_data c')"
      "hashMap_Get (referenceLocationMap s) (st_records st) k (st_epochs st) = Inr v"
    using location_cases [OF s download.IH download.hyps(2)] by blast
  then show ?case
    using download_ok [OF s download.IH download.hyps(2) v(1) k v(3,2)] download.hyps(4) by auto
qed

text \<open>The initial state satisfies the invariant.\<close>

lemma store_inv_start:
  assumes "inv b" "lbm_GetNextPutLocation M b = 0" "volatile_store M rng s"
    and "v_epochID (NewVolatileEpochList rng (of_nat span) g) \<noteq> 0"
  shows "store_inv inv span holds s
    \<lparr>st_records = NewInMemoryReferenceLocationRecordArray (unat (recordCount (referenceLocationMap s))),
     st_blobs = b, st_epochs = NewVolatileEpochList rng (of_nat span) g\<rparr>"
proof -
  let ?e = "NewVolatileEpochList rng (of_nat span) g"
  let ?a = "NewInMemoryReferenceLocationRecordArray (unat (recordCount (referenceLocationMap s)))"
  have e: "low ?e = 0" "high ?e = 0" "v_maximumLocationSpan ?e = of_nat span"
    by (simp_all add: NewVolatileEpochList_def)
  have none: "imra_Get (volatileEpochList rng) ?a i ?e \<noteq> Inr r" for i r
    using e by (auto simp: imra_Get_volatile IsValidLocation_def)
  have span: "unat (of_nat span :: uint64) = span"
    using span_bound [OF assms(1)] by (simp add: unat_of_nat take_bit_nat_eq_self)
  have "records_ok ?e ?a"
    using assms(4) by (simp add: records_ok_def NewInMemoryReferenceLocationRecordArray_def zero_record_def)
  then show ?thesis
    using assms e none span v_New_inv [of rng "of_nat span" g] volatile_Get(1) [OF assms(3)]
    by (simp add: store_inv_def probe_inv_def map_contents_def NewInMemoryReferenceLocationRecordArray_def volatile_store_def)
qed

text \<open>So an object can be downloaded after it has been uploaded.\<close>

lemma upload_then_download:
  assumes "store_reachable s st0 st" and s: "volatile_store M rng s" and "store_inv inv span holds s st0" "2 ^ 21 \<le> span"
    and k: "flat_reference_ok k" "contents_of (FlatReference_GetLocalReference k) c"
    and no_wrap: "unat (lbm_GetNextPutLocation M (st_blobs st)) + 2 ^ 22 < 2 ^ 64"
    and u: "local_UploadObject s st k (Some c) leases want = (r, st')"
  shows "r = Inr (UploadObjectComplete ()) \<and>
      (\<exists>r' st''. local_DownloadObject s st' k = (r', st'')
        \<and> ((\<exists>c'. r' = Inr c' \<and> contents_of (FlatReference_GetLocalReference k) c'
               \<and> (getObjectLocation s st k = Inl (Status NotFound) \<longrightarrow> c' = c))
           \<or> (\<exists>err. r' = Inl err \<and> backend_error M inv span holds err)))
    \<or> (\<exists>err. r = Inl err \<and> backend_error M inv span holds err)"
proof -
  have i: "store_inv inv span holds s st" by (rule store_reachable_inv [OF assms(1-4)])
  have h: "unat (high (st_epochs st)) + FlatReference_GetSizeBytes k < 2 ^ 64" "FlatReference_GetSizeBytes k \<le> span"
    using i no_wrap k(1) assms(4) s by (auto simp: store_inv_def flat_reference_ok_iff volatile_store_def)
  have d: "\<exists>r' st''. local_DownloadObject s st' k = (r', st'')
      \<and> (r' = Inr c' \<or> (\<exists>err. r' = Inl err \<and> backend_error M inv span holds err))"
    if i': "store_inv inv span holds s st'" and "contents_of (FlatReference_GetLocalReference k) c'"
      "hashMap_Get (referenceLocationMap s) (st_records st') k (st_epochs st') = Inr v" "holds (st_blobs st') v (contents_data c')"
      "unat (high (st_epochs st')) \<le> unat (high (st_epochs st)) + FlatReference_GetSizeBytes k" for v c'
  proof -
    have "unat (high (st_epochs st')) + FlatReference_GetSizeBytes k < 2 ^ 64"
      using i no_wrap k(1) s that(5) by (auto simp: store_inv_def flat_reference_ok_iff volatile_store_def)
    then show ?thesis using download_ok [OF s i' k(1) that(2) h(2) _ that(3,4)] by blast
  qed
  show ?thesis using upload_ok [OF s i k h(2,1), of leases want] u d by fastforce
qed

end

section \<open>Properties\<close>

text \<open>A new store whose records are in memory and that is not persistent, and its initial state.\<close>

definition new_volatile_store ::
  "'b LocationBlobMap \<Rightarrow> 'g SingleThreadedGenerator \<Rightarrow> (ReferenceLocationRecordKey \<Rightarrow> uint64) \<Rightarrow> uint64 \<Rightarrow> uint8 \<Rightarrow> int
     \<Rightarrow> uint64 \<Rightarrow> uint64 \<Rightarrow> (inMemoryReferenceLocationRecord list, 'b, 'g volatileEpochList) store" where
  "new_volatile_store M rng hasher count maxGet maxPut currentRegion newRegion =
     NewStore (NewHashMap (inMemoryReferenceLocationRecordArray (volatileEpochList rng)) hasher count cmp_Compare maxGet maxPut)
       M (volatileEpochList rng) currentRegion newRegion"

definition new_volatile_state ::
  "'g SingleThreadedGenerator \<Rightarrow> 'g \<Rightarrow> nat \<Rightarrow> uint64 \<Rightarrow> 'b
     \<Rightarrow> (inMemoryReferenceLocationRecord list, 'b, 'g volatileEpochList) store_state" where
  "new_volatile_state rng g span count b =
     \<lparr>st_records = NewInMemoryReferenceLocationRecordArray (unat count), st_blobs = b,
      st_epochs = NewVolatileEpochList rng (of_nat span) g\<rparr>"

lemma new_volatile_store:
  assumes "count \<noteq> 0" "1 \<le> maxPut" "currentRegion \<noteq> 0"
  shows "volatile_store M rng (new_volatile_store M rng hasher count maxGet maxPut currentRegion newRegion)"
    and "recordCount (referenceLocationMap (new_volatile_store M rng hasher count maxGet maxPut currentRegion newRegion)) = count"
  using assms by (simp_all add: volatile_store_def new_volatile_store_def NewStore_def NewHashMap_def)

lemma im_no_backend_error: "\<not> backend_error inMemoryLocationBlobMap (im_inv sz) sz im_holds err"
proof
  assume "backend_error inMemoryLocationBlobMap (im_inv sz) sz im_holds err"
  then consider b l and x :: bytes where "im_inv sz b" "lbm_Get inMemoryLocationBlobMap b l (length x) = Inl err"
    | b x b' where "im_inv sz b" "length x \<le> sz" "lbm_Put inMemoryLocationBlobMap b x = (Inl err, b')"
    unfolding backend_error_def by blast
  then show False
  proof cases
    case 1
    then show ?thesis using im_Get_eq by (simp add: inMemoryLocationBlobMap_def)
  next
    case 2
    then show ?thesis using im_Put_ok [of sz b x] by (auto simp: inMemoryLocationBlobMap_def)
  qed
qed

text \<open>The store in memory.\<close>

lemma in_memory_upload_then_download:
  assumes "count \<noteq> 0" "1 \<le> maxPut" "currentRegion \<noteq> 0" "2 ^ 21 \<le> sz" "sz < 2 ^ 63"
    and "v_epochID (NewVolatileEpochList rng (of_nat sz) g) \<noteq> 0"
    and "s = new_volatile_store inMemoryLocationBlobMap rng hasher count maxGet maxPut currentRegion newRegion"
    and "store_reachable s (new_volatile_state rng g sz count (NewInMemoryLocationBlobMap sz)) st"
    and "flat_reference_ok k" "contents_of (FlatReference_GetLocalReference k) c"
    and "unat (im_nextLocation (st_blobs st)) + 2 ^ 22 < 2 ^ 64"
    and "local_UploadObject s st k (Some c) leases want = (r, st')"
  shows "r = Inr (UploadObjectComplete ())
    \<and> (\<exists>c' st''. local_DownloadObject s st' k = (Inr c', st'') \<and> contents_of (FlatReference_GetLocalReference k) c'
         \<and> (getObjectLocation s st k = Inl (Status NotFound) \<longrightarrow> c' = c))"
proof -
  note v = new_volatile_store [OF assms(1-3), of inMemoryLocationBlobMap rng hasher maxGet newRegion, folded assms(7)]
  have b: "im_inv sz (NewInMemoryLocationBlobMap sz)" "lbm_GetNextPutLocation inMemoryLocationBlobMap (NewInMemoryLocationBlobMap sz) = 0"
    using assms(4,5) by (simp_all add: im_inv_def NewInMemoryLocationBlobMap_def inMemoryLocationBlobMap_def)
  have i: "store_inv (im_inv sz) sz im_holds s (new_volatile_state rng g sz count (NewInMemoryLocationBlobMap sz))"
    using imlbm.store_inv_start [OF b v(1) assms(6)] v(2) by (simp add: new_volatile_state_def)
  have "unat (lbm_GetNextPutLocation inMemoryLocationBlobMap (st_blobs st)) + 2 ^ 22 < 2 ^ 64"
    using assms(11) by (simp add: inMemoryLocationBlobMap_def)
  then show ?thesis
    using imlbm.upload_then_download [OF assms(8) v(1) i assms(4,9,10) _ assms(12)] im_no_backend_error by auto
qed

text \<open>
  C1. Integrity: whatever the epoch list, the reference-location map and the location-blob map return, a download
  from the local store only ever yields contents whose size and SHA-256 hash are those of the requested reference.
\<close>

theorem local_store_integrity:
  assumes "local_DownloadObject s st r = (Inr c, st')"
  shows "contents_of (FlatReference_GetLocalReference r) c"
  using local_DownloadObject_read [OF assms] readObjectAtLocation_integrity by blast

text \<open>
  C2. Durability in memory: from any state that a sequence of uploads and downloads leads to, an upload succeeds, and
  the object can be downloaded right after. If it was absent before, exactly the uploaded contents are returned. The
  store must be large enough for the largest object, 64-bit locations must not be exhausted, and the random identifier
  of the epoch must not be zero, as zero initialized records would belong to it.
\<close>

theorem uploaded_object_downloads:
  assumes "count \<noteq> 0" "1 \<le> maxPut" "currentRegion \<noteq> 0" "2 ^ 21 \<le> sz" "sz < 2 ^ 63"
    and "v_epochID (NewVolatileEpochList rng (of_nat sz) g) \<noteq> 0"
    and "s = new_volatile_store inMemoryLocationBlobMap rng hasher count maxGet maxPut currentRegion newRegion"
    and "store_reachable s (new_volatile_state rng g sz count (NewInMemoryLocationBlobMap sz)) st"
    and "flat_reference_ok k" "contents_of (FlatReference_GetLocalReference k) c"
    and "unat (im_nextLocation (st_blobs st)) + 2 ^ 22 < 2 ^ 64"
    and "local_UploadObject s st k (Some c) leases want = (r, st')"
  shows "r = Inr (UploadObjectComplete ())
    \<and> (\<exists>c' st''. local_DownloadObject s st' k = (Inr c', st'') \<and> contents_of (FlatReference_GetLocalReference k) c'
         \<and> (getObjectLocation s st k = Inl (Status NotFound) \<longrightarrow> c' = c))"
  by (rule in_memory_upload_then_download [OF assms])

text \<open>
  C3. Durability on a block device: the same holds when the contents are stored on a block device, except that
  the upload or the download may fail with an error of the device; no operation panics, and an object that was
  uploaded is neither lost nor corrupted.
\<close>

theorem uploaded_object_downloads_device:
  assumes "count \<noteq> 0" "1 \<le> maxPut" "currentRegion \<noteq> 0" "2 ^ 21 \<le> ss * (sectors - 1)" "ss * sectors < 2 ^ 63" "0 < ss"
    and "block_device bd dev_bytes (ss * sectors)"
    and "v_epochID (NewVolatileEpochList rng (of_nat (ss * (sectors - 1))) g) \<noteq> 0"
    and "s = new_volatile_store (blockDeviceBackedLocationBlobMap bd ss sectors) rng hasher count maxGet maxPut currentRegion newRegion"
    and "store_reachable s (new_volatile_state rng g (ss * (sectors - 1)) count (NewBlockDeviceBackedLocationBlobMap ss d 0)) st"
    and "flat_reference_ok k" "contents_of (FlatReference_GetLocalReference k) c"
    and "unat (bd_nextLocation (st_blobs st)) + 2 ^ 22 < 2 ^ 64"
    and "local_UploadObject s st k (Some c) leases want = (r, st')"
  shows "r = Inr (UploadObjectComplete ())
      \<and> (\<exists>r' st''. local_DownloadObject s st' k = (r', st'')
          \<and> ((\<exists>c'. r' = Inr c' \<and> contents_of (FlatReference_GetLocalReference k) c'
                \<and> (getObjectLocation s st k = Inl (Status NotFound) \<longrightarrow> c' = c))
            \<or> (\<exists>err. r' = Inl err \<and> backend_error (blockDeviceBackedLocationBlobMap bd ss sectors) (bd_inv bd dev_bytes ss sectors) (ss * (sectors - 1)) (bd_holds dev_bytes) err)))
    \<or> (\<exists>err. r = Inl err \<and> backend_error (blockDeviceBackedLocationBlobMap bd ss sectors) (bd_inv bd dev_bytes ss sectors) (ss * (sectors - 1)) (bd_holds dev_bytes) err)"
proof -
  note v = new_volatile_store [OF assms(1-3), of "blockDeviceBackedLocationBlobMap bd ss sectors" rng hasher maxGet newRegion, folded assms(9)]
  have sectors: "0 < sectors" using assms(4) by (cases sectors) auto
  have "ss \<le> ss * sectors" using sectors by simp
  then have "ss < 2 ^ 63" using assms(5) by linarith
  then have "ss < 2 ^ 64" by simp
  have b: "bd_inv bd dev_bytes ss sectors (NewBlockDeviceBackedLocationBlobMap ss d 0)"
    by (rule bd_New_inv [OF assms(7,6) sectors assms(5)])
  have z: "lbm_GetNextPutLocation (blockDeviceBackedLocationBlobMap bd ss sectors) (NewBlockDeviceBackedLocationBlobMap ss d 0) = 0"
  proof -
    have "of_nat ss - 1 < (of_nat ss :: uint64)" using assms(6) \<open>ss < 2 ^ 64\<close>
      by (simp add: word_less_nat_alt unat_of_nat unat_minus_one take_bit_nat_eq_self word_of_nat_eq_0_iff nat_dvd_not_less)
    then show ?thesis
      by (simp add: blockDeviceBackedLocationBlobMap_def NewBlockDeviceBackedLocationBlobMap_def div_word_less)
  qed
  have i: "store_inv (bd_inv bd dev_bytes ss sectors) (ss * (sectors - 1)) (bd_holds dev_bytes) s
      (new_volatile_state rng g (ss * (sectors - 1)) count (NewBlockDeviceBackedLocationBlobMap ss d 0))"
    using bdlbm.store_inv_start [OF b z v(1) assms(8)] v(2) by (simp add: new_volatile_state_def)
  have "unat (lbm_GetNextPutLocation (blockDeviceBackedLocationBlobMap bd ss sectors) (st_blobs st)) + 2 ^ 22 < 2 ^ 64"
    using assms(13) by (simp add: blockDeviceBackedLocationBlobMap_def)
  then show ?thesis
    using bdlbm.upload_then_download [OF assms(10) v(1) i assms(4,11,12) _ assms(14)] by blast
qed

section \<open>Concrete instances\<close>

definition example_flat :: FlatReference where
  "example_flat = \<lparr>rawFlatReference = Sum256 [0x68] @ [1, 0, 0]\<rparr>"

definition example_flat_contents :: Contents where
  "example_flat_contents = \<lparr>contents_reference = FlatReference_GetLocalReference example_flat, contents_data = [0x68]\<rparr>"

lemma example_flat_size: "FlatReference_GetSizeBytes example_flat = 1"
  by (simp add: example_flat_def FlatReference_GetSizeBytes_def nth_append length_Sum256)

lemma example_flat_ok: "flat_reference_ok example_flat"
  using example_flat_size by (simp add: flat_reference_ok_iff example_flat_def length_Sum256)

lemma example_flat_contents: "contents_of (FlatReference_GetLocalReference example_flat) example_flat_contents"
  using flat_local_fields [of example_flat] example_flat_size
  by (simp add: contents_of_def example_flat_contents_def FlatReference_GetHash_def example_flat_def length_Sum256)

definition example_hasher :: "ReferenceLocationRecordKey \<Rightarrow> uint64" where
  "example_hasher = referenceLocationHasher 14695981039346656037"

abbreviation example_store :: "(inMemoryReferenceLocationRecord list, inMemoryLocationBlobMap, nat volatileEpochList) store" where
  "example_store \<equiv> new_volatile_store inMemoryLocationBlobMap example_rng example_hasher 16 8 32 1000 2000"

abbreviation example_store_state ::
  "(inMemoryReferenceLocationRecord list, inMemoryLocationBlobMap, nat volatileEpochList) store_state" where
  "example_store_state \<equiv> new_volatile_state example_rng 7 (2 ^ 21) 16 (NewInMemoryLocationBlobMap (2 ^ 21))"

lemma example_epoch_id: "v_epochID (NewVolatileEpochList example_rng x 7) = 7"
  by (simp add: NewVolatileEpochList_def v_reinitialize_def example_rng_def)

theorem uploaded_object_downloads_witness:
  "\<exists>st' c' st''. local_UploadObject example_store example_store_state example_flat (Some example_flat_contents) [] False
       = (Inr (UploadObjectComplete ()), st')
     \<and> local_DownloadObject example_store st' example_flat = (Inr c', st'')"
proof -
  obtain r st' where u: "local_UploadObject example_store example_store_state example_flat (Some example_flat_contents) [] False
      = (r, st')" by fastforce
  have "unat (im_nextLocation (st_blobs example_store_state)) + 2 ^ 22 < 2 ^ 64"
    by (simp add: new_volatile_state_def NewInMemoryLocationBlobMap_def)
  then show ?thesis
    using uploaded_object_downloads [OF _ _ _ _ _ _ refl store_reachable.start example_flat_ok example_flat_contents _ u]
      example_epoch_id u by auto
qed

lemma example_download: "\<exists>st c st'. local_DownloadObject example_store st example_flat = (Inr c, st')"
proof -
  obtain r st' where u: "local_UploadObject example_store example_store_state example_flat (Some example_flat_contents) [] False
      = (r, st')" by fastforce
  have "unat (im_nextLocation (st_blobs example_store_state)) + 2 ^ 22 < 2 ^ 64"
    by (simp add: new_volatile_state_def NewInMemoryLocationBlobMap_def)
  then show ?thesis
    using in_memory_upload_then_download [OF _ _ _ _ _ _ refl store_reachable.start example_flat_ok example_flat_contents _ u]
      example_epoch_id by auto
qed

theorem local_store_integrity_witness:
  "\<exists>st c st'. local_DownloadObject example_store st example_flat = (Inr c, st')
     \<and> contents_of (FlatReference_GetLocalReference example_flat) c"
  using example_download local_store_integrity by blast

theorem uploaded_object_downloads_device_witness:
  "\<exists>r st'. local_UploadObject
       (new_volatile_store (blockDeviceBackedLocationBlobMap (ram_device (512 * 8192)) 512 8192) example_rng example_hasher 16 8 32 1000 2000)
       (new_volatile_state example_rng 7 (512 * (8192 - 1)) 16 (NewBlockDeviceBackedLocationBlobMap 512 [] 0))
       example_flat (Some example_flat_contents) [] False = (r, st')
     \<and> r \<noteq> Inl Panic"
proof -
  let ?s = "new_volatile_store (blockDeviceBackedLocationBlobMap (ram_device (512 * 8192)) 512 8192) example_rng example_hasher 16 8 32 1000 2000"
  let ?st = "new_volatile_state example_rng 7 (512 * (8192 - 1)) 16 (NewBlockDeviceBackedLocationBlobMap 512 [] 0)"
  obtain r st' where u: "local_UploadObject ?s ?st example_flat (Some example_flat_contents) [] False = (r, st')" by fastforce
  have d: "block_device (ram_device (512 * 8192)) (ram_bytes (512 * 8192)) (512 * 8192)"
    using ram_device_array [of 0 "512 * 8192"] by (simp add: device_array_def)
  have "unat (bd_nextLocation (st_blobs ?st)) + 2 ^ 22 < 2 ^ 64"
    by (simp add: new_volatile_state_def NewBlockDeviceBackedLocationBlobMap_def)
  then show ?thesis
    using uploaded_object_downloads_device [OF _ _ _ _ _ _ d _ refl store_reachable.start example_flat_ok example_flat_contents _ u]
      example_epoch_id u by (auto simp: backend_error_def)
qed

end
