(* ===== verification/Local_Configuration.thy ===== *)
theory Local_Configuration
  imports Local_Store Periodic_Syncer
begin

text \<open>
  Construction of the local object store from a configuration message: which of the implementations are
  composed, and the sizes of the regions that decide when objects are refreshed.
\<close>

section \<open>Choosing among the implementations\<close>

text \<open>The states of the two location-blob maps and of the two epoch lists, and the dispatch on them.\<close>

datatype 'd location_blob_map_state =
    InMemoryBlobs inMemoryLocationBlobMap
  | DeviceBlobs "'d blockDeviceBackedLocationBlobMap"

definition dispatchLocationBlobMap ::
  "'d BlockDevice \<Rightarrow> nat \<Rightarrow> nat \<Rightarrow> 'd location_blob_map_state LocationBlobMap" where
  "dispatchLocationBlobMap bd sectorSizeBytes sectorCount =
     \<lparr>lbm_Get = (\<lambda>b location n. case b of
        InMemoryBlobs m \<Rightarrow> im_Get m location n
      | DeviceBlobs m \<Rightarrow> bd_Get bd sectorSizeBytes sectorCount m location n),
      lbm_Put = (\<lambda>b data. case b of
        InMemoryBlobs m \<Rightarrow> map_prod id InMemoryBlobs (im_Put m data)
      | DeviceBlobs m \<Rightarrow> map_prod id DeviceBlobs (bd_Put bd sectorSizeBytes sectorCount m data)),
      lbm_GetNextPutLocation = (\<lambda>b. case b of
        InMemoryBlobs m \<Rightarrow> im_nextLocation m
      | DeviceBlobs m \<Rightarrow> bd_nextLocation m)\<rparr>"

datatype 'g epoch_list_state = VolatileEpochs "'g volatileEpochList" | PersistentEpochs "'g PersistentEpochList"

definition dispatchEpochList :: "'g SingleThreadedGenerator \<Rightarrow> 'g epoch_list_state EpochList" where
  "dispatchEpochList rng =
     \<lparr>GetEpochStateForEpochID = (\<lambda>e. case e of
        VolatileEpochs el \<Rightarrow> GetEpochStateForEpochID (volatileEpochList rng) el
      | PersistentEpochs el \<Rightarrow> GetEpochStateForEpochID (persistentEpochList rng) el),
      GetCurrentEpochState = (\<lambda>e. case e of
        VolatileEpochs el \<Rightarrow> GetCurrentEpochState (volatileEpochList rng) el
      | PersistentEpochs el \<Rightarrow> GetCurrentEpochState (persistentEpochList rng) el),
      FinalizeWriteUpToLocation = (\<lambda>e location. case e of
        VolatileEpochs el \<Rightarrow> map_prod id VolatileEpochs (FinalizeWriteUpToLocation (volatileEpochList rng) el location)
      | PersistentEpochs el \<Rightarrow> map_prod id PersistentEpochs (FinalizeWriteUpToLocation (persistentEpochList rng) el location)),
      DiscardUpToLocation = (\<lambda>e location. case e of
        VolatileEpochs el \<Rightarrow> map_sum id VolatileEpochs (DiscardUpToLocation (volatileEpochList rng) el location)
      | PersistentEpochs el \<Rightarrow> map_sum id PersistentEpochs (DiscardUpToLocation (persistentEpochList rng) el location))\<rparr>"

section \<open>The configuration\<close>

datatype 'c LocationBlobMapBackend =
    LocationBlobMapInMemory uint64
  | LocationBlobMapOnBlockDevice 'c
  | NoLocationBlobMapBackend

record PersistentConfiguration =
  StateDirectoryPath :: string
  MinimumEpochInterval :: int

record 'c StoreConfiguration =
  cfgReferenceLocationMap :: "'c HashMapConfiguration option"
  cfgLocationBlobMapBackend :: "'c LocationBlobMapBackend"
  OldRegionSizeRatio :: uint32
  CurrentRegionSizeRatio :: uint32
  NewRegionSizeRatio :: uint32
  cfgPersistent :: "PersistentConfiguration option"

text \<open>
  What lies outside of the program: block devices are opened by \<open>env_newBlockDevice\<close>, which yields a
  device, its sector size and its number of sectors; \<open>env_openDirectory\<close> is
  \<open>filesystem.NewLocalDirectory\<close>; \<open>env_checkValid\<close> is the check of a duration. The clock, the
  logger and the directory are used by the periodic syncer.
\<close>

record ('c, 'd, 'h, 'f, 'w) environment =
  env_blockDevice :: "'d BlockDevice"
  env_newBlockDevice :: "'c \<Rightarrow> bool \<Rightarrow> ('d \<times> int \<times> int) result"
  env_openDirectory :: "string \<Rightarrow> 'h result"
  env_directory :: "('h, 'f) Directory"
  env_codec :: Codec
  env_checkValid :: "int \<Rightarrow> go_error option"
  env_random :: uint64
  env_write :: "'h \<Rightarrow> 'w \<Rightarrow> PersistentState \<Rightarrow> go_error option \<times> 'w"
  env_now :: "'w \<Rightarrow> int"
  env_log :: "'w \<Rightarrow> go_error \<Rightarrow> 'w"
  env_sleep :: "'w \<Rightarrow> int \<Rightarrow> 'w"
  env_sync :: "'d \<Rightarrow> 'w \<Rightarrow> go_error option \<times> 'w"

text \<open>The state that a previous run left behind, with the directory it is kept in.\<close>

definition initial_persistent_state ::
  "('c, 'd, 'h, 'f, 'w) environment \<Rightarrow> PersistentConfiguration option \<Rightarrow> ('h option \<times> PersistentState) result" where
  "initial_persistent_state env pcfg =
     (case pcfg of
        None \<Rightarrow> Inr (None, \<lparr>MinimumEpochId = 0, MinimumLocation_pb = 0, Epochs = [],
          ReferenceLocationMapHashInitialization = env_random env\<rparr>)
      | Some pcfg \<Rightarrow>
          bindE (env_openDirectory env (StateDirectoryPath pcfg)) (\<lambda>h.
          bindE (ReadPersistentState (env_directory env) (env_codec env) (env_random env) h) (\<lambda>state.
            Inr (Some h, state))))"

text \<open>
  The location-blob map: its operations, its state, the span of locations it can hold, and the device whose
  data must be synchronized.
\<close>

definition new_location_blob_map ::
  "('c, 'd, 'h, 'f, 'w) environment \<Rightarrow> 'c LocationBlobMapBackend \<Rightarrow> bool \<Rightarrow> PersistentState
     \<Rightarrow> ('d location_blob_map_state LocationBlobMap \<times> 'd location_blob_map_state \<times> uint64 \<times> 'd option) result" where
  "new_location_blob_map env backend persistent state =
     (case backend of
        LocationBlobMapInMemory sizeBytes \<Rightarrow>
          Inr (dispatchLocationBlobMap (env_blockDevice env) 0 0,
            InMemoryBlobs (NewInMemoryLocationBlobMap (nat (sint sizeBytes))), sizeBytes, None)
      | LocationBlobMapOnBlockDevice c \<Rightarrow>
          bindE (env_newBlockDevice env c (\<not> persistent)) (\<lambda>(device, sectorSizeBytes, sectorCount).
            let initialLocation = foldl (\<lambda>l epoch. l + pb_LocationIncrease epoch) (MinimumLocation_pb state) (Epochs state)
            in Inr (dispatchLocationBlobMap (env_blockDevice env) (nat sectorSizeBytes) (nat sectorCount),
                 DeviceBlobs (NewBlockDeviceBackedLocationBlobMap (nat sectorSizeBytes) device initialLocation),
                 word_of_int sectorSizeBytes * word_of_int (sectorCount - 1), Some device))
      | NoLocationBlobMapBackend \<Rightarrow> Inl (Status InvalidArgument))"

definition new_epoch_list ::
  "('c, 'd, 'h, 'f, 'w) environment \<Rightarrow> 'g \<Rightarrow> 'w \<Rightarrow> (PersistentConfiguration \<times> 'h) option \<Rightarrow> PersistentState \<Rightarrow> uint64 \<Rightarrow> 'd option
     \<Rightarrow> 'g SingleThreadedGenerator \<Rightarrow> ('g epoch_list_state \<times> 'w PeriodicSyncer option) result" where
  "new_epoch_list env g w pcfg state span device rng =
     (case pcfg of
        None \<Rightarrow> Inr (VolatileEpochs (NewVolatileEpochList rng span g), None)
      | Some (pcfg, h) \<Rightarrow>
          let el = NewPersistentEpochList span g (MinimumEpochId state) (MinimumLocation_pb state) (Epochs state) in
          case env_checkValid env (MinimumEpochInterval pcfg) of
            Some err \<Rightarrow> Inl err
          | None \<Rightarrow>
              Inr (PersistentEpochs el,
                Some (NewPeriodicSyncer (env_write env h) (env_now env) (env_log env) (env_sleep env) 10000000000
                  (MinimumEpochInterval pcfg) (ReferenceLocationMapHashInitialization state)
                  (case device of None \<Rightarrow> \<lambda>w. (None, w) | Some d \<Rightarrow> env_sync env d) w)))"

text \<open>
  The sizes of the regions. The sum of the ratios is computed at 32 bits, and the products at 64 bits. The
  division by zero panics.
\<close>

definition region_sizes :: "uint64 \<Rightarrow> uint32 \<Rightarrow> uint32 \<Rightarrow> uint32 \<Rightarrow> (uint64 \<times> uint64) result" where
  "region_sizes span oldRatio currentRatio newRatio =
     (if oldRatio < 1 then Inl (Status InvalidArgument)
      else if currentRatio < 1 then Inl (Status InvalidArgument)
      else if newRatio < 1 then Inl (Status InvalidArgument)
      else
        let totalRatio = ucast (oldRatio + currentRatio + newRatio) :: uint64 in
        if totalRatio = 0 then Inl Panic
        else Inr (span * ucast currentRatio div totalRatio,
                  span * ucast newRatio div totalRatio))"

definition NewStoreFromConfiguration ::
  "('c, 'd, 'h, 'f, 'w) environment \<Rightarrow> 'g SingleThreadedGenerator \<Rightarrow> 'g \<Rightarrow> 'w \<Rightarrow> 'c StoreConfiguration option
     \<Rightarrow> (('d record_array_state, 'd location_blob_map_state, 'g epoch_list_state) store
        \<times> ('d record_array_state, 'd location_blob_map_state, 'g epoch_list_state) store_state
        \<times> 'w PeriodicSyncer option) result" where
  "NewStoreFromConfiguration env rng g w configuration =
     (case configuration of
        None \<Rightarrow> Inl (Status InvalidArgument)
      | Some configuration \<Rightarrow>
          let persistent = cfgPersistent configuration \<noteq> None; E = dispatchEpochList rng in
          bindE (initial_persistent_state env (cfgPersistent configuration)) (\<lambda>(h, state).
          bindE (NewHashMapFromConfiguration (env_newBlockDevice env) (cfgReferenceLocationMap configuration)
              (LocationRecordArrayFactory (env_blockDevice env) E)
              (referenceLocationHasher (ReferenceLocationMapHashInitialization state)) cmp_Compare persistent) (\<lambda>(rlm, records).
          bindE (new_location_blob_map env (cfgLocationBlobMapBackend configuration) persistent state) (\<lambda>(lbm, blobs, span, device).
          bindE (new_epoch_list env g w (case (cfgPersistent configuration, h) of (Some p, Some h) \<Rightarrow> Some (p, h) | _ \<Rightarrow> None)
              state span device rng) (\<lambda>(el, syncer).
          bindE (region_sizes span (OldRegionSizeRatio configuration) (CurrentRegionSizeRatio configuration)
              (NewRegionSizeRatio configuration)) (\<lambda>(currentRegion, newRegion).
            Inr (NewStore rlm lbm E currentRegion newRegion,
                 \<lparr>st_records = records, st_blobs = blobs, st_epochs = el\<rparr>, syncer)))))))"

section \<open>Resuming after a restart\<close>

lemma reload_epochs_last:
  assumes "minimumLocation el \<le> maxLoc" "epochs el \<noteq> [] \<Longrightarrow> maximumLocation (last (epochs el)) = maxLoc"
    "epochs el = [] \<Longrightarrow> minimumLocation el = maxLoc"
  shows "(let el' = reload_epochs el maxLoc eps; m = foldl (\<lambda>l epoch. l + pb_LocationIncrease epoch) maxLoc eps in
    minimumLocation el' \<le> m \<and> (epochs el' \<noteq> [] \<longrightarrow> maximumLocation (last (epochs el')) = m)
    \<and> (epochs el' = [] \<longrightarrow> minimumLocation el' = m))"
  using assms
proof (induction el maxLoc eps rule: reload_epochs.induct)
  case (1 el maxLoc)
  then show ?case by simp
next
  case (2 el maxLoc epoch rest)
  obtain el' maxLoc' where r: "reload_epoch el maxLoc epoch = (el', maxLoc')" by fastforce
  have m: "maxLoc' = maxLoc + pb_LocationIncrease epoch" "epochs el' \<noteq> []" "maximumLocation (last (epochs el')) = maxLoc'"
    using r by (auto simp: reload_epoch_def bits_Add64_def Let_def)
  have "maxLoc \<le> maxLoc + pb_LocationIncrease epoch" if "unat maxLoc + unat (pb_LocationIncrease epoch) < 2 ^ 64"
    using that by (simp add: word_le_nat_alt unat_plus_no_carry)
  then have "minimumLocation el' \<le> maxLoc'"
    using r 2(2) order_trans [of "minimumLocation el" maxLoc] by (auto simp: reload_epoch_def bits_Add64_def Let_def p_reinitialize_def split: if_splits)
  then show ?case using 2(1) [OF r [symmetric] refl] m by (simp add: r)
qed

lemma NewPersistentEpochList_last:
  "lastMaximumLocation (NewPersistentEpochList span g minID minLoc eps) = foldl (\<lambda>l epoch. l + pb_LocationIncrease epoch) minLoc eps"
proof -
  define el where "el = \<lparr>maximumLocationSpan = span, randomNumberGenerator = g, closedForWriting = False,
        minimumEpochID = minID, minimumLocation = minLoc, epochs = [],
        synchronizingEpochs = 0, synchronizedEpochs = 0,
        locationsChangedWakeup = newNotificationChannel []\<rparr>"
  have "reload_ok (newNotificationChannel []) el minLoc" by (simp add: el_def counts_ok_def reload_ok_def)
  then have "sorted (map maximumLocation (epochs (reload_epochs el minLoc eps)))"
    using reload_ok_all unfolding reload_ok_def by blast
  then have "lastMaximumLocation (pruneStaleEpochs (reload_epochs el minLoc eps)) =
      foldl (\<lambda>l epoch. l + pb_LocationIncrease epoch) minLoc eps"
    using reload_epochs_last [of el minLoc eps] by (auto simp: lastMaximumLocation_prune el_def Let_def)
  then show ?thesis by (simp add: NewPersistentEpochList_def el_def)
qed

lemma reload_epochs_span: "maximumLocationSpan (reload_epochs el maxLoc eps) = maximumLocationSpan el"
  by (induction el maxLoc eps rule: reload_epochs.induct)
     (auto simp: reload_epoch_def p_reinitialize_def Let_def split: prod.splits)

lemma NewPersistentEpochList_span [simp]: "maximumLocationSpan (NewPersistentEpochList span g minID minLoc eps) = span"
  by (simp add: NewPersistentEpochList_def pruneStaleEpochs_def Let_def reload_epochs_span)

lemma round_up_bounds:
  fixes l :: uint64
  assumes "0 < ss" "unat l + ss < 2 ^ 64"
  shows "unat l \<le> unat ((l + of_nat ss - 1) div of_nat ss * of_nat ss)"
    and "unat ((l + of_nat ss - 1) div of_nat ss * of_nat ss) < unat l + ss"
proof -
  have ss: "unat (of_nat ss :: uint64) = ss" using assms(2) by (simp add: unat_of_nat take_bit_nat_eq_self)
  have "l + of_nat ss \<noteq> 0" using unat_plus_no_carry [of l "of_nat ss"] ss assms by auto
  then have s: "unat (l + of_nat ss - 1) = unat l + ss - 1"
    using ss assms by (simp add: unat_minus_one unat_plus_no_carry)
  have r: "unat ((l + of_nat ss - 1) div of_nat ss * of_nat ss) = (unat l + ss - 1) div ss * ss"
    using unat_round_down [of ss "l + of_nat ss - 1"] assms s by simp
  have "(unat l + ss - 1) div ss * ss + (unat l + ss - 1) mod ss = unat l + ss - 1" by (rule div_mult_mod_eq)
  moreover have "(unat l + ss - 1) mod ss < ss" using assms(1) by simp
  ultimately show "unat l \<le> unat ((l + of_nat ss - 1) div of_nat ss * of_nat ss)"
    "unat ((l + of_nat ss - 1) div of_nat ss * of_nat ss) < unat l + ss"
    unfolding r using assms(1) by linarith+
qed

section \<open>Properties\<close>

text \<open>
  C12. Restart: when a persistent store on a block device is reopened, the epoch list satisfies its invariant and covers
  exactly the locations up to the one recorded in the persistent state; the location-blob map resumes writing at or above
  that location and wastes less than one sector, so that what was synchronized before is not overwritten until the span
  of the device is exhausted.
\<close>

theorem restart_resumes:
  assumes "NewStoreFromConfiguration env rng g w (Some cfg) = Inr (s, st, syncer)"
    and "cfgPersistent cfg = Some pcfg" "cfgLocationBlobMapBackend cfg = LocationBlobMapOnBlockDevice c"
    and "env_newBlockDevice env c False = Inr (device, ss, sectors)" "0 < ss"
    and "env_openDirectory env (StateDirectoryPath pcfg) = Inr h"
    and "ReadPersistentState (env_directory env) (env_codec env) (env_random env) h = Inr state"
    and "unat (foldl (\<lambda>l epoch. l + pb_LocationIncrease epoch) (MinimumLocation_pb state) (Epochs state)) + nat ss < 2 ^ 64"
  shows "\<exists>el b. st_epochs st = PersistentEpochs el \<and> st_blobs st = DeviceBlobs b \<and> syncer \<noteq> None \<and> el_inv el
    \<and> lastMaximumLocation el = foldl (\<lambda>l epoch. l + pb_LocationIncrease epoch) (MinimumLocation_pb state) (Epochs state)
    \<and> lastMaximumLocation el \<le> bd_nextLocation b \<and> unat (bd_nextLocation b) < unat (lastMaximumLocation el) + nat ss
    \<and> maximumLocationSpan el = word_of_int ss * word_of_int (sectors - 1)"
proof -
  let ?el = "NewPersistentEpochList (word_of_int ss * word_of_int (sectors - 1)) g (MinimumEpochId state) (MinimumLocation_pb state) (Epochs state)"
  let ?l = "foldl (\<lambda>l epoch. l + pb_LocationIncrease epoch) (MinimumLocation_pb state) (Epochs state)"
  have "st_epochs st = PersistentEpochs ?el" "st_blobs st = DeviceBlobs (NewBlockDeviceBackedLocationBlobMap (nat ss) device ?l)"
    "syncer \<noteq> None"
    using assms(1-7) by (auto simp: NewStoreFromConfiguration_def initial_persistent_state_def new_location_blob_map_def
        new_epoch_list_def Let_def split: option.splits)
  then show ?thesis
    using round_up_bounds [of "nat ss" ?l] assms(5,8)
    by (auto simp: NewPersistentEpochList_inv NewPersistentEpochList_last NewBlockDeviceBackedLocationBlobMap_def word_le_nat_alt)
qed

definition epoch_span :: "'g epoch_list_state \<Rightarrow> uint64" where
  "epoch_span e = (case e of VolatileEpochs el \<Rightarrow> v_maximumLocationSpan el | PersistentEpochs el \<Rightarrow> maximumLocationSpan el)"

lemma scaled_sum:
  assumes "c + n \<le> (t :: nat)"
  shows "span * c div t + span * n div t \<le> span"
proof -
  have "span * c div t + span * n div t \<le> (span * c + span * n) div t" by (simp add: div_add1_eq [of "span * c"])
  also have "\<dots> \<le> span * t div t" using assms by (intro div_le_mono) (simp add: distrib_left [symmetric])
  also have "\<dots> \<le> span" by (cases "t = 0") auto
  finally show ?thesis .
qed

text \<open>
  Bounds: if a store can be created and the arithmetic on its ratios does not overflow, the new and current regions
  are the configured fractions of the span of the store, and together do not exceed it. Hence the distance at which
  an object is refreshed lies within the span.
\<close>

theorem region_sizes_bounds:
  assumes "NewStoreFromConfiguration env rng g w (Some cfg) = Inr (s, st, syncer)"
    and "unat (OldRegionSizeRatio cfg) + unat (CurrentRegionSizeRatio cfg) + unat (NewRegionSizeRatio cfg) < 2 ^ 32"
    and "unat (epoch_span (st_epochs st)) * max (unat (CurrentRegionSizeRatio cfg)) (unat (NewRegionSizeRatio cfg)) < 2 ^ 64"
  shows "unat (currentRegionSizeBytes s) = unat (epoch_span (st_epochs st)) * unat (CurrentRegionSizeRatio cfg)
      div (unat (OldRegionSizeRatio cfg) + unat (CurrentRegionSizeRatio cfg) + unat (NewRegionSizeRatio cfg))
    \<and> unat (newRegionSizeBytes s) = unat (epoch_span (st_epochs st)) * unat (NewRegionSizeRatio cfg)
      div (unat (OldRegionSizeRatio cfg) + unat (CurrentRegionSizeRatio cfg) + unat (NewRegionSizeRatio cfg))
    \<and> unat (currentRegionSizeBytes s) + unat (newRegionSizeBytes s) \<le> unat (epoch_span (st_epochs st))"
proof -
  define o' c n where "o' = OldRegionSizeRatio cfg" and "c = CurrentRegionSizeRatio cfg" and "n = NewRegionSizeRatio cfg"
  obtain span where r: "region_sizes span o' c n = Inr (currentRegionSizeBytes s, newRegionSizeBytes s)"
    and span: "epoch_span (st_epochs st) = span"
    using assms(1) by (auto simp: NewStoreFromConfiguration_def initial_persistent_state_def new_epoch_list_def Let_def
        NewStore_def epoch_span_def NewVolatileEpochList_def o'_def c_def n_def split: option.splits)
  have rs: "currentRegionSizeBytes s = span * ucast c div ucast (o' + c + n)"
      "newRegionSizeBytes s = span * ucast n div ucast (o' + c + n)"
    using r by (auto simp: region_sizes_def Let_def split: if_splits)
  have "unat (o' + c + n) = unat o' + unat c + unat n"
    using assms(2) by (simp add: unat_word_ariths o'_def c_def n_def)
  then have t: "unat (ucast (o' + c + n) :: uint64) = unat o' + unat c + unat n" by (simp add: unat_ucast_up)
  have p: "unat (span * ucast x) = unat span * unat x" if "unat x \<le> max (unat c) (unat n)" for x :: uint32
  proof -
    have "unat span * unat x \<le> unat span * max (unat c) (unat n)" using that by (rule mult_le_mono2)
    also have "\<dots> < 2 ^ 64" using assms(3) span by (simp add: c_def n_def)
    finally show ?thesis by (simp add: unat_word_ariths unat_ucast_up)
  qed
  have "unat (currentRegionSizeBytes s) = unat span * unat c div (unat o' + unat c + unat n)"
    "unat (newRegionSizeBytes s) = unat span * unat n div (unat o' + unat c + unat n)"
    unfolding rs unat_div using p [of c] p [of n] t by simp_all
  then show ?thesis using scaled_sum [of "unat c" "unat n" "unat o' + unat c + unat n" "unat span"] span
    unfolding o'_def c_def n_def by simp
qed

text \<open>
  Without the bound on the ratios, their sum may be zero modulo \<open>2 ^ 32\<close>, and the division panics. Without the
  bound on the product, the current region may be empty, and every lookup of an object that exists panics.
\<close>

lemma region_sizes_overflow:
  "region_sizes span 1 0x7fffffff 0x80000000 = Inl Panic"
  "region_sizes 0x4000000000000000 1 4 1 = Inr (0, 0x0aaaaaaaaaaaaaaa)"
  by (simp_all add: region_sizes_def)

lemma getObjectLocation_no_current_region:
  "currentRegionSizeBytes s = 0 \<Longrightarrow> hashMap_Get (referenceLocationMap s) (st_records st) r (st_epochs st) = Inr l \<Longrightarrow>
   getObjectLocation s st r = Inl Panic"
  by (simp add: getObjectLocation_def)

section \<open>Concrete instances\<close>

text \<open>Configurations name a device by its number of sectors. No state has been stored yet.\<close>

definition example_environment :: "(nat, bytes, string \<Rightarrow> bytes option, string, unit) environment" where
  "example_environment =
     \<lparr>env_blockDevice = ram_device (512 * 8192), env_newBlockDevice = (\<lambda>n zero. Inr ([], 512, int n)),
      env_openDirectory = (\<lambda>path. Inr (\<lambda>_. None)), env_directory = example_directory, env_codec = example_codec,
      env_checkValid = (\<lambda>d. None), env_random = 9, env_write = (\<lambda>h w s. (None, w)), env_now = (\<lambda>w. 0),
      env_log = (\<lambda>w err. w), env_sleep = (\<lambda>w d. w), env_sync = (\<lambda>d w. (None, w))\<rparr>"

definition example_configuration :: "nat StoreConfiguration" where
  "example_configuration =
     \<lparr>cfgReferenceLocationMap = Some \<lparr>cfgBackend = InMemory 16, MaximumGetAttempts = 8, MaximumPutAttempts = 32\<rparr>,
      cfgLocationBlobMapBackend = LocationBlobMapOnBlockDevice 8192, OldRegionSizeRatio = 1,
      CurrentRegionSizeRatio = 1, NewRegionSizeRatio = 3,
      cfgPersistent = Some \<lparr>StateDirectoryPath = ''/state'', MinimumEpochInterval = 300000000000\<rparr>\<rparr>"

lemma example_configuration_ok:
  "\<exists>s st syncer. NewStoreFromConfiguration example_environment example_rng 7 () (Some example_configuration) = Inr (s, st, syncer)
     \<and> epoch_span (st_epochs st) = 512 * 8191"
  by (simp add: NewStoreFromConfiguration_def example_configuration_def example_environment_def Let_def
      initial_persistent_state_def ReadPersistentState_def example_directory_def newPersistentState_def
      NewHashMapFromConfiguration_def LocationRecordArrayFactory_def new_location_blob_map_def new_epoch_list_def
      region_sizes_def epoch_span_def)

theorem restart_resumes_witness:
  "\<exists>s st syncer el b. NewStoreFromConfiguration example_environment example_rng 7 () (Some example_configuration) = Inr (s, st, syncer)
     \<and> st_epochs st = PersistentEpochs el \<and> st_blobs st = DeviceBlobs b \<and> lastMaximumLocation el \<le> bd_nextLocation b"
proof -
  obtain s st syncer where c: "NewStoreFromConfiguration example_environment example_rng 7 () (Some example_configuration) = Inr (s, st, syncer)"
    using example_configuration_ok by blast
  have "\<exists>el b. st_epochs st = PersistentEpochs el \<and> st_blobs st = DeviceBlobs b \<and> lastMaximumLocation el \<le> bd_nextLocation b"
    using restart_resumes [OF c, of "\<lparr>StateDirectoryPath = ''/state'', MinimumEpochInterval = 300000000000\<rparr>" 8192 "[]" 512 8192
        "\<lambda>_. None" "newPersistentState 9"]
    by (auto simp: example_configuration_def example_environment_def ReadPersistentState_def example_directory_def newPersistentState_def)
  then show ?thesis using c by blast
qed

theorem region_sizes_bounds_witness:
  "\<exists>s st syncer. NewStoreFromConfiguration example_environment example_rng 7 () (Some example_configuration) = Inr (s, st, syncer)
     \<and> unat (currentRegionSizeBytes s) = 838758"
proof -
  obtain s st syncer where c: "NewStoreFromConfiguration example_environment example_rng 7 () (Some example_configuration) = Inr (s, st, syncer)"
    and e: "epoch_span (st_epochs st) = 512 * 8191"
    using example_configuration_ok by blast
  have "unat (currentRegionSizeBytes s) = 838758"
    using region_sizes_bounds [OF c] e by (simp add: example_configuration_def)
  then show ?thesis using c by blast
qed

end
