(* ===== verification/Sharding.thy ===== *)
theory Sharding
  imports Location_Records Object_Store "HOL-Library.Multiset"
begin

text \<open>
  Sharding of object storage: the fixed point logarithm, weighted rendezvous hashing, which picks a shard by
  comparing scores that depend on the hash of the object and of the shard, and the decorators that forward
  requests to the shard that was picked.
\<close>

section \<open>A fixed point logarithm\<close>

definition log2LUT :: "uint16 list" where
  "log2LUT =
    [0x0000, 0x05ba, 0x0b5d, 0x10eb, 0x1664, 0x1bc8, 0x2119, 0x2656,
     0x2b80, 0x3098, 0x359f, 0x3a94, 0x3f78, 0x444c, 0x4910, 0x4dc5,
     0x526a, 0x5700, 0x5b89, 0x6003, 0x646f, 0x68ce, 0x6d20, 0x7165,
     0x759d, 0x79ca, 0x7dea, 0x81ff, 0x8608, 0x8a06, 0x8dfa, 0x91e2,
     0x95c0, 0x9994, 0x9d5e, 0xa11e, 0xa4d4, 0xa881, 0xac24, 0xafbe,
     0xb350, 0xb6d9, 0xba59, 0xbdd1, 0xc140, 0xc4a8, 0xc807, 0xcb5f,
     0xceaf, 0xd1f7, 0xd538, 0xd872, 0xdba5, 0xded0, 0xe1f5, 0xe513,
     0xe82a, 0xeb3b, 0xee45, 0xf149, 0xf446, 0xf73e, 0xfa2f, 0xfd1a,
     0x0000]"

definition Log2Fixed64 :: "uint64 \<Rightarrow> uint64" where
  "Log2Fixed64 x =
     (let exponent = bits_Len (drop_bit 1 x);
          significand = push_bit (64 - exponent) x;
          lutIndex = unat (drop_bit (64 - 6) significand);
          begin = log2LUT ! lutIndex;
          end = log2LUT ! (lutIndex + 1);
          delta = ucast (end - begin) :: uint64;
          remainingSignificand = push_bit 6 significand;
          linearApproximation = push_bit (64 - 16) (ucast begin) + drop_bit 16 remainingSignificand * delta
      in push_bit (64 - 6) (of_nat exponent) OR drop_bit 6 linearApproximation)"

text \<open>The same computation on natural numbers: exponent, position in the octave, and interpolation.\<close>

definition lut_value :: "nat \<Rightarrow> nat" where
  "lut_value i = (if i = 64 then 65536 else unat (log2LUT ! i))"

definition octave :: "nat \<Rightarrow> nat" where
  "octave m = lut_value (m div 2 ^ 58) * 2 ^ 48
     + (m mod 2 ^ 58) div 2 ^ 10 * (lut_value (m div 2 ^ 58 + 1) - lut_value (m div 2 ^ 58))"

definition exponent :: "nat \<Rightarrow> nat" where
  "exponent x = bit_length (x div 2)"

definition position :: "nat \<Rightarrow> nat" where
  "position x = (x - 2 ^ exponent x) * 2 ^ (64 - exponent x)"

lemma lut_step:
  assumes "i < 64"
  shows "lut_value i < lut_value (i + 1)" "lut_value (i + 1) \<le> 65536"
    "unat (log2LUT ! i) = lut_value i" "unat (log2LUT ! (i + 1) - log2LUT ! i) = lut_value (i + 1) - lut_value i"
proof -
  define ok where "ok i \<longleftrightarrow> lut_value i < lut_value (i + 1) \<and> lut_value (i + 1) \<le> 65536
    \<and> unat (log2LUT ! i) = lut_value i \<and> unat (log2LUT ! (i + 1) - log2LUT ! i) = lut_value (i + 1) - lut_value i" for i
  have l: "[0..<64] = [0, 1, 2, 3, 4, 5, 6, 7, 8, 9, 10, 11, 12, 13, 14, 15, 16, 17, 18, 19, 20, 21, 22, 23, 24,
      25, 26, 27, 28, 29, 30, 31, 32, 33, 34, 35, 36, 37, 38, 39, 40, 41, 42, 43, 44, 45, 46,
      47, 48, 49, 50, 51, 52, 53, 54, 55, 56, 57, 58, 59, 60, 61, 62, 63]"
    by code_simp
  have "list_all ok [0..<64]" unfolding l by (simp add: ok_def lut_value_def log2LUT_def)
  then have "ok i" using assms by (simp add: list_all_iff)
  then show "lut_value i < lut_value (i + 1)" "lut_value (i + 1) \<le> 65536"
    "unat (log2LUT ! i) = lut_value i" "unat (log2LUT ! (i + 1) - log2LUT ! i) = lut_value (i + 1) - lut_value i"
    unfolding ok_def by blast+
qed

lemma lut_value_mono: "i \<le> j \<Longrightarrow> j \<le> 64 \<Longrightarrow> lut_value i \<le> lut_value j"
proof (induction j)
  case (Suc j)
  then show ?case using lut_step(1) [of j] by (cases "i = Suc j") auto
qed simp

lemma lut_value_bounds: "lut_value 0 = 0" "i \<le> 64 \<Longrightarrow> lut_value i \<le> 65536"
  using lut_value_mono [of i 64] by (auto simp: lut_value_def log2LUT_def)

text \<open>Within an octave, the interpolation does not cross the next entry of the table.\<close>

lemma octave_upper:
  assumes "m < 2 ^ 64"
  shows "octave m < lut_value (m div 2 ^ 58 + 1) * 2 ^ 48" "lut_value (m div 2 ^ 58) * 2 ^ 48 \<le> octave m"
proof -
  define i where "i = m div 2 ^ 58"
  have i: "i < 64" using assms unfolding i_def by (simp add: less_mult_imp_div_less)
  have "(m mod 2 ^ 58) div 2 ^ 10 < 2 ^ 48" by (rule less_mult_imp_div_less) simp
  then have "(m mod 2 ^ 58) div 2 ^ 10 * (lut_value (i + 1) - lut_value i) < 2 ^ 48 * (lut_value (i + 1) - lut_value i)"
    using lut_step(1) [OF i] by (intro mult_strict_right_mono) auto
  moreover have "lut_value i * 2 ^ 48 + 2 ^ 48 * (lut_value (i + 1) - lut_value i) = lut_value (i + 1) * 2 ^ 48"
    using lut_step(1) [OF i] by (simp add: algebra_simps diff_mult_distrib2)
  ultimately show "octave m < lut_value (m div 2 ^ 58 + 1) * 2 ^ 48" "lut_value (m div 2 ^ 58) * 2 ^ 48 \<le> octave m"
    unfolding octave_def i_def [symmetric] by linarith+
qed

lemma octave_mono:
  assumes "m \<le> m'" "m' < 2 ^ 64"
  shows "octave m \<le> octave m'"
proof (cases "m div 2 ^ 58 = m' div 2 ^ 58")
  case True
  then have "m mod 2 ^ 58 \<le> m' mod 2 ^ 58"
    using assms(1) by (metis add_le_cancel_left div_mult_mod_eq)
  then have "(m mod 2 ^ 58) div 2 ^ 10 \<le> (m' mod 2 ^ 58) div 2 ^ 10" by (rule div_le_mono)
  then show ?thesis unfolding octave_def True by (intro add_left_mono mult_right_mono) auto
next
  case False
  then have "m div 2 ^ 58 + 1 \<le> m' div 2 ^ 58" using div_le_mono [OF assms(1), of "2 ^ 58"] by linarith
  moreover have "m' div 2 ^ 58 < 64" using assms(2) by (simp add: less_mult_imp_div_less)
  ultimately have "lut_value (m div 2 ^ 58 + 1) * 2 ^ 48 \<le> lut_value (m' div 2 ^ 58) * 2 ^ 48"
    by (intro mult_right_mono lut_value_mono) auto
  then show ?thesis using octave_upper(1) [of m] octave_upper(2) [of m'] assms by linarith
qed

lemma octave_less: "m < 2 ^ 64 \<Longrightarrow> octave m < 2 ^ 64"
proof -
  assume m: "m < 2 ^ 64"
  then have "m div 2 ^ 58 < 64" by (simp add: less_mult_imp_div_less)
  then have "lut_value (m div 2 ^ 58 + 1) \<le> 65536" by (intro lut_value_bounds) auto
  then have "lut_value (m div 2 ^ 58 + 1) * 2 ^ 48 \<le> 65536 * 2 ^ 48" by (rule mult_right_mono) simp
  then show ?thesis using octave_upper(1) [OF m] by (simp add: order_less_le_trans)
qed

text \<open>The position of a number within its octave.\<close>

lemma exponent_bounds:
  assumes "x < 2 ^ 64"
  shows "exponent x \<le> 63" "x < 2 ^ (exponent x + 1)" "0 < x \<Longrightarrow> 2 ^ exponent x \<le> x"
proof -
  have "x div 2 < 2 ^ 63" using assms by simp
  then show "exponent x \<le> 63" by (simp add: exponent_def bit_length_le)
  have "x div 2 < 2 ^ exponent x" using bit_length_upper [of "x div 2"] by (simp add: exponent_def)
  then show "x < 2 ^ (exponent x + 1)" by simp
  show "2 ^ exponent x \<le> x" if "0 < x"
    using bit_length_lower [OF that] bit_length_pos [OF that] by (simp add: exponent_def)
qed

lemma position_eq:
  assumes "x < 2 ^ 64"
  shows "x * 2 ^ (64 - exponent x) mod 2 ^ 64 = position x" "position x < 2 ^ 64"
proof -
  define e where "e = exponent x"
  have e: "e \<le> 63" "x < 2 ^ (e + 1)" "0 < x \<Longrightarrow> 2 ^ e \<le> x" using exponent_bounds [OF assms] by (simp_all add: e_def)
  have p: "(2 :: nat) ^ e * 2 ^ (64 - e) = 2 ^ 64" using e(1) by (simp add: power_add [symmetric])
  have "x - 2 ^ e < 2 ^ e" using e(2) by simp
  then have "(x - 2 ^ e) * 2 ^ (64 - e) < 2 ^ e * 2 ^ (64 - e)" by (rule mult_strict_right_mono) simp
  then show less: "position x < 2 ^ 64" by (simp only: p position_def e_def [symmetric])
  show "x * 2 ^ (64 - exponent x) mod 2 ^ 64 = position x"
  proof (cases "x = 0")
    case False
    then have "x * 2 ^ (64 - e) = 2 ^ 64 + position x"
      using mult_right_mono [OF e(3), of "2 ^ (64 - e)"] p
      by (simp add: position_def e_def [symmetric] diff_mult_distrib del: mult_le_cancel2)
    then show ?thesis using less unfolding e_def by simp
  qed (simp add: position_def)
qed

lemma position_mono: "exponent x = exponent y \<Longrightarrow> x \<le> y \<Longrightarrow> position x \<le> position y"
  by (simp add: position_def diff_le_mono)

lemma unat_push: "unat (push_bit n w :: uint64) = unat w * 2 ^ n mod 2 ^ 64"
proof -
  have "unat (push_bit n w) = take_bit 64 (push_bit n (unat w))" by (simp add: unsigned_push_bit_eq)
  then show ?thesis by (simp add: push_bit_eq_mult take_bit_eq_mod)
qed

lemma octave_word:
  fixes s :: uint64
  defines "i \<equiv> unat (drop_bit 58 s)"
  shows "unat (push_bit 48 (ucast (log2LUT ! i)) + drop_bit 16 (push_bit 6 s) * ucast (log2LUT ! (i + 1) - log2LUT ! i)) = octave (unat s)"
proof -
  have s: "unat s < 2 ^ 64" using unat_bounds(4) [of s] by simp
  have i: "i = unat s div 2 ^ 58" by (simp only: i_def unat_drop)
  then have i64: "i < 64" using s by (simp add: less_mult_imp_div_less)
  note l = lut_step [OF i64]
  have b: "unat (push_bit 48 (ucast (log2LUT ! i)) :: uint64) = lut_value i * 2 ^ 48"
    using l(1,2,3) by (simp only: unat_push) (simp add: unat_ucast_up)
  have "unat s * 64 mod 2 ^ 64 = (unat s mod 2 ^ 58) * 64"
    using mult_mod_left [of "unat s" "2 ^ 58" 64] by simp
  then have "unat (drop_bit 16 (push_bit 6 s)) = (unat s mod 2 ^ 58) * 64 div 2 ^ 16"
    by (simp only: unat_drop unat_push) simp
  also have "\<dots> = (unat s mod 2 ^ 58) div 2 ^ 10" by (simp add: div_mult2_eq [of _ 64 1024, simplified])
  finally have r: "unat (drop_bit 16 (push_bit 6 s)) = (unat s mod 2 ^ 58) div 2 ^ 10" .
  have d: "unat (ucast (log2LUT ! (i + 1) - log2LUT ! i) :: uint64) = lut_value (i + 1) - lut_value i"
    using l(4) by (simp add: unat_ucast_up)
  have "octave (unat s) < 2 ^ 64" by (rule octave_less [OF s])
  then show ?thesis using b r d i by (simp add: unat_word_ariths octave_def)
qed

lemma or_disjoint:
  fixes a b :: uint64
  assumes "unat a < 2 ^ 6" "unat b < 2 ^ 58"
  shows "unat (push_bit 58 a OR b) = unat a * 2 ^ 58 + unat b"
proof -
  have "take_bit 58 b = b" using assms(2) by (simp add: word_unat_eq_iff unsigned_take_bit_eq take_bit_nat_eq_self)
  then have "push_bit 58 a AND b = push_bit 58 a AND take_bit 58 b" by simp
  also have "\<dots> = 0" by (rule bit_word_eqI) (auto simp: bit_simps)
  finally have "push_bit 58 a OR b = push_bit 58 a + b" using word_plus_and_or [of "push_bit 58 a" b] by simp
  moreover have "unat (push_bit 58 a) = unat a * 2 ^ 58" using assms(1) by (simp only: unat_push) simp
  ultimately show ?thesis using assms by (simp add: unat_plus_no_carry)
qed

lemma unat_Log2Fixed64:
  "unat (Log2Fixed64 x) = exponent (unat x) * 2 ^ 58 + octave (position (unat x)) div 2 ^ 6"
proof -
  have x: "unat x < 2 ^ 64" using unat_bounds(4) [of x] by simp
  have e: "bits_Len (drop_bit 1 x) = exponent (unat x)" by (simp only: bits_Len_def exponent_def unat_drop) simp
  define m where "m = push_bit (64 - exponent (unat x)) x"
  have m: "unat m = position (unat x)" using position_eq(1) [OF x] by (simp only: m_def unat_push)
  define linear where "linear = push_bit 48 (ucast (log2LUT ! unat (drop_bit 58 m)))
    + drop_bit 16 (push_bit 6 m) * ucast (log2LUT ! (unat (drop_bit 58 m) + 1) - log2LUT ! unat (drop_bit 58 m))"
  have linear: "unat linear = octave (position (unat x))" unfolding linear_def octave_word m by (rule refl)
  have "octave (position (unat x)) < 2 ^ 64" using octave_less position_eq(2) [OF x] by blast
  then have "octave (position (unat x)) div 2 ^ 6 < 2 ^ 58" by (simp add: less_mult_imp_div_less)
  then have d: "unat (drop_bit 6 linear) = octave (position (unat x)) div 2 ^ 6" "unat (drop_bit 6 linear) < 2 ^ 58"
    using linear by (simp_all only: unat_drop)
  have n: "unat (of_nat (exponent (unat x)) :: uint64) = exponent (unat x)"
    using exponent_bounds(1) [OF x] by (simp add: unat_of_nat take_bit_nat_eq_self)
  have "Log2Fixed64 x = push_bit 58 (of_nat (exponent (unat x))) OR drop_bit 6 linear"
    unfolding Log2Fixed64_def Let_def e m_def [symmetric] linear_def by simp
  then show ?thesis using or_disjoint [of "of_nat (exponent (unat x))" "drop_bit 6 linear"] n d exponent_bounds(1) [OF x] by simp
qed

lemma Log2Fixed64_mono:
  assumes "a \<le> b"
  shows "Log2Fixed64 a \<le> Log2Fixed64 b"
proof -
  have ab: "unat a \<le> unat b" "unat a < 2 ^ 64" "unat b < 2 ^ 64"
    using assms unat_bounds(4) by (auto simp: word_le_nat_alt)
  have o: "octave (position (unat x)) div 2 ^ 6 < 2 ^ 58" for x :: uint64
    using octave_less [OF position_eq(2)] unat_bounds(4) [of x] by (simp add: less_mult_imp_div_less)
  have "exponent (unat a) \<le> exponent (unat b)" using ab(1) by (simp add: exponent_def bit_length_mono div_le_mono)
  then consider "exponent (unat a) = exponent (unat b)" | "exponent (unat a) + 1 \<le> exponent (unat b)" by linarith
  then show ?thesis
  proof cases
    case 1
    then have "octave (position (unat a)) \<le> octave (position (unat b))"
      using position_mono ab position_eq(2) by (intro octave_mono) auto
    then show ?thesis using 1 by (simp add: word_le_nat_alt unat_Log2Fixed64 div_le_mono)
  next
    case 2
    then have "(exponent (unat a) + 1) * 2 ^ 58 \<le> exponent (unat b) * 2 ^ 58" by (rule mult_right_mono) simp
    then show ?thesis using o [of a] by (simp add: word_le_nat_alt unat_Log2Fixed64)
  qed
qed

text \<open>Powers of two have exact logarithms, and no logarithm reaches 64.\<close>

lemma Log2Fixed64_power:
  assumes "k < 64"
  shows "unat (Log2Fixed64 (2 ^ k)) = k * 2 ^ 58"
proof -
  have u: "unat (2 ^ k :: uint64) = 2 ^ k" 
  proof -
    have "(2 :: nat) ^ k < 2 ^ 64" using assms by (intro power_strict_increasing) auto
    then show ?thesis using unat_push [of k 1] by (simp add: push_bit_eq_mult)
  qed
  have "exponent (2 ^ k) = k"
  proof (cases k)
    case (Suc j)
    then show ?thesis using bit_length_eqI [of j "2 ^ j"] by (simp add: exponent_def)
  qed (simp add: exponent_def)
  then show ?thesis by (simp add: unat_Log2Fixed64 u position_def octave_def lut_value_bounds)
qed

lemma Log2Fixed64_less: "unat (Log2Fixed64 x) div 2 ^ 32 < 2 ^ 32"
  using unat_bounds(4) [of "Log2Fixed64 x"] by (simp add: less_mult_imp_div_less)

section \<open>Weighted rendezvous hashing\<close>

record WeightedShard =
  ws_Key :: bytes
  ws_Weight :: uint32

record preprocessedShard =
  ps_hash :: uint64
  ps_weight :: uint64
  ps_index :: nat

text \<open>
  \<open>slices.SortFunc\<close>. Go leaves the order of elements that compare equal unspecified; there are none if the keys
  of the shards are distinct.
\<close>

fun insert_by :: "('a \<Rightarrow> 'a \<Rightarrow> int) \<Rightarrow> 'a \<Rightarrow> 'a list \<Rightarrow> 'a list" where
  "insert_by cmp x [] = [x]"
| "insert_by cmp x (y # ys) = (if cmp x y \<le> 0 then x # y # ys else y # insert_by cmp x ys)"

definition SortFunc :: "('a \<Rightarrow> 'a \<Rightarrow> int) \<Rightarrow> 'a list \<Rightarrow> 'a list" where
  "SortFunc cmp xs = foldr (insert_by cmp) xs []"

definition maximum_weight :: "WeightedShard list \<Rightarrow> uint32" where
  "maximum_weight weightedShards =
     foldl (\<lambda>maximumWeight ws. if maximumWeight < ws_Weight ws then ws_Weight ws else maximumWeight) 1 weightedShards"

definition preprocess :: "uint64 \<Rightarrow> nat \<times> WeightedShard \<Rightarrow> preprocessedShard" where
  "preprocess weightScalingFactor = (\<lambda>(index, ws).
     \<lparr>ps_hash = Uint64_at (Sum256 (ws_Key ws)) 0 OR 1, ps_weight = ucast (ws_Weight ws) * weightScalingFactor, ps_index = index\<rparr>)"

definition NewWeightedRendezvousPicker :: "WeightedShard list \<Rightarrow> preprocessedShard list" where
  "NewWeightedRendezvousPicker weightedShards =
     (let weightScalingFactor = - 1 div ucast (maximum_weight weightedShards) in
      SortFunc (\<lambda>a b. bytes_Compare (ws_Key (weightedShards ! ps_index a)) (ws_Key (weightedShards ! ps_index b)))
        (map (preprocess weightScalingFactor) (enumerate 0 weightedShards)))"

definition shard_score :: "uint64 \<Rightarrow> preprocessedShard \<Rightarrow> uint64" where
  "shard_score dataHash shard =
     (let combinedHash = dataHash * ps_hash shard;
          minusLogHash = 2 ^ 32 - drop_bit 32 (Log2Fixed64 combinedHash)
      in ps_weight shard div minusLogHash)"

definition PickShard :: "preprocessedShard list \<Rightarrow> bytes \<Rightarrow> nat" where
  "PickShard shards data =
     (let dataHash = fnv1a 14695981039346656037 data in
      fst (foldl (\<lambda>(bestIndex, bestScore) shard.
        let score = shard_score dataHash shard in
        if bestScore < score then (ps_index shard, score) else (bestIndex, bestScore)) (0, 0) shards))"

subsection \<open>Sorting\<close>

lemma mset_insert_by [simp]: "mset (insert_by cmp x ys) = add_mset x (mset ys)"
  by (induction ys) auto

lemma mset_SortFunc: "mset (SortFunc cmp xs) = mset xs"
  by (induction xs) (auto simp: SortFunc_def)

lemma set_SortFunc: "set (SortFunc cmp xs) = set xs"
  using mset_SortFunc by (metis set_mset_mset)

lemma sorted_insert_by:
  assumes "\<And>a b. cmp a b \<le> 0 \<or> cmp b a \<le> 0" "\<And>a b c. cmp a b \<le> 0 \<Longrightarrow> cmp b c \<le> 0 \<Longrightarrow> cmp a c \<le> 0"
  shows "sorted_wrt (\<lambda>a b. cmp a b \<le> 0) ys \<Longrightarrow> sorted_wrt (\<lambda>a b. cmp a b \<le> 0) (insert_by cmp x ys)"
proof (induction ys)
  case (Cons y ys)
  have "set (insert_by cmp x ys) = insert x (set ys)" by (metis mset_insert_by set_mset_add_mset_insert set_mset_mset)
  then show ?case using Cons assms by (auto; blast)
qed simp

lemma sorted_SortFunc:
  assumes "\<And>a b. cmp a b \<le> 0 \<or> cmp b a \<le> 0" "\<And>a b c. cmp a b \<le> 0 \<Longrightarrow> cmp b c \<le> 0 \<Longrightarrow> cmp a c \<le> 0"
  shows "sorted_wrt (\<lambda>a b. cmp a b \<le> 0) (SortFunc cmp xs)"
  unfolding SortFunc_def by (induction xs) (auto intro: sorted_insert_by [OF assms])

subsection \<open>The shard with the best score\<close>

lemma pick_fold:
  fixes score :: "'a \<Rightarrow> 'b::linorder"
  assumes "foldl (\<lambda>(bi, bs) x. if bs < score x then (index x, score x) else (bi, bs)) (bi, bs) xs = (i, v)"
  shows "(i, v) = (bi, bs) \<and> (\<forall>x \<in> set xs. score x \<le> bs)
    \<or> (\<exists>ys x zs. xs = ys @ x # zs \<and> i = index x \<and> v = score x \<and> bs < v \<and> (\<forall>y \<in> set ys. score y < v) \<and> (\<forall>z \<in> set zs. score z \<le> v))"
  using assms
proof (induction xs arbitrary: bi bs)
  case (Cons a xs)
  show ?case
  proof (cases "bs < score a")
    case True
    then have "(i, v) = (index a, score a) \<and> (\<forall>x \<in> set xs. score x \<le> score a)
      \<or> (\<exists>ys x zs. xs = ys @ x # zs \<and> i = index x \<and> v = score x \<and> score a < v \<and> (\<forall>y \<in> set ys. score y < v) \<and> (\<forall>z \<in> set zs. score z \<le> v))"
      using Cons.IH [of "index a" "score a"] Cons.prems by simp
    then show ?thesis
    proof (elim disjE exE conjE)
      assume "(i, v) = (index a, score a)" "\<forall>x \<in> set xs. score x \<le> score a"
      then show ?thesis using True by (intro disjI2 exI [of _ "[]"] exI [of _ a] exI [of _ xs]) simp
    next
      fix ys x zs
      assume "xs = ys @ x # zs" "i = index x" "v = score x" "score a < v" "\<forall>y \<in> set ys. score y < v" "\<forall>z \<in> set zs. score z \<le> v"
      then show ?thesis using True by (intro disjI2 exI [of _ "a # ys"] exI [of _ x] exI [of _ zs]) auto
    qed
  next
    case False
    then have "(i, v) = (bi, bs) \<and> (\<forall>x \<in> set xs. score x \<le> bs)
      \<or> (\<exists>ys x zs. xs = ys @ x # zs \<and> i = index x \<and> v = score x \<and> bs < v \<and> (\<forall>y \<in> set ys. score y < v) \<and> (\<forall>z \<in> set zs. score z \<le> v))"
      using Cons.IH [of bi bs] Cons.prems by simp
    then show ?thesis
    proof (elim disjE exE conjE)
      assume "(i, v) = (bi, bs)" "\<forall>x \<in> set xs. score x \<le> bs"
      then show ?thesis using False by auto
    next
      fix ys x zs
      assume "xs = ys @ x # zs" "i = index x" "v = score x" "bs < v" "\<forall>y \<in> set ys. score y < v" "\<forall>z \<in> set zs. score z \<le> v"
      then show ?thesis using False by (intro disjI2 exI [of _ "a # ys"] exI [of _ x] exI [of _ zs]) auto
    qed
  qed
qed simp

lemma maximum_weight_le: "w \<in> set ws \<Longrightarrow> ws_Weight w \<le> maximum_weight ws" "1 \<le> maximum_weight ws"
proof -
  have "m \<le> foldl (\<lambda>m ws. if m < ws_Weight ws then ws_Weight ws else m) m ws
    \<and> (\<forall>w \<in> set ws. ws_Weight w \<le> foldl (\<lambda>m ws. if m < ws_Weight ws then ws_Weight ws else m) m ws)" for m
  proof (induction ws arbitrary: m)
    case (Cons a ws)
    show ?case using Cons [of "ws_Weight a"] Cons [of m] by (auto simp: not_less less_imp_le intro: order_trans)
  qed simp
  then show "w \<in> set ws \<Longrightarrow> ws_Weight w \<le> maximum_weight ws" "1 \<le> maximum_weight ws"
    unfolding maximum_weight_def by blast+
qed

text \<open>The score of a shard depends on its key, its weight and the maximum weight only.\<close>

definition ws_score :: "WeightedShard list \<Rightarrow> uint64 \<Rightarrow> WeightedShard \<Rightarrow> uint64" where
  "ws_score ws dataHash w = shard_score dataHash (preprocess (- 1 div ucast (maximum_weight ws)) (0, w))"

lemma shard_score_preprocess: "shard_score d (preprocess f (i, w)) = shard_score d (preprocess f (0, w))"
  by (simp add: shard_score_def preprocess_def)

lemma minus_log_bounds:
  fixes h :: uint64
  defines "l \<equiv> 2 ^ 32 - drop_bit 32 (Log2Fixed64 h)"
  shows "1 \<le> unat l" "unat l \<le> 2 ^ 32"
proof -
  have d: "unat (drop_bit 32 (Log2Fixed64 h)) < 2 ^ 32" using Log2Fixed64_less [of h] by (simp only: unat_drop)
  have "drop_bit 32 (Log2Fixed64 h) \<le> 2 ^ 32" using d by (simp only: word_le_nat_alt) simp
  then have "unat l = 2 ^ 32 - unat (drop_bit 32 (Log2Fixed64 h))" unfolding l_def by (simp only: unat_sub) simp
  then show "1 \<le> unat l" "unat l \<le> 2 ^ 32" using d by simp_all
qed

lemma maximum_weight_mono:
  assumes "set ws \<subseteq> set ws'"
  shows "maximum_weight ws \<le> maximum_weight ws'"
proof -
  have "foldl (\<lambda>m ws. if m < ws_Weight ws then ws_Weight ws else m) m ws \<in> insert m (ws_Weight ` set ws)" for m
    by (induction ws arbitrary: m) (auto split: if_splits)
  then have "maximum_weight ws = 1 \<or> (\<exists>w \<in> set ws. maximum_weight ws = ws_Weight w)"
    unfolding maximum_weight_def by blast
  then show ?thesis using assms maximum_weight_le(1) [of _ ws'] maximum_weight_le(2) [of ws'] by auto
qed

text \<open>
  The score on natural numbers: the weight times the scaling factor, without overflow, divided by the negated
  logarithm of the combined hash.
\<close>

definition scaling :: "WeightedShard list \<Rightarrow> nat" where
  "scaling ws = (2 ^ 64 - 1) div unat (maximum_weight ws)"

definition minus_log :: "uint64 \<Rightarrow> WeightedShard \<Rightarrow> nat" where
  "minus_log dataHash w =
     unat (2 ^ 32 - drop_bit 32 (Log2Fixed64 (dataHash * (Uint64_at (Sum256 (ws_Key w)) 0 OR 1))))"

lemma minus_log_pos: "0 < minus_log d w" "minus_log d w \<le> 2 ^ 32"
  using minus_log_bounds [of "d * (Uint64_at (Sum256 (ws_Key w)) 0 OR 1)"] unfolding minus_log_def by linarith+

lemma unat_ws_score:
  assumes "w \<in> set ws"
  shows "unat (ws_score ws d w) = unat (ws_Weight w) * scaling ws div minus_log d w"
proof -
  define m where "m = maximum_weight ws"
  define f where "f = (- 1 div ucast m :: uint64)"
  have w: "unat (ws_Weight w) \<le> unat m"
    using maximum_weight_le(1) [OF assms] by (simp add: m_def word_le_nat_alt)
  have "unat (- 1 :: uint64) = 2 ^ 64 - 1" by (simp only: unsigned_minus_1_eq_mask) (simp add: mask_eq_exp_minus_1)
  then have f: "unat f = scaling ws" by (simp only: f_def unat_div scaling_def m_def) (simp add: unat_ucast_up)
  have "unat m * unat f \<le> 2 ^ 64 - 1" unfolding f scaling_def m_def by simp
  then have "unat (ws_Weight w) * unat f \<le> 2 ^ 64 - 1" using w mult_le_mono1 order_trans by blast
  then have "unat (ucast (ws_Weight w) * f) = unat (ws_Weight w) * unat f"
    by (simp add: unat_word_ariths unat_ucast_up)
  then show ?thesis
    by (simp add: ws_score_def shard_score_def preprocess_def Let_def unat_div minus_log_def f flip: m_def f_def)
qed

text \<open>A shard has a positive score precisely if its weight is positive: scaling makes weights large enough.\<close>

lemma ws_score_pos:
  assumes "w \<in> set ws"
  shows "0 < ws_score ws d w \<longleftrightarrow> ws_Weight w \<noteq> 0"
proof -
  define m where "m = maximum_weight ws"
  have m: "1 \<le> unat m" "unat m < 2 ^ 32"
    using maximum_weight_le(2) [of ws] unat_bounds(3) [of m] by (simp_all add: m_def word_le_nat_alt)
  have "2 ^ 32 * unat m \<le> 2 ^ 32 * (2 ^ 32 - 1)" using m(2) by simp
  then have "2 ^ 32 \<le> scaling ws"
    unfolding scaling_def m_def [symmetric] using m(1) by (subst less_eq_div_iff_mult_less_eq) auto
  then have "ws_Weight w \<noteq> 0 \<Longrightarrow> minus_log d w \<le> unat (ws_Weight w) * scaling ws"
    using mult_le_mono [of 1 "unat (ws_Weight w)" "2 ^ 32" "scaling ws"] minus_log_pos(2) [of d w]
    by (simp add: unat_gt_0 Suc_leI)
  then show ?thesis
    using unat_ws_score [OF assms, of d] minus_log_pos(1) [of d w]
    by (auto simp: word_less_nat_alt div_greater_zero_iff simp del: unat_gt_0)
qed

abbreviation key_less_eq :: "WeightedShard \<Rightarrow> WeightedShard \<Rightarrow> bool" where
  "key_less_eq a b \<equiv> bytes_Compare (ws_Key a) (ws_Key b) \<le> 0"

lemma bytes_Compare_linear:
  "bytes_Compare a b \<le> 0 \<or> bytes_Compare b a \<le> 0"
  "bytes_Compare a b \<le> 0 \<Longrightarrow> bytes_Compare b c \<le> 0 \<Longrightarrow> bytes_Compare a c \<le> 0"
  using bytes_Compare_antisym [of a b] bytes_Compare_trans [of a b c] by (linarith, auto simp: order_le_less)

text \<open>The shard that is picked has the highest score and, among those, the smallest key.\<close>

definition best_shard :: "WeightedShard list \<Rightarrow> bytes \<Rightarrow> WeightedShard \<Rightarrow> bool" where
  "best_shard ws data w \<longleftrightarrow> w \<in> set ws \<and>
     (let score = ws_score ws (fnv1a 14695981039346656037 data) in
      \<forall>q \<in> set ws. score q < score w \<or> score q = score w \<and> key_less_eq w q)"

lemma pick_shard_best:
  assumes "\<exists>w \<in> set ws. ws_Weight w \<noteq> 0"
  shows "PickShard (NewWeightedRendezvousPicker ws) data < length ws"
    and "best_shard ws data (ws ! PickShard (NewWeightedRendezvousPicker ws) data)"
proof -
  define f where "f = (- 1 div ucast (maximum_weight ws) :: uint64)"
  define h where "h = fnv1a 14695981039346656037 data"
  define cmp where "cmp a b = bytes_Compare (ws_Key (ws ! ps_index a)) (ws_Key (ws ! ps_index b))" for a b :: preprocessedShard
  define xs where "xs = SortFunc cmp (map (preprocess f) (enumerate 0 ws))"
  have new: "NewWeightedRendezvousPicker ws = xs"
    unfolding NewWeightedRendezvousPicker_def Let_def xs_def f_def cmp_def by (rule refl)
  have mem: "x \<in> set xs \<longleftrightarrow> (\<exists>j < length ws. x = preprocess f (j, ws ! j))" for x
    unfolding xs_def set_SortFunc by (auto simp: in_set_enumerate_eq image_iff)
  have score: "shard_score h (preprocess f (j, w)) = ws_score ws h w" for j w
    by (simp add: ws_score_def shard_score_preprocess [of _ _ j] f_def)
  obtain i v where fold: "foldl (\<lambda>(bi, bs) x. if bs < shard_score h x then (ps_index x, shard_score h x) else (bi, bs)) (0, 0) xs = (i, v)"
    by fastforce
  then have pick: "PickShard (NewWeightedRendezvousPicker ws) data = i" unfolding new PickShard_def h_def Let_def by simp
  obtain w0 j0 where w0: "w0 = ws ! j0" "j0 < length ws" "ws_Weight w0 \<noteq> 0" using assms by (auto simp: in_set_conv_nth)
  have "0 < shard_score h (preprocess f (j0, w0))" using w0 ws_score_pos [of w0 ws h] by (simp add: score)
  moreover have "preprocess f (j0, w0) \<in> set xs" using w0 mem by blast
  ultimately have "\<not> (\<forall>x \<in> set xs. shard_score h x \<le> 0)" using not_le by blast
  then obtain ys x zs where x: "xs = ys @ x # zs" "i = ps_index x" "v = shard_score h x"
      "\<forall>y \<in> set ys. shard_score h y < v" "\<forall>z \<in> set zs. shard_score h z \<le> v"
    using pick_fold [OF fold] by blast
  obtain j where j: "j < length ws" "x = preprocess f (j, ws ! j)" using mem x(1) by auto
  have i: "i = j" "v = ws_score ws h (ws ! j)" using x(2,3) j(2) score by (simp_all add: preprocess_def)
  show "PickShard (NewWeightedRendezvousPicker ws) data < length ws" using pick i(1) j(1) by simp
  have sorted: "sorted_wrt (\<lambda>a b. cmp a b \<le> 0) xs"
    unfolding xs_def cmp_def by (rule sorted_SortFunc) (use bytes_Compare_linear in blast)+
  have "ws_score ws h q < v \<or> ws_score ws h q = v \<and> key_less_eq (ws ! j) q" if q: "q \<in> set ws" for q
  proof -
    obtain k where k: "k < length ws" "q = ws ! k" using q by (auto simp: in_set_conv_nth)
    define y where "y = preprocess f (k, q)"
    have y: "shard_score h y = ws_score ws h q" "ps_index y = k" by (simp_all add: y_def score) (simp add: preprocess_def)
    have "y \<in> set xs" using mem k by (auto simp: y_def)
    then consider "y \<in> set ys" | "y = x" | "y \<in> set zs" using x(1) by auto
    then show ?thesis
    proof cases
      case 3
      have "cmp x y \<le> 0" using sorted 3 unfolding x(1) by (simp add: sorted_wrt_append)
      then have "key_less_eq (ws ! j) q" using x(2) i(1) y(2) k(2) by (simp add: cmp_def)
      then show ?thesis using x(5) 3 y(1) by (metis order_le_less)
    qed (use x(4) y i x(2) k(2) in auto)
  qed
  then show "best_shard ws data (ws ! PickShard (NewWeightedRendezvousPicker ws) data)"
    using pick i j(1) unfolding best_shard_def h_def [symmetric] Let_def by simp
qed

lemma best_shard_unique:
  assumes "distinct (map ws_Key ws)" "best_shard ws data a" "best_shard ws data b"
  shows "a = b"
proof -
  have "key_less_eq a b" "key_less_eq b a" "a \<in> set ws" "b \<in> set ws"
    using assms(2,3) unfolding best_shard_def Let_def by (metis less_asym less_irrefl)+
  then have "ws_Key a = ws_Key b" using bytes_Compare_antisym [of "ws_Key a" "ws_Key b"] by simp
  then show ?thesis using assms(1) \<open>a \<in> set ws\<close> \<open>b \<in> set ws\<close> by (meson distinct_map inj_onD)
qed

subsection \<open>Changing the maximum weight\<close>

text \<open>
  A shard that raises the maximum weight changes the scaling factor, and with it how the scores of all other
  shards are rounded. Two shards can only change places by that if their exact scores, the quotients of weight
  and negated logarithm, differ by less than the inverse of the scaling factor.
\<close>

definition nearly_tied :: "nat \<Rightarrow> uint64 \<Rightarrow> WeightedShard \<Rightarrow> WeightedShard \<Rightarrow> bool" where
  "nearly_tied scale d v w \<longleftrightarrow>
     int scale * \<bar>uint (ws_Weight v) * int (minus_log d w) - uint (ws_Weight w) * int (minus_log d v)\<bar>
       < int (minus_log d v) * int (minus_log d w)"

lemma div_le_cross:
  fixes a b m n :: nat
  assumes "a div m \<le> b div n" "0 < m" "0 < n"
  shows "int a * int n - int b * int m < int m * int n"
proof -
  have "a < (b div n + 1) * m"
    using assms(1,2) by (metis Suc_eq_plus1 less_Suc_eq_le div_less_iff_less_mult)
  then have "a * n < (b div n + 1) * m * n" using assms(3) by simp
  also have "\<dots> = b div n * n * m + m * n" by (simp add: algebra_simps)
  also have "\<dots> \<le> b * m + m * n" by simp
  finally have "int (a * n) < int (b * m + m * n)" by linarith
  then show ?thesis by simp
qed

lemma scaling_antimono: "set ws \<subseteq> set ws' \<Longrightarrow> scaling ws' \<le> scaling ws"
  unfolding scaling_def using maximum_weight_mono [of ws ws'] maximum_weight_le(2) [of ws]
  by (intro div_le_mono2) (simp_all add: word_le_nat_alt)

lemma scaled_difference:
  fixes s s' :: nat and x y :: int
  assumes "int s * x < y" "s' \<le> s" "0 < y"
  shows "int s' * x < y"
proof (cases "0 \<le> x")
  case True
  then have "int s' * x \<le> int s * x" using assms(2) by (simp add: mult_right_mono)
  with assms(1) show ?thesis by linarith
next
  case False
  then have "int s' * x \<le> 0" by (intro mult_nonneg_nonpos) auto
  with assms(3) show ?thesis by linarith
qed

lemma picks_nearly_tied:
  assumes "set ws \<subseteq> set ws'" "best_shard ws data v" "best_shard ws' data w" "w \<in> set ws"
  shows "nearly_tied (scaling ws') (fnv1a 14695981039346656037 data) v w"
proof -
  define d where "d = fnv1a 14695981039346656037 data"
  define s s' where "s = scaling ws" and "s' = scaling ws'"
  define a b m n where "a = unat (ws_Weight v)" and "b = unat (ws_Weight w)" and "m = minus_log d v" and "n = minus_log d w"
  have v: "v \<in> set ws" "v \<in> set ws'" "w \<in> set ws'" using assms by (auto simp: best_shard_def)
  have "ws_score ws d w \<le> ws_score ws d v"
    using assms(2,4) unfolding best_shard_def Let_def d_def by (metis order.order_iff_strict)
  then have "b * s div n \<le> a * s div m"
    using unat_ws_score [OF v(1), of d] unat_ws_score [OF assms(4), of d]
    by (simp add: word_le_nat_alt a_def b_def m_def n_def s_def)
  moreover have "ws_score ws' d v \<le> ws_score ws' d w"
    using assms(3) v(2) unfolding best_shard_def Let_def d_def by (metis order.order_iff_strict)
  then have "a * s' div m \<le> b * s' div n"
    using unat_ws_score [OF v(2), of d] unat_ws_score [OF v(3), of d]
    by (simp add: word_le_nat_alt a_def b_def m_def n_def s'_def)
  moreover have p: "0 < m" "0 < n" by (simp_all add: m_def n_def minus_log_pos)
  ultimately have "int (b * s) * int m - int (a * s) * int n < int n * int m"
    "int (a * s') * int n - int (b * s') * int m < int m * int n"
    using div_le_cross by blast+
  then have "int s * (int b * int m - int a * int n) < int m * int n"
    and 2: "int s' * (int a * int n - int b * int m) < int m * int n"
    by (simp_all add: algebra_simps)
  then have "int s' * (int b * int m - int a * int n) < int m * int n"
    using scaled_difference [of s _ "int m * int n" s'] scaling_antimono [OF assms(1)] p by (simp add: s_def s'_def)
  with 2 have "int s' * \<bar>int a * int n - int b * int m\<bar> < int m * int n"
    by (cases "0 \<le> int a * int n - int b * int m") (simp_all add: abs_if)
  then show ?thesis by (simp add: nearly_tied_def a_def b_def m_def n_def s'_def d_def)
qed

section \<open>Sharded downloaders and uploaders\<close>

text \<open>
  Each shard has a state of its own. References are reduced to the bytes that the picker hashes; indexing with the
  shard that was picked panics if there is no such shard.
\<close>

record ('s, 'r) dowloader =
  d_shards :: "('s, 'r) Downloader list"
  d_picker :: "bytes \<Rightarrow> nat"
  d_rawReference :: "'r \<Rightarrow> bytes"

definition sharded_DownloadObject :: "('s, 'r) dowloader \<Rightarrow> 's list \<Rightarrow> 'r \<Rightarrow> Contents result \<times> 's list" where
  "sharded_DownloadObject d states reference =
     (let shardIndex = d_picker d (d_rawReference d reference) in
      if shardIndex \<ge> length (d_shards d) then (Inl Panic, states)
      else case DownloadObject (d_shards d ! shardIndex) (states ! shardIndex) reference of
        (r, state) \<Rightarrow> (r, states[shardIndex := state]))"

record ('s, 'r, 'l) uploader =
  u_shards :: "('s, 'r, 'l) Uploader list"
  u_picker :: "bytes \<Rightarrow> nat"
  u_rawReference :: "'r \<Rightarrow> bytes"

definition sharded_UploadObject ::
  "('s, 'r, 'l) uploader \<Rightarrow> 's list \<Rightarrow> 'r \<Rightarrow> Contents option \<Rightarrow> 'l list \<Rightarrow> bool \<Rightarrow> 'l UploadObjectResult result \<times> 's list" where
  "sharded_UploadObject u states reference contents childrenLeases wantContentsIfIncomplete =
     (let shardIndex = u_picker u (u_rawReference u reference) in
      if shardIndex \<ge> length (u_shards u) then (Inl Panic, states)
      else case UploadObject (u_shards u ! shardIndex) (states ! shardIndex) reference contents childrenLeases wantContentsIfIncomplete of
        (r, state) \<Rightarrow> (r, states[shardIndex := state]))"

section \<open>Properties\<close>

text \<open>
  C39. The fixed point logarithm is monotone on all 64-bit numbers and exact on powers of two. Its integer part
  never reaches 64, so that the division by the negated logarithm in the picker is never one by zero.
\<close>

theorem log2_fixed64_monotone:
  "(\<forall>a b. a \<le> b \<longrightarrow> Log2Fixed64 a \<le> Log2Fixed64 b) \<and> (\<forall>k < 64. unat (Log2Fixed64 (2 ^ k)) = k * 2 ^ 58)
   \<and> (\<forall>h. 2 ^ 32 - drop_bit 32 (Log2Fixed64 h) \<noteq> 0)"
proof (intro conjI allI impI)
  fix h :: uint64
  show "2 ^ 32 - drop_bit 32 (Log2Fixed64 h) \<noteq> 0" using minus_log_bounds(1) [of h] by (auto simp del: right_minus_eq)
qed (fact Log2Fixed64_mono, fact Log2Fixed64_power)

text \<open>
  C22. Rendezvous hashing, for shards with distinct keys of which at least one has a positive weight: the shard
  is picked that has the highest score and, in case of ties, the smallest key.
  Hence the order in which shards are configured does not matter. If shards are added to a configuration, data
  either moves to one of those or stays where it is, with one exception: if the added shards raise the maximum
  weight, data can also move to another shard that was there before, but only if the two were nearly tied.
\<close>

theorem rendezvous_minimal_disruption:
  assumes "distinct (map ws_Key ws')" "set ws \<subseteq> set ws'" "distinct ws"
    and "\<exists>w \<in> set ws. ws_Weight w \<noteq> 0"
  shows "PickShard (NewWeightedRendezvousPicker ws) data < length ws
    \<and> best_shard ws data (ws ! PickShard (NewWeightedRendezvousPicker ws) data)
    \<and> (let before = ws ! PickShard (NewWeightedRendezvousPicker ws) data;
           after = ws' ! PickShard (NewWeightedRendezvousPicker ws') data
       in after \<notin> set ws \<or> after = before
         \<or> maximum_weight ws < maximum_weight ws'
           \<and> nearly_tied (scaling ws') (fnv1a 14695981039346656037 data) before after)"
proof -
  let ?v = "ws ! PickShard (NewWeightedRendezvousPicker ws) data"
  let ?w = "ws' ! PickShard (NewWeightedRendezvousPicker ws') data"
  note v = pick_shard_best [OF assms(4), of data]
  have w: "best_shard ws' data ?w" using pick_shard_best(2) assms(2,4) by blast
  have "?w = ?v" if "?w \<in> set ws" "maximum_weight ws' = maximum_weight ws"
  proof -
    have "ws_score ws' = ws_score ws" by (simp add: ws_score_def fun_eq_iff that(2))
    then have "best_shard ws data ?w" using w that(1) assms(2) by (auto simp: best_shard_def Let_def)
    moreover have "distinct (map ws_Key ws)"
      using assms(1-3) by (auto simp: distinct_map intro: inj_on_subset)
    ultimately show ?thesis using v(2) best_shard_unique by blast
  qed
  then show ?thesis
    using v maximum_weight_mono [OF assms(2)] picks_nearly_tied [OF assms(2) v(2) w] unfolding Let_def by (metis order_le_less)
qed

text \<open>
  The exception is real: shards with keys \<open>a\<close> and \<open>b\<close>, the SHA-256 hashes of which are the ones below, and weights
  3445836700 and 2707789270 send the data 24 to \<open>b\<close>. Adding a shard \<open>c\<close> with weight 4294967295 moves it to \<open>a\<close>.
\<close>

definition example_preprocessed :: "uint64 \<Rightarrow> preprocessedShard list" where
  "example_preprocessed f =
     [\<lparr>ps_hash = 0xcabd1bca128197cb, ps_weight = 3445836700 * f, ps_index = 0\<rparr>,
      \<lparr>ps_hash = 0x4a59390016e8233f, ps_weight = 2707789270 * f, ps_index = 1\<rparr>,
      \<lparr>ps_hash = 0xe27a50a9032c7d2f, ps_weight = 4294967295 * f, ps_index = 2\<rparr>]"

lemma example_logarithms:
  "Log2Fixed64 0x656dd03d5126a56d = 0xfaa841713bf87e28" "Log2Fixed64 0x7bacbe292d851e19 = 0xfbcd34d104341b2a"
  "Log2Fixed64 0x0c3b12af16bdc9a9 = 0xee7322996d8563bf"
proof -
  have "bits_Len (drop_bit 1 0x656dd03d5126a56d :: uint64) = 62" "bits_Len (drop_bit 1 0x7bacbe292d851e19 :: uint64) = 62"
    "bits_Len (drop_bit 1 0x0c3b12af16bdc9a9 :: uint64) = 59"
    using bit_length_eqI [of 61] bit_length_eqI [of 58] by (simp_all add: bits_Len_def)
  note e = this
  show "Log2Fixed64 0x656dd03d5126a56d = 0xfaa841713bf87e28" "Log2Fixed64 0x7bacbe292d851e19 = 0xfbcd34d104341b2a"
    "Log2Fixed64 0x0c3b12af16bdc9a9 = 0xee7322996d8563bf"
    unfolding Log2Fixed64_def e Let_def by (simp_all add: log2LUT_def)
qed

lemma example_scores:
  "shard_score 0xaf63d54c8601e0a7 \<lparr>ps_hash = 0xcabd1bca128197cb, ps_weight = w, ps_index = i\<rparr> = w div 89636495"
  "shard_score 0xaf63d54c8601e0a7 \<lparr>ps_hash = 0x4a59390016e8233f, ps_weight = w, ps_index = i\<rparr> = w div 70437679"
  "shard_score 0xaf63d54c8601e0a7 \<lparr>ps_hash = 0xe27a50a9032c7d2f, ps_weight = w, ps_index = i\<rparr> = w div 294444391"
proof -
  have p: "0xaf63d54c8601e0a7 * 0xcabd1bca128197cb = (0x656dd03d5126a56d :: uint64)"
    "0xaf63d54c8601e0a7 * 0x4a59390016e8233f = (0x7bacbe292d851e19 :: uint64)"
    "0xaf63d54c8601e0a7 * 0xe27a50a9032c7d2f = (0x0c3b12af16bdc9a9 :: uint64)"
    by simp_all
  show "shard_score 0xaf63d54c8601e0a7 \<lparr>ps_hash = 0xcabd1bca128197cb, ps_weight = w, ps_index = i\<rparr> = w div 89636495"
    "shard_score 0xaf63d54c8601e0a7 \<lparr>ps_hash = 0x4a59390016e8233f, ps_weight = w, ps_index = i\<rparr> = w div 70437679"
    "shard_score 0xaf63d54c8601e0a7 \<lparr>ps_hash = 0xe27a50a9032c7d2f, ps_weight = w, ps_index = i\<rparr> = w div 294444391"
    unfolding shard_score_def Let_def preprocessedShard.select_convs p example_logarithms by simp_all
qed

lemma rescaling_moves_data:
  "PickShard (take 2 (example_preprocessed (- 1 div 3445836700))) [24] = 1
   \<and> PickShard (example_preprocessed (- 1 div 4294967295)) [24] = 0"
proof -
  have h: "fnv1a 14695981039346656037 [24] = 0xaf63d54c8601e0a7" by code_simp
  show ?thesis by (simp add: PickShard_def example_preprocessed_def h example_scores)
qed

text \<open>
  C23. Routing: if a picker was created for as many shards as there are backends, uploads and downloads of a reference
  are both forwarded to the backend of the best shard for it, and leave the states of all other backends untouched.
  Picking a shard never panics.
\<close>

theorem sharded_routing:
  assumes "length ws = length (d_shards d)" "length (u_shards u) = length (d_shards d)" "length states = length (d_shards d)"
    and "d_picker d = PickShard (NewWeightedRendezvousPicker ws)" "u_picker u = d_picker d" "u_rawReference u = d_rawReference d"
    and "\<exists>w \<in> set ws. ws_Weight w \<noteq> 0"
  shows "\<exists>i < length ws. best_shard ws (d_rawReference d r) (ws ! i)
    \<and> sharded_DownloadObject d states r
        = map_prod id (\<lambda>st. states[i := st]) (DownloadObject (d_shards d ! i) (states ! i) r)
    \<and> sharded_UploadObject u states r c l want
        = map_prod id (\<lambda>st. states[i := st]) (UploadObject (u_shards u ! i) (states ! i) r c l want)"
proof (intro exI conjI)
  let ?i = "PickShard (NewWeightedRendezvousPicker ws) (d_rawReference d r)"
  note p = pick_shard_best [OF assms(7), of "d_rawReference d r"]
  show "?i < length ws" "best_shard ws (d_rawReference d r) (ws ! ?i)" by (fact p)+
  show "sharded_DownloadObject d states r = map_prod id (\<lambda>st. states[?i := st]) (DownloadObject (d_shards d ! ?i) (states ! ?i) r)"
    using p(1) assms(1,4) by (simp add: sharded_DownloadObject_def Let_def split: prod.splits)
  show "sharded_UploadObject u states r c l want
      = map_prod id (\<lambda>st. states[?i := st]) (UploadObject (u_shards u ! ?i) (states ! ?i) r c l want)"
    using p(1) assms(1,2,4-6) by (simp add: sharded_UploadObject_def Let_def split: prod.splits)
qed

section \<open>Concrete instances\<close>

definition example_shards :: "WeightedShard list" where
  "example_shards = [\<lparr>ws_Key = [1], ws_Weight = 3\<rparr>, \<lparr>ws_Key = [2], ws_Weight = 1\<rparr>]"

definition example_more_shards :: "WeightedShard list" where
  "example_more_shards = \<lparr>ws_Key = [3], ws_Weight = 2\<rparr> # rev example_shards"

theorem log2_fixed64_monotone_witness: "Log2Fixed64 1000 \<le> Log2Fixed64 1001 \<and> unat (Log2Fixed64 (2 ^ 10)) = 10 * 2 ^ 58"
proof -
  have "(1000 :: uint64) \<le> 1001" "(10 :: nat) < 64" by simp_all
  then show ?thesis using log2_fixed64_monotone by blast
qed

theorem rendezvous_minimal_disruption_witness:
  "PickShard (NewWeightedRendezvousPicker example_shards) [1, 2, 3] < 2
   \<and> (let after = example_more_shards ! PickShard (NewWeightedRendezvousPicker example_more_shards) [1, 2, 3]
      in after \<notin> set example_shards
         \<or> after = example_shards ! PickShard (NewWeightedRendezvousPicker example_shards) [1, 2, 3])"
proof -
  have "distinct (map ws_Key example_more_shards)" "set example_shards \<subseteq> set example_more_shards" "distinct example_shards"
    "\<exists>w \<in> set example_shards. ws_Weight w \<noteq> 0" "length example_shards = 2"
    by (auto simp: example_more_shards_def example_shards_def)
  moreover have "maximum_weight example_more_shards = maximum_weight example_shards"
    by (simp add: maximum_weight_def example_more_shards_def example_shards_def)
  ultimately show ?thesis
    using rendezvous_minimal_disruption [of example_more_shards example_shards "[1, 2, 3]"] unfolding Let_def by simp
qed

definition example_downloader :: "(nat, bytes) Downloader" where
  "example_downloader = \<lparr>DownloadObject = (\<lambda>s r. (Inl (Status NotFound), s + 1))\<rparr>"

definition example_uploader :: "(nat, bytes, unit) Uploader" where
  "example_uploader = \<lparr>UploadObject = (\<lambda>s r c l w. (Inr UploadObjectMissing, s + 1))\<rparr>"

theorem sharded_routing_witness:
  "\<exists>states. sharded_DownloadObject
     \<lparr>d_shards = [example_downloader, example_downloader], d_picker = PickShard (NewWeightedRendezvousPicker example_shards),
      d_rawReference = id\<rparr> [0, 0] [7] = (Inl (Status NotFound), states)"
proof -
  have "\<exists>w \<in> set example_shards. ws_Weight w \<noteq> 0" "length example_shards = 2" by (auto simp: example_shards_def)
  then obtain i where "i < 2" "sharded_DownloadObject
     \<lparr>d_shards = [example_downloader, example_downloader], d_picker = PickShard (NewWeightedRendezvousPicker example_shards),
      d_rawReference = id\<rparr> [0, 0] [7] = map_prod id (\<lambda>st. [0, 0][i := st]) (DownloadObject ([example_downloader, example_downloader] ! i) ([0, 0] ! i) [7])"
    using sharded_routing [of example_shards "\<lparr>d_shards = [example_downloader, example_downloader],
        d_picker = PickShard (NewWeightedRendezvousPicker example_shards), d_rawReference = id\<rparr>"
        "\<lparr>u_shards = [example_uploader, example_uploader], u_picker = PickShard (NewWeightedRendezvousPicker example_shards),
          u_rawReference = id\<rparr>" "[0, 0]" "[7]" None "[]" False]
    by auto
  then show ?thesis by (auto simp: example_downloader_def less_2_cases_iff)
qed

end
