(* ===== verification/Flat_Backed.thy ===== *)
theory Flat_Backed
  imports Object_Store Lossy_Map Varint Location_Records
begin

text \<open>
  The store that adds leases to a store of flat references. A lease is the time at which an object was
  found to be complete; a map from references to leases remembers those that clients presented for the children of
  the objects they uploaded, and decides whether an object is complete itself.
\<close>

section \<open>Leases\<close>

type_synonym Lease = uint64

definition MarshalLease :: "Lease \<Rightarrow> bytes \<Rightarrow> bytes" where
  "MarshalLease lease dst = AppendForward dst (uint lease)"

definition UnmarshalLease :: "bytes \<Rightarrow> Lease result" where
  "UnmarshalLease src =
     (case ConsumeForward (Unsigned 64) src of (v, n) \<Rightarrow>
        if n \<noteq> int (length src) then Inl (Status InvalidArgument) else Inr (word_of_int v))"

section \<open>Lease records on a block device\<close>

text \<open>A record has 49 bytes: the reference, the probing attempt and the lease.\<close>

definition blockDeviceBackedReferenceLeaseRecordSize :: nat where
  "blockDeviceBackedReferenceLeaseRecordSize = SHA256V1ReferenceSizeBytes + 1 + 8"

definition lease_record_offset :: "uint64 \<Rightarrow> nat" where
  "lease_record_offset index = unat (index * of_nat blockDeviceBackedReferenceLeaseRecordSize)"

definition bdlra_Get :: "'d BlockDevice \<Rightarrow> 'd \<Rightarrow> uint64 \<Rightarrow> Lease \<Rightarrow> (LocalReference, Lease) Record result" where
  "bdlra_Get bd device index minimumLease =
     (case dev_ReadAt bd device blockDeviceBackedReferenceLeaseRecordSize (lease_record_offset index) of
        Inl err \<Rightarrow> Inl err
      | Inr record \<Rightarrow>
          case NewLocalReference (take SHA256V1ReferenceSizeBytes record) of
            Inl err \<Rightarrow> Inl (if err = Panic then Panic else ErrRecordInvalidOrExpired)
          | Inr reference \<Rightarrow>
              let lease = Uint64_at record (SHA256V1FlatReferenceSizeBytes + 1) in
              if lease < minimumLease then Inl ErrRecordInvalidOrExpired
              else Inr \<lparr>RecordKey = \<lparr>Key = reference, Attempt = record ! SHA256V1ReferenceSizeBytes\<rparr>, Value = lease\<rparr>)"

definition bdlra_Put ::
  "'d BlockDevice \<Rightarrow> 'd \<Rightarrow> uint64 \<Rightarrow> (LocalReference, Lease) Record \<Rightarrow> Lease \<Rightarrow> go_error option \<times> 'd" where
  "bdlra_Put bd device index record minimumLease =
     (if Value record \<ge> minimumLease then
        let rawRecord = GetRawReference (Key (RecordKey record)) @ [Attempt (RecordKey record)] @ le_bytes 8 (Value record)
        in dev_WriteAt bd device rawRecord (lease_record_offset index)
      else (None, device))"

definition NewBlockDeviceBackedReferenceLeaseRecordArray ::
  "'d BlockDevice \<Rightarrow> ('d, LocalReference, Lease, Lease) RecordArray" where
  "NewBlockDeviceBackedReferenceLeaseRecordArray bd = \<lparr>ra_Get = bdlra_Get bd, ra_Put = bdlra_Put bd\<rparr>"

datatype 'd lease_array_state = InMemoryLeases "(LocalReference, Lease) Record list" | DeviceLeases 'd

definition zero_lease_record :: "(LocalReference, Lease) Record" where
  "zero_lease_record = \<lparr>RecordKey = \<lparr>Key = \<lparr>rawReference = replicate SHA256V1ReferenceSizeBytes 0\<rparr>, Attempt = 0\<rparr>, Value = 0\<rparr>"

definition inMemoryLeaseRecordArray :: "((LocalReference, Lease) Record list, LocalReference, Lease, Lease) RecordArray" where
  "inMemoryLeaseRecordArray = NewLowerBoundComparingRecordArray simpleRecordArray cmp_Compare"

definition LeaseRecordArray :: "'d BlockDevice \<Rightarrow> ('d lease_array_state, LocalReference, Lease, Lease) RecordArray" where
  "LeaseRecordArray bd =
     \<lparr>ra_Get = (\<lambda>a index minimumLease. case a of
        InMemoryLeases records \<Rightarrow> ra_Get inMemoryLeaseRecordArray records index minimumLease
      | DeviceLeases device \<Rightarrow> bdlra_Get bd device index minimumLease),
      ra_Put = (\<lambda>a index record minimumLease. case a of
        InMemoryLeases records \<Rightarrow> map_prod id InMemoryLeases (ra_Put inMemoryLeaseRecordArray records index record minimumLease)
      | DeviceLeases device \<Rightarrow> map_prod id DeviceLeases (bdlra_Put bd device index record minimumLease))\<rparr>"

definition LeaseRecordArrayFactory ::
  "'d BlockDevice \<Rightarrow> ('d, 'd lease_array_state, LocalReference, Lease, Lease) RecordArrayFactory" where
  "LeaseRecordArrayFactory bd =
     \<lparr>GetBlockDeviceBackedRecordSize = int blockDeviceBackedReferenceLeaseRecordSize,
      NewInMemoryRecordArray = (\<lambda>entries. (LeaseRecordArray bd, InMemoryLeases (NewSimpleRecordArray zero_lease_record (nat entries)))),
      NewBlockDeviceBackedRecordArray = (\<lambda>blockDevice. (LeaseRecordArray bd, DeviceLeases blockDevice))\<rparr>"

section \<open>The store\<close>

text \<open>The interface \<open>lossymap.Map\<close>, of references to leases.\<close>

record 'm LeasesMap =
  lm_Get :: "'m \<Rightarrow> LocalReference \<Rightarrow> Lease \<Rightarrow> Lease result"
  lm_Put :: "'m \<Rightarrow> LocalReference \<Rightarrow> Lease \<Rightarrow> Lease \<Rightarrow> go_error option \<times> 'm"

definition hashMapLeases :: "('a, LocalReference, Lease, Lease) hashMap \<Rightarrow> 'a LeasesMap" where
  "hashMapLeases m = \<lparr>lm_Get = hashMap_Get m, lm_Put = hashMap_Put m\<rparr>"

record ('s, 'm) flatbacked_store =
  fb_base :: "('s, FlatReference, unit) Store"
  leaseCompletenessDuration :: Lease
  leasesMap :: "'m LeasesMap"

text \<open>The states of the base store and of the map of leases.\<close>

definition fb_DownloadObject ::
  "('s, 'm) flatbacked_store \<Rightarrow> 's \<times> 'm \<Rightarrow> LocalReference \<Rightarrow> Contents result \<times> ('s \<times> 'm)" where
  "fb_DownloadObject s = (\<lambda>(base, leases) reference.
     case DownloadObject (store_Downloader (fb_base s)) base (Flatten reference) of
       (Inl err, base) \<Rightarrow> (Inl err, (base, leases))
     | (Inr flatContents, base) \<Rightarrow> (Unflatten flatContents reference, (base, leases)))"

text \<open>
  The lease that the caller provided for a child: none is zero, and none is in the future. It is stored if it has
  not expired. A list of leases that is too short panics.
\<close>

definition provide_lease ::
  "'m LeasesMap \<Rightarrow> Lease \<Rightarrow> Lease \<Rightarrow> LocalReference \<Rightarrow> Lease list \<Rightarrow> nat \<Rightarrow> 'm \<Rightarrow> Lease result \<times> 'm" where
  "provide_lease M leaseNow leaseExpirationCutoff childReference childrenLeases i m =
     (if length childrenLeases > 0 then
        if i \<ge> length childrenLeases then (Inl Panic, m)
        else
          let childLease = (if childrenLeases ! i > leaseNow then leaseNow else childrenLeases ! i) in
          if childLease \<ge> leaseExpirationCutoff then
            case lm_Put M m childReference childLease leaseExpirationCutoff of
              (Some err, m) \<Rightarrow> (Inl err, m)
            | (None, m) \<Rightarrow> (Inr childLease, m)
          else (Inr childLease, m)
      else (Inr 0, m))"

text \<open>The stored lease of a child, if the provided one is too old.\<close>

definition stored_lease ::
  "'m LeasesMap \<Rightarrow> Lease \<Rightarrow> Lease \<Rightarrow> LocalReference \<Rightarrow> Lease \<Rightarrow> 'm \<Rightarrow> Lease result" where
  "stored_lease M leaseIncompleteCutoff leaseExpirationCutoff childReference childLease m =
     (if childLease < leaseIncompleteCutoff then
        case lm_Get M m childReference leaseExpirationCutoff of
          Inr storedChildLease \<Rightarrow> Inr storedChildLease
        | Inl err \<Rightarrow> if err \<noteq> Status NotFound then Inl err else Inr childLease
      else Inr childLease)"

text \<open>The loop over the children, from the given one on: the indices of those whose leases are wanted.\<close>

fun lease_loop ::
  "'m LeasesMap \<Rightarrow> Lease \<Rightarrow> Lease \<Rightarrow> Lease \<Rightarrow> Contents \<Rightarrow> Lease list \<Rightarrow> nat \<Rightarrow> nat \<Rightarrow> 'm \<Rightarrow> nat list result \<times> 'm" where
  "lease_loop M leaseNow leaseIncompleteCutoff leaseExpirationCutoff contents childrenLeases i 0 m = (Inr [], m)"
| "lease_loop M leaseNow leaseIncompleteCutoff leaseExpirationCutoff contents childrenLeases i (Suc n) m =
     (case GetOutgoingReference contents i of
        Inl err \<Rightarrow> (Inl err, m)
      | Inr childReference \<Rightarrow>
          case provide_lease M leaseNow leaseExpirationCutoff childReference childrenLeases i m of
            (Inl err, m) \<Rightarrow> (Inl err, m)
          | (Inr childLease, m) \<Rightarrow>
              case stored_lease M leaseIncompleteCutoff leaseExpirationCutoff childReference childLease m of
                Inl err \<Rightarrow> (Inl err, m)
              | Inr childLease \<Rightarrow>
                  case lease_loop M leaseNow leaseIncompleteCutoff leaseExpirationCutoff contents childrenLeases (i + 1) n m of
                    (Inl err, m) \<Rightarrow> (Inl err, m)
                  | (Inr wanted, m) \<Rightarrow> (Inr (if childLease < leaseIncompleteCutoff then i # wanted else wanted), m))"

text \<open>The contents of an object that the base store has: as provided by the caller, or downloaded.\<close>

definition object_contents ::
  "('s, 'm) flatbacked_store \<Rightarrow> 's \<times> 'm \<Rightarrow> LocalReference \<Rightarrow> Contents option \<Rightarrow> Contents result \<times> ('s \<times> 'm)" where
  "object_contents s st reference contents =
     (case contents of
        Some contents \<Rightarrow> (Inr contents, st)
      | None \<Rightarrow>
          (case fb_DownloadObject s st reference of
             (Inl err, st) \<Rightarrow> (Inl (if err = Status NotFound then Status Internal else err), st)
           | (Inr contents, st) \<Rightarrow> (Inr contents, st)))"

text \<open>How old leases may be: those that are provided explicitly may be twice as old.\<close>

definition incomplete_cutoff :: "Lease \<Rightarrow> Lease \<Rightarrow> Lease list \<Rightarrow> Lease" where
  "incomplete_cutoff leaseNow duration childrenLeases =
     (if length childrenLeases > 0 then leaseNow - duration - duration else leaseNow - duration)"

text \<open>The upload of the flattened object to the base store.\<close>

definition base_upload ::
  "('s, 'm) flatbacked_store \<Rightarrow> 's \<Rightarrow> LocalReference \<Rightarrow> Contents option \<Rightarrow> unit UploadObjectResult result \<times> 's" where
  "base_upload s base reference contents =
     UploadObject (store_Uploader (fb_base s)) base (Flatten reference) (map_option FlattenContents contents) [] False"

definition fb_UploadObject ::
  "('s, 'm) flatbacked_store \<Rightarrow> Lease \<Rightarrow> 's \<times> 'm \<Rightarrow> LocalReference \<Rightarrow> Contents option \<Rightarrow> Lease list \<Rightarrow> bool
     \<Rightarrow> Lease UploadObjectResult result \<times> ('s \<times> 'm)" where
  "fb_UploadObject s leaseNow st reference contents childrenLeases wantContentsIfIncomplete =
     (case base_upload s (fst st) reference contents of
        (Inl err, base) \<Rightarrow> (Inl err, (base, snd st))
      | (Inr result, base) \<Rightarrow>
          let st = (base, snd st) in
          case result of
            UploadObjectComplete u \<Rightarrow>
              if GetDegree reference > 0 then
                (case object_contents s st reference contents of
                   (Inl err, st) \<Rightarrow> (Inl err, st)
                 | (Inr contents, st) \<Rightarrow>
                     let d = leaseCompletenessDuration s in
                     case lease_loop (leasesMap s) leaseNow (incomplete_cutoff leaseNow d childrenLeases) (leaseNow - d - d)
                         contents childrenLeases 0 (GetDegree reference) (snd st) of
                       (Inl err, m) \<Rightarrow> (Inl err, (fst st, m))
                     | (Inr wanted, m) \<Rightarrow>
                         if length wanted > 0
                         then (Inr (UploadObjectIncomplete (if wantContentsIfIncomplete then Some contents else None) wanted), (fst st, m))
                         else (Inr (UploadObjectComplete leaseNow), (fst st, m)))
              else (Inr (UploadObjectComplete leaseNow), st)
          | UploadObjectMissing \<Rightarrow> (Inr UploadObjectMissing, st)
          | UploadObjectIncomplete c w \<Rightarrow> (Inl Panic, st))"


section \<open>What the store expects of a map of leases\<close>

text \<open>The leases that the caller of \<open>UploadObject\<close> presents for the children of an object, capped at the current time.\<close>

definition presented_leases :: "Lease \<Rightarrow> Contents \<Rightarrow> Lease list \<Rightarrow> (LocalReference \<times> Lease) set" where
  "presented_leases now contents leases =
     {(child, min (leases ! j) now) | j child. j < length leases \<and> GetOutgoingReference contents j = Inr child}"

lemma presented_leasesI:
  "j < length leases \<Longrightarrow> GetOutgoingReference contents j = Inr child \<Longrightarrow> (child, min (leases ! j) now) \<in> presented_leases now contents leases"
  by (auto simp: presented_leases_def)

lemma provide_lease_eq:
  assumes "i < length leases"
  shows "provide_lease M now e child leases i m =
    (let l = min (leases ! i) now in
     if e \<le> l then case lm_Put M m child l e of (Some err, m) \<Rightarrow> (Inl err, m) | (None, m) \<Rightarrow> (Inr l, m) else (Inr l, m))"
proof -
  have "(if leases ! i > now then now else leases ! i) = min (leases ! i) now" by (auto simp: min_def)
  moreover have "leases \<noteq> []" using assms by auto
  ultimately show ?thesis using assms by (simp add: provide_lease_def Let_def split: prod.splits option.splits)
qed

locale leases_map =
  fixes M :: "'m LeasesMap" and holds :: "'m \<Rightarrow> (LocalReference \<times> Lease) set"
  assumes get_holds: "lm_Get M m k e = Inr v \<Longrightarrow> (k, v) \<in> holds m \<and> e \<le> v"
    and put_holds: "lm_Put M m k v e = (err, m') \<Longrightarrow> holds m' \<subseteq> insert (k, v) (holds m)"
begin

lemma provide_lease_holds:
  assumes "provide_lease M now e child leases i m = (r, m')"
  shows "holds m' \<subseteq> holds m \<union> (if i < length leases then {(child, min (leases ! i) now)} else {})"
    and "r = Inr l \<Longrightarrow> l = 0 \<and> leases = [] \<or> i < length leases \<and> l = min (leases ! i) now"
  using assms put_holds
  by (fastforce simp: provide_lease_def Let_def min_def not_less not_le split: if_splits prod.splits option.splits)+

lemma provide_lease_presented:
  assumes "provide_lease M now e child leases i m = (r, m')" "GetOutgoingReference contents i = Inr child"
  shows "holds m' \<subseteq> holds m \<union> presented_leases now contents leases"
    and "r = Inr l \<Longrightarrow> l = 0 \<and> leases = [] \<or> (child, l) \<in> presented_leases now contents leases \<and> l = min (leases ! i) now"
  using provide_lease_holds [OF assms(1)] presented_leasesI [OF _ assms(2)] by (auto split: if_splits)

lemma lease_loop_holds:
  assumes "lease_loop M now inc e contents leases i n m = (r, m')"
  shows "holds m' \<subseteq> holds m \<union> presented_leases now contents leases"
  using assms
proof (induction n arbitrary: i m r m')
  case (Suc n)
  show ?case
  proof (cases "GetOutgoingReference contents i")
    case (Inr child)
    obtain r1 m1 where p: "provide_lease M now e child leases i m = (r1, m1)" by force
    obtain r2 m2 where l: "lease_loop M now inc e contents leases (i + 1) n m1 = (r2, m2)" by force
    have "m' = m1 \<or> m' = m2" using Suc.prems Inr p l by (auto split: sum.splits)
    then show ?thesis using provide_lease_presented(1) [OF p Inr] Suc.IH [OF l] by blast
  qed (use Suc.prems in auto)
qed simp

lemma stored_lease_cases:
  assumes "stored_lease M inc e child l m = Inr l'"
  shows "l' = l \<or> l < inc \<and> (child, l') \<in> holds m"
  using assms get_holds by (auto simp: stored_lease_def split: if_splits sum.splits)

text \<open>Children that are not wanted have a lease that is new enough; those that are wanted were not provided one.\<close>

lemma lease_loop_step:
  assumes "lease_loop M now inc e contents leases i (Suc n) m = (Inr wanted, m')"
  obtains child l1 m1 l2 w2 where "GetOutgoingReference contents i = Inr child"
    "provide_lease M now e child leases i m = (Inr l1, m1)" "stored_lease M inc e child l1 m1 = Inr l2"
    "lease_loop M now inc e contents leases (i + 1) n m1 = (Inr w2, m')"
    "wanted = (if l2 < inc then i # w2 else w2)"
  using assms by (auto split: sum.splits prod.splits)

lemma lease_loop_wanted:
  assumes "lease_loop M now inc e contents leases i n m = (Inr wanted, m')" "0 < inc"
  shows "sorted_wrt (<) wanted \<and> set wanted \<subseteq> {i..<i + n}
    \<and> (\<forall>j \<in> set wanted. leases \<noteq> [] \<longrightarrow> min (leases ! j) now < inc)
    \<and> (\<forall>j \<in> {i..<i + n} - set wanted. \<exists>child l. GetOutgoingReference contents j = Inr child \<and> inc \<le> l
        \<and> (child, l) \<in> holds m \<union> presented_leases now contents leases)"
  using assms(1)
proof (induction n arbitrary: i m wanted m')
  case (Suc n)
  obtain child l1 m1 l2 w2 where c: "GetOutgoingReference contents i = Inr child"
    and p: "provide_lease M now e child leases i m = (Inr l1, m1)" and l2: "stored_lease M inc e child l1 m1 = Inr l2"
    and rest: "lease_loop M now inc e contents leases (i + 1) n m1 = (Inr w2, m')"
    and w: "wanted = (if l2 < inc then i # w2 else w2)"
    using lease_loop_step [OF Suc.prems] .
  note p' = provide_lease_presented(1) [OF p c] provide_lease_presented(2) [OF p c refl]
  note IH = Suc.IH [OF rest]
  have i: "l2 < inc \<Longrightarrow> leases \<noteq> [] \<Longrightarrow> min (leases ! i) now < inc"
    using p'(2) l2 by (auto simp: stored_lease_def split: if_splits)
  have "\<not> l2 < inc \<Longrightarrow> (child, l2) \<in> holds m \<union> presented_leases now contents leases"
    using stored_lease_cases [OF l2] p' assms(2) by auto
  moreover have "\<exists>child l. GetOutgoingReference contents j = Inr child \<and> inc \<le> l
      \<and> (child, l) \<in> holds m \<union> presented_leases now contents leases" if "j \<in> {i + 1..<i + 1 + n} - set w2" for j
    using IH that p'(1) by blast
  ultimately have "\<exists>child l. GetOutgoingReference contents j = Inr child \<and> inc \<le> l
      \<and> (child, l) \<in> holds m \<union> presented_leases now contents leases" if "j \<in> {i..<i + Suc n} - set wanted" for j
    using that w c by (cases "j = i") (auto simp: not_less split: if_splits)
  moreover have "sorted_wrt (<) wanted \<and> set wanted \<subseteq> {i..<i + Suc n} \<and> (\<forall>j \<in> set wanted. leases \<noteq> [] \<longrightarrow> min (leases ! j) now < inc)"
    using IH w i by (auto split: if_splits)
  ultimately show ?case by blast
qed simp

text \<open>With leases of all children that are new enough, none is wanted, unless the map fails.\<close>

lemma lease_loop_fresh:
  assumes "\<forall>j \<in> {i..<i + n}. \<exists>child. GetOutgoingReference contents j = Inr child"
    and "\<forall>j \<in> {i..<i + n}. inc \<le> leases ! j" "inc \<le> now" and "i + n \<le> length leases" "P m"
    and put: "\<And>m k v. P m \<Longrightarrow> \<exists>m'. lm_Put M m k v e = (None, m') \<and> P m'"
  shows "\<exists>m'. lease_loop M now inc e contents leases i n m = (Inr [], m') \<and> P m'"
  using assms(1,2,4,5)
proof (induction n arbitrary: i m)
  case (Suc n)
  obtain child where c: "GetOutgoingReference contents i = Inr child" using Suc.prems(1) by fastforce
  have l: "inc \<le> min (leases ! i) now" "i < length leases" using Suc.prems(2,3) assms(3) by auto
  obtain m1 where p: "provide_lease M now e child leases i m = (Inr (min (leases ! i) now), m1)" "P m1"
    using put [OF Suc.prems(4), of child "min (leases ! i) now"] l(2) Suc.prems(4)
    by (cases "e \<le> min (leases ! i) now") (auto simp: provide_lease_eq Let_def)
  moreover obtain m' where "lease_loop M now inc e contents leases (i + 1) n m1 = (Inr [], m') \<and> P m'"
    using Suc.IH [of "i + 1" m1] Suc.prems(1-3) p(2) by auto
  ultimately show ?case using c l(1) by (simp add: stored_lease_def not_less [symmetric])
qed simp

end

section \<open>The map of leases in memory\<close>

definition record_entries :: "(LocalReference, Lease) Record list \<Rightarrow> (LocalReference \<times> Lease) set" where
  "record_entries a = (\<lambda>r. (Key (RecordKey r), Value r)) ` set a"

lemmas lower_bound_array_simps = NewLowerBoundComparingRecordArray_def simpleRecordArray_def
  lowerBoundComparingRecordArray_Get_def lowerBoundComparingRecordArray_Put_def simpleRecordArray_Get_def simpleRecordArray_Put_def

lemma lower_bound_array_get:
  assumes "ra_Get (NewLowerBoundComparingRecordArray simpleRecordArray cmp_Compare) a i e = Inr x"
  shows "x \<in> set a \<and> e \<le> Value x"
  using assms by (auto simp: lower_bound_array_simps split: if_splits)

lemma lower_bound_array_put:
  assumes "ra_Put (NewLowerBoundComparingRecordArray simpleRecordArray cmp_Compare) a i r e = (err, a')"
  shows "record_entries a' \<subseteq> insert (Key (RecordKey r), Value r) (record_entries a)"
  using assms set_update_subset_insert [of a "unat i" r]
  by (auto simp: lower_bound_array_simps record_entries_def split: if_splits)

lemma Get_loop_entry:
  fixes a :: "(LocalReference, Lease) Record list"
  assumes "m = lower_bound_hash_map h c g p" "Get_loop m a e rk = Inr v"
  shows "(Key rk, v) \<in> record_entries a \<and> e \<le> v"
  using assms
proof (induction m a e rk rule: Get_loop.induct)
  case (1 m a e rk)
  obtain x where x: "ra_Get (recordArray m) a (record_index m rk) e = Inr x"
    using "1.prems"(2) by (subst (asm) Get_loop.simps) (auto split: if_splits sum.splits)
  have "Key (next_attempt rk) = Key rk" by (simp add: next_attempt_def)
  then show ?case using "1.prems" "1.IH" [OF _ x _ refl] x lower_bound_array_get [of a "record_index m rk" e x]
    by (subst (asm) Get_loop.simps) (auto simp: record_entries_def Let_def split: if_splits)
qed

lemma Put_loop_entries:
  "Put_loop n (lower_bound_hash_map h c g p) a r e = (err, a') \<Longrightarrow>
    record_entries a' \<subseteq> insert (Key (RecordKey r), Value r) (record_entries a)"
proof (induction n arbitrary: a r)
  case (Suc n)
  let ?ra = "NewLowerBoundComparingRecordArray simpleRecordArray cmp_Compare"
  let ?m = "lower_bound_hash_map h c g p :: ((LocalReference, Lease) Record list, LocalReference, Lease, Lease) hashMap"
  let ?i = "record_index ?m (RecordKey r)"
  obtain err1 a1 where p: "ra_Put ?ra a ?i r e = (err1, a1)" by force
  note a1 = lower_bound_array_put [OF p]
  show ?case
  proof (cases "ra_Get ?ra a ?i e")
    case (Inl err)
    then show ?thesis using Suc.prems p a1 by (auto simp: Put_loop.simps Let_def split: if_splits)
  next
    case (Inr x)
    have x: "(Key (RecordKey x), Value x) \<in> record_entries a" using lower_bound_array_get [OF Inr] by (auto simp: record_entries_def)
    show ?thesis
      using Suc.prems Inr p a1 x
        Suc.IH [of a1 "x\<lparr>RecordKey := next_attempt (RecordKey x)\<rparr>"] Suc.IH [of a "r\<lparr>RecordKey := next_attempt (RecordKey r)\<rparr>"]
      by (auto simp: Put_loop.simps Let_def next_attempt_def split: if_splits option.splits)
  qed
qed (auto simp: Put_loop.simps)

interpretation lbl: leases_map "hashMapLeases (lower_bound_hash_map h c g p)" record_entries for h c g p
proof unfold_locales
  show "lm_Get (hashMapLeases (lower_bound_hash_map h c g p)) m k e = Inr v \<Longrightarrow> (k, v) \<in> record_entries m \<and> e \<le> v" for m k e v
    using Get_loop_entry [OF refl, of h c g p m e "\<lparr>Key = k, Attempt = 0\<rparr>" v] by (simp add: hashMapLeases_def hashMap_Get_def)
  show "lm_Put (hashMapLeases (lower_bound_hash_map h c g p)) m k v e = (err, m') \<Longrightarrow> record_entries m' \<subseteq> insert (k, v) (record_entries m)" for m k v e err m'
    using Put_loop_entries [of "nat p" h c g p m "\<lparr>RecordKey = \<lparr>Key = k, Attempt = 0\<rparr>, Value = v\<rparr>" e err m']
    by (simp add: hashMapLeases_def hashMap_Put_def)
qed


section \<open>Executions\<close>

text \<open>
  The states of a store whose map of leases is in memory, after uploads and downloads, with the time of the last
  upload and the leases that were presented so far. The clock does not go backwards. Calls may have failed.
\<close>

definition presented ::
  "('s, 'm) flatbacked_store \<Rightarrow> Lease \<Rightarrow> 's \<times> 'm \<Rightarrow> LocalReference \<Rightarrow> Contents option \<Rightarrow> Lease list \<Rightarrow> (LocalReference \<times> Lease) set" where
  "presented s now st r c leases =
     (case fst (object_contents s (snd (base_upload s (fst st) r c), snd st) r c) of
        Inl err \<Rightarrow> {} | Inr contents \<Rightarrow> presented_leases now contents leases)"

inductive fb_reachable ::
  "('s, (LocalReference, Lease) Record list) flatbacked_store \<Rightarrow> nat \<Rightarrow> Lease \<Rightarrow> 's \<times> (LocalReference, Lease) Record list
     \<Rightarrow> (LocalReference \<times> Lease) set \<Rightarrow> bool" for s entries where
  start: "fb_reachable s entries 0 (base, NewSimpleRecordArray zero_lease_record entries) {}"
| download: "fb_reachable s entries t st P \<Longrightarrow> fb_DownloadObject s st r = (res, st') \<Longrightarrow> fb_reachable s entries t st' P"
| upload: "fb_reachable s entries t st P \<Longrightarrow> t \<le> now \<Longrightarrow> fb_UploadObject s now st r c leases want = (res, st')
    \<Longrightarrow> fb_reachable s entries now st' (P \<union> presented s now st r c leases)"

lemma fb_DownloadObject_leases: "snd (snd (fb_DownloadObject s st r)) = snd st"
  by (simp add: fb_DownloadObject_def case_prod_beta split: sum.splits prod.splits)

lemma object_contents_leases: "snd (snd (object_contents s st r c)) = snd st"
  using fb_DownloadObject_leases [of s st r] by (auto simp: object_contents_def split: option.splits sum.splits prod.splits)

text \<open>An upload either leaves the leases alone, or runs the loop on the contents of the object.\<close>

lemma fb_UploadObject_cases:
  assumes "fb_UploadObject s now st r c leases want = (res, st')"
  obtains (unchanged) "snd st' = snd st"
      "\<And>l. res = Inr (UploadObjectComplete l) \<Longrightarrow> l = now \<and> GetDegree r = 0 \<and> (\<exists>u. fst (base_upload s (fst st) r c) = Inr (UploadObjectComplete u))"
      "\<And>cs w. res \<noteq> Inr (UploadObjectIncomplete cs w)"
  | (loop) contents lres where
      "fst (object_contents s (snd (base_upload s (fst st) r c), snd st) r c) = Inr contents"
      "lease_loop (leasesMap s) now (incomplete_cutoff now (leaseCompletenessDuration s) leases)
         (now - leaseCompletenessDuration s - leaseCompletenessDuration s) contents leases 0 (GetDegree r) (snd st) = (lres, snd st')"
      "\<exists>u. fst (base_upload s (fst st) r c) = Inr (UploadObjectComplete u)"
      "res = (case lres of Inl err \<Rightarrow> Inl err | Inr w \<Rightarrow>
        Inr (if w = [] then UploadObjectComplete now else UploadObjectIncomplete (if want then Some contents else None) w))"
proof -
  obtain b base where b: "base_upload s (fst st) r c = (b, base)" by force
  obtain oc st1 where oc: "object_contents s (base, snd st) r c = (oc, st1)" by (meson surj_pair)
  note st1 = object_contents_leases [of s "(base, snd st)" r c, unfolded oc, simplified]
  let ?d = "leaseCompletenessDuration s"
  show thesis
  proof (cases "\<exists>contents u. oc = Inr contents \<and> b = Inr (UploadObjectComplete u) \<and> GetDegree r > 0")
    case True
    then obtain contents u where ok: "oc = Inr contents" "b = Inr (UploadObjectComplete u)" "GetDegree r > 0" by blast
    obtain lres m where l: "lease_loop (leasesMap s) now (incomplete_cutoff now ?d leases) (now - ?d - ?d) contents leases 0 (GetDegree r) (snd st) = (lres, m)"
      by force
    show thesis
      by (rule loop [of contents lres])
        (use assms b oc ok l st1 in \<open>auto simp: fb_UploadObject_def Let_def split: sum.splits if_splits\<close>)
  next
    case False
    show thesis
      by (rule unchanged)
        (use assms b oc st1 False in \<open>auto simp: fb_UploadObject_def Let_def split: sum.splits if_splits UploadObjectResult.splits\<close>)
  qed
qed

lemma fb_reachable_leases:
  assumes "fb_reachable s entries t st P" "leasesMap s = hashMapLeases (lower_bound_hash_map h c g p)"
  shows "record_entries (snd st) \<subseteq> insert (Key (RecordKey zero_lease_record), 0) P \<and> (\<forall>(k, l) \<in> P. l \<le> t)"
  using assms
proof (induction rule: fb_reachable.induct)
  case (upload t st P now r c leases want res st')
  have "\<forall>(k, l) \<in> presented s now st r c leases. l \<le> now"
    by (auto simp: presented_def presented_leases_def split: sum.splits)
  moreover have "record_entries (snd st') \<subseteq> record_entries (snd st) \<union> presented s now st r c leases"
    using upload.hyps(3)
  proof (cases rule: fb_UploadObject_cases)
    case (loop contents lres)
    then show ?thesis using lbl.lease_loop_holds [OF loop(2) [unfolded upload.prems]] by (simp add: presented_def)
  qed auto
  moreover have "\<forall>(k, l) \<in> P. l \<le> now" using upload.IH [OF upload.prems] upload.hyps(2) by (auto intro: order_trans)
  ultimately show ?case using upload.IH [OF upload.prems] by blast
next
  case (download t st P r res st')
  then show ?case using fb_DownloadObject_leases [of s st r] by simp
qed (auto simp: NewSimpleRecordArray_def record_entries_def zero_lease_record_def)


lemma fresh_leases_complete:
  assumes "leasesMap s = hashMapLeases (lower_bound_hash_map hasher count maxGet maxPut)" "count \<noteq> 0" "length m = unat count"
    and "valid_reference r" "NewContentsFromFullData r data = Inr contents" "length leases = GetDegree r"
    and "base_upload s base r (Some contents) = (Inr (UploadObjectComplete u), base')"
    and "2 * unat (leaseCompletenessDuration s) \<le> unat now"
    and "\<forall>l \<in> set leases. unat now - 2 * unat (leaseCompletenessDuration s) \<le> unat l"
  shows "\<exists>m'. fb_UploadObject s now (base, m) r (Some contents) leases want = (Inr (UploadObjectComplete now), (base', m'))
    \<and> length m' = unat count"
proof (cases "GetDegree r = 0")
  case True
  then show ?thesis using assms(3,7) by (simp add: fb_UploadObject_def)
next
  case False
  let ?d = "leaseCompletenessDuration s"
  obtain rs payload where rs: "\<forall>r \<in> set rs. valid_reference r" "NewContents rs payload = Inr contents" "contents_reference contents = r"
    using NewContentsFromFullData_constructed [OF assms(4,5)] by (metis Contents.select_convs(1))
  have deg: "GetDegree r = length rs" using NewContents_ok [OF rs(1,2)] rs(3) by metis
  have d: "unat (now - ?d) = unat now - unat ?d" using assms(8) by (intro unat_sub) (simp add: word_le_nat_alt)
  then have cut: "unat (now - ?d - ?d) = unat now - 2 * unat ?d"
    using assms(8) unat_sub [of ?d "now - ?d"] by (simp only: word_le_nat_alt)
  have "leases \<noteq> []" using False assms(6) by auto
  then have inc: "incomplete_cutoff now ?d leases = now - ?d - ?d" by (simp add: incomplete_cutoff_def)
  have "\<exists>m'. lease_loop (hashMapLeases (lower_bound_hash_map hasher count maxGet maxPut)) now (now - ?d - ?d) (now - ?d - ?d) contents leases 0 (GetDegree r) m
      = (Inr [], m') \<and> length m' = unat count"
  proof (rule lbl.lease_loop_fresh)
    show "\<exists>m'. lm_Put (hashMapLeases (lower_bound_hash_map hasher count maxGet maxPut)) m k v (now - ?d - ?d) = (None, m') \<and> length m' = unat count"
      if "length m = unat count" for m k v
      using lower_bound_Put_total [OF assms(2) that] by (simp add: hashMapLeases_def hashMap_Put_def)
  qed (use NewContents_parse(4) [OF rs(1,2)] deg assms(3,6,9) cut in \<open>auto simp: word_le_nat_alt\<close>)
  then show ?thesis using False assms(1,7) inc by (auto simp: fb_UploadObject_def object_contents_def Let_def)
qed

section \<open>Properties\<close>

text \<open>
  C4. Completeness is only ever reported on the basis of leases that clients presented: if an upload reports that an
  object is complete, then the base store has it, and for each of its children some client presented a lease, in this call or
  in an earlier one, that is not newer than the current time and not older than the cutoff. If it
  is reported as incomplete, the leases that are asked for are those of existing children, without duplicates, and none of them
  was just presented with a lease that is new enough.
\<close>

theorem flatbacked_leases_sound:
  assumes "fb_reachable s entries t st P" "leasesMap s = hashMapLeases (lower_bound_hash_map hasher count maxGet maxPut)"
    and "t \<le> now" "fb_UploadObject s now st r c leases want = (Inr result, st')"
    and "cutoff = incomplete_cutoff now (leaseCompletenessDuration s) leases" "0 < cutoff" "cutoff \<le> now"
  shows "(\<forall>l. result = UploadObjectComplete l \<longrightarrow> l = now
      \<and> (\<exists>u. fst (base_upload s (fst st) r c) = Inr (UploadObjectComplete u))
      \<and> (0 < GetDegree r \<longrightarrow> (\<exists>contents. fst (object_contents s (snd (base_upload s (fst st) r c), snd st) r c) = Inr contents
          \<and> (\<forall>i < GetDegree r. \<exists>child lease. GetOutgoingReference contents i = Inr child
              \<and> (child, lease) \<in> P \<union> presented s now st r c leases \<and> cutoff \<le> lease \<and> lease \<le> now))))
    \<and> (\<forall>contents w. result = UploadObjectIncomplete contents w \<longrightarrow>
        w \<noteq> [] \<and> sorted_wrt (<) w \<and> (\<forall>i \<in> set w. i < GetDegree r \<and> (leases \<noteq> [] \<longrightarrow> leases ! i < cutoff)))"
  using assms(4)
proof (cases rule: fb_UploadObject_cases)
  case unchanged
  then show ?thesis by auto
next
  case (loop contents lres)
  note inv = fb_reachable_leases [OF assms(1,2)]
  obtain w where w: "lres = Inr w" using loop(4) by (cases lres) auto
  note W = lbl.lease_loop_wanted [OF loop(2) [folded assms(5), unfolded assms(2) w] assms(6)]
  have pres: "presented s now st r c leases = presented_leases now contents leases" using loop(1) by (simp add: presented_def)
  have "\<exists>child lease. GetOutgoingReference contents i = Inr child
      \<and> (child, lease) \<in> P \<union> presented s now st r c leases \<and> cutoff \<le> lease \<and> lease \<le> now" if q: "i < GetDegree r" "w = []" for i
  proof -
    obtain child l where l: "GetOutgoingReference contents i = Inr child" "cutoff \<le> l"
      "(child, l) \<in> record_entries (snd st) \<union> presented_leases now contents leases"
      using bspec [OF W [THEN conjunct2, THEN conjunct2, THEN conjunct2], of i] q by auto
    moreover have "l \<noteq> 0" using l(2) assms(6) by auto
    ultimately have "(child, l) \<in> P \<union> presented_leases now contents leases" using inv by auto
    moreover have "l \<le> now" using calculation inv assms(3) by (force simp: presented_leases_def)
    ultimately show ?thesis using l pres by blast
  qed
  moreover have "leases ! i < cutoff" if "i \<in> set w" "leases \<noteq> []" for i
    using bspec [OF W [THEN conjunct2, THEN conjunct2, THEN conjunct1], of i] that assms(7) by (auto simp: min_def not_le split: if_splits)
  moreover have "\<forall>i \<in> set w. i < GetDegree r" "sorted_wrt (<) w" using W by auto
  ultimately show ?thesis using loop(1,3,4) w by (auto split: if_splits)
qed

text \<open>
  C5. Renewal of leases comes to an end: if the contents of an object are valid, the base store has accepted them, and
  the caller presents a lease for every child that is at most twice the completeness duration old, then the object is reported as
  complete as of now. The map of leases in memory, which has at least one record, never fails.
\<close>

theorem flatbacked_fresh_leases_complete:
  assumes "leasesMap s = hashMapLeases (lower_bound_hash_map hasher count maxGet maxPut)" "count \<noteq> 0" "length m = unat count"
    and "valid_reference r" "NewContentsFromFullData r data = Inr contents" "length leases = GetDegree r"
    and "base_upload s base r (Some contents) = (Inr (UploadObjectComplete u), base')"
    and "2 * unat (leaseCompletenessDuration s) \<le> unat now"
    and "\<forall>l \<in> set leases. unat now - 2 * unat (leaseCompletenessDuration s) \<le> unat l"
  shows "\<exists>m'. fb_UploadObject s now (base, m) r (Some contents) leases want = (Inr (UploadObjectComplete now), (base', m'))
    \<and> length m' = unat count"
  using assms by (rule fresh_leases_complete)

text \<open>
  Leases can be transmitted: unmarshaling what \<open>MarshalLease\<close> appended yields the lease, and a
  trailing byte is rejected.
\<close>

theorem lease_marshaling_roundtrip:
  "\<exists>bs. MarshalLease lease dst = dst @ bs \<and> UnmarshalLease bs = Inr lease \<and> UnmarshalLease (bs @ [x]) = Inl (Status InvalidArgument)"
proof -
  let ?x = "uint lease"
  have r: "?x \<in> int_type_range (Unsigned 64)" "int_type_wf (Unsigned 64)"
    using uint_bounded [of lease] by simp_all
  then show ?thesis
    using ConsumeForward_code [OF r(2,1), of "[]"] ConsumeForward_code [OF r(2,1), of "[x]"] AppendForward_eq [of ?x dst]
      int_type_range_varint [OF r(2)]
    by (auto simp: MarshalLease_def UnmarshalLease_def)
qed

text \<open>
  C37. Leases on a block device do not round trip: \<open>Put\<close> stores the lease at offset 41 of a record, after the
  reference and the probing attempt, but \<open>Get\<close> reads it from offset 36, where a flat reference would end. What it
  yields for the record that was just written is made up of the last four bytes of the reference, the attempt
  and the three lowest bytes of the lease.
\<close>

definition misread_lease :: "(LocalReference, Lease) Record \<Rightarrow> Lease" where
  "misread_lease r = of_le (drop 36 (rawReference (Key (RecordKey r))) @ [Attempt (RecordKey r)] @ take 3 (le_bytes 8 (Value r)))"

theorem lease_record_misread:
  assumes "block_device bd dev_bytes sz" "\<forall>d k off. off + k \<le> sz \<longrightarrow> (\<exists>x. dev_ReadAt bd d k off = Inr x)"
    and "unat index * 49 + 49 \<le> sz" "sz < 2 ^ 64" "valid_reference (Key (RecordKey r))"
    and "bdlra_Put bd d index r e = (None, d')" "e \<le> Value r"
  shows "bdlra_Get bd d' index e' =
    (if misread_lease r < e' then Inl ErrRecordInvalidOrExpired else Inr (r\<lparr>Value := misread_lease r\<rparr>))"
proof -
  let ?k = "Key (RecordKey r)"
  let ?rec = "rawReference ?k @ [Attempt (RecordKey r)] @ le_bytes 8 (Value r)"
  have len: "length (rawReference ?k) = 40" using assms(5) by (simp add: valid_reference_iff)
  have off: "lease_record_offset index = unat index * 49"
    using assms(3,4) by (simp add: lease_record_offset_def blockDeviceBackedReferenceLeaseRecordSize_def size_consts unat_word_ariths)
  have "dev_WriteAt bd d ?rec (unat index * 49) = (None, d')"
    using assms(6,7) off by (simp add: bdlra_Put_def GetRawReference_def)
  then have b: "dev_bytes d' = put_bytes (dev_bytes d) (unat index * 49) ?rec"
    using assms(1,3) len by (simp add: block_device_def)
  obtain x where x: "dev_ReadAt bd d' 49 (unat index * 49) = Inr x" using assms(2,3) by blast
  moreover have "x = take 49 (drop (unat index * 49) (dev_bytes d'))" using assms(1,3) x by (auto simp: block_device_def)
  moreover have "\<dots> = ?rec" using b assms(1,3) len by (simp add: block_device_def put_bytes_same)
  ultimately have "dev_ReadAt bd d' 49 (unat index * 49) = Inr ?rec" by simp
  moreover have "Uint64_at ?rec 36 = misread_lease r" using len by (simp add: Uint64_at_def misread_lease_def)
  moreover have "NewLocalReference (rawReference ?k) = Inr ?k" using assms(5) by (simp add: valid_reference_def)
  ultimately show ?thesis using len off
    by (cases r; cases "RecordKey r") (simp add: bdlra_Get_def blockDeviceBackedReferenceLeaseRecordSize_def size_consts nth_append Let_def)
qed

section \<open>Concrete instances\<close>

definition example_flat_store :: "(unit, FlatReference, unit) Store" where
  "example_flat_store = NewStore_object
     \<lparr>DownloadObject = (\<lambda>s r. (Inl (Status NotFound), s))\<rparr> \<lparr>UploadObject = (\<lambda>s r c l w. (Inr (UploadObjectComplete ()), s))\<rparr>"

definition example_flatbacked :: "(unit, (LocalReference, Lease) Record list) flatbacked_store" where
  "example_flatbacked = \<lparr>fb_base = example_flat_store, leaseCompletenessDuration = 20,
     leasesMap = hashMapLeases (lower_bound_hash_map (\<lambda>rk. ucast (Attempt rk)) 4 2 8)\<rparr>"

lemma example_parent: "\<exists>p. NewContents [contents_reference example_leaf] [] = Inr p"
proof -
  have "GetHeight (contents_reference example_leaf) = 0" 
    by (rule NewContents_ok [OF _ example_leaf]) (auto simp: new_rcs_def)
  then show ?thesis using NewContents_ok_iff [of "[contents_reference example_leaf]" _ "[]"] example_leaf_valid by simp
qed

lemma example_upload:
  obtains p m' where "valid_reference (contents_reference p)" "GetDegree (contents_reference p) = 1"
    "NewContentsFromFullData (contents_reference p) (contents_data p) = Inr p"
    "GetOutgoingReference p 0 = Inr (contents_reference example_leaf)"
    "fb_UploadObject example_flatbacked 100 ((), NewSimpleRecordArray zero_lease_record 4) (contents_reference p) (Some p) [90] False
       = (Inr (UploadObjectComplete 100), ((), m'))"
proof -
  obtain p where p: "NewContents [contents_reference example_leaf] [] = Inr p" using example_parent by blast
  have refs: "\<forall>r \<in> set [contents_reference example_leaf]. valid_reference r" using example_leaf_valid by simp
  note parse = NewContents_parse [OF refs p]
  have v: "valid_reference (contents_reference p)" "GetDegree (contents_reference p) = 1" using NewContents_ok [OF refs p] by auto
  obtain m' where "fb_UploadObject example_flatbacked 100 ((), NewSimpleRecordArray zero_lease_record 4) (contents_reference p) (Some p) [90] False
       = (Inr (UploadObjectComplete 100), ((), m'))"
    using fresh_leases_complete [of example_flatbacked "\<lambda>rk. ucast (Attempt rk)" 4 2 8 "NewSimpleRecordArray zero_lease_record 4"
        "contents_reference p" "contents_data p" p "[90]" "()" "()" "()" 100 False] v parse(1)
    by (auto simp: example_flatbacked_def NewSimpleRecordArray_def base_upload_def example_flat_store_def NewStore_object_def)
  then show thesis using that v parse(1) parse(4) [of 0] by simp
qed

theorem flatbacked_leases_sound_witness:
  "\<exists>p st'. fb_UploadObject example_flatbacked 100 ((), NewSimpleRecordArray zero_lease_record 4) (contents_reference p) (Some p) [90] False
     = (Inr (UploadObjectComplete 100), st')
   \<and> (\<exists>lease. (contents_reference example_leaf, lease)
        \<in> presented example_flatbacked 100 ((), NewSimpleRecordArray zero_lease_record 4) (contents_reference p) (Some p) [90]
        \<and> 60 \<le> lease)"
proof -
  obtain p m' where p: "GetDegree (contents_reference p) = 1" "GetOutgoingReference p 0 = Inr (contents_reference example_leaf)"
    and up: "fb_UploadObject example_flatbacked 100 ((), NewSimpleRecordArray zero_lease_record 4) (contents_reference p) (Some p) [90] False
       = (Inr (UploadObjectComplete 100), ((), m'))"
    using example_upload by metis
  have "fb_reachable example_flatbacked 4 0 ((), NewSimpleRecordArray zero_lease_record 4) {}" by (rule fb_reachable.start)
  from flatbacked_leases_sound [OF this _ _ up refl, of "\<lambda>rk. ucast (Attempt rk)" 4 2 8]
  show ?thesis using p up by (auto simp: example_flatbacked_def incomplete_cutoff_def object_contents_def)
qed

theorem flatbacked_fresh_leases_complete_witness:
  "\<exists>p m'. fb_UploadObject example_flatbacked 100 ((), NewSimpleRecordArray zero_lease_record 4) (contents_reference p) (Some p) [90] False
     = (Inr (UploadObjectComplete 100), ((), m'))"
proof -
  obtain p where p: "valid_reference (contents_reference p)" "GetDegree (contents_reference p) = 1"
    "NewContentsFromFullData (contents_reference p) (contents_data p) = Inr p"
    using example_upload by metis
  show ?thesis
    using flatbacked_fresh_leases_complete [of example_flatbacked "\<lambda>rk. ucast (Attempt rk)" 4 2 8 "NewSimpleRecordArray zero_lease_record 4"
        "contents_reference p" "contents_data p" p "[90]" "()" "()" "()" 100 False] p
    by (auto simp: example_flatbacked_def NewSimpleRecordArray_def base_upload_def example_flat_store_def NewStore_object_def)
qed

theorem lease_record_misread_witness:
  "\<exists>d' l. bdlra_Put (ram_device 49) [] 0 \<lparr>RecordKey = \<lparr>Key = contents_reference example_leaf, Attempt = 0\<rparr>, Value = 1\<rparr> 0 = (None, d')
    \<and> bdlra_Get (ram_device 49) d' 0 0 = Inr \<lparr>RecordKey = \<lparr>Key = contents_reference example_leaf, Attempt = 0\<rparr>, Value = l\<rparr> \<and> l \<noteq> 1"
proof -
  let ?r = "\<lparr>RecordKey = \<lparr>Key = contents_reference example_leaf, Attempt = 0\<rparr>, Value = 1\<rparr>"
  have "block_device (ram_device 49) (ram_bytes 49) 49 \<and> (\<forall>d k off. off + k \<le> 49 \<longrightarrow> (\<exists>x. dev_ReadAt (ram_device 49) d k off = Inr x))"
    using ram_device_array [of 0 49] by (simp add: device_array_def)
  moreover obtain d' where d': "bdlra_Put (ram_device 49) [] 0 ?r 0 = (None, d')" by (simp add: bdlra_Put_def ram_device_def)
  moreover have "drop 36 (rawReference (contents_reference example_leaf)) = [0, 0, 0, 0]"
    by (simp add: example_leaf_def assemble_reference_def put_bytes_def size_consts)
  then have "misread_lease ?r \<noteq> 1" by (simp add: misread_lease_def le_bytes_def upt_rec)
  ultimately show ?thesis
    using lease_record_misread [of "ram_device 49" "ram_bytes 49" 49 0 ?r "[]" 0 d' 0] example_leaf_valid by auto
qed

end
