(* ===== verification/Object_Decorators.thy ===== *)
theory Object_Decorators
  imports Local_Store Namespaces Sharding Flat_Backed
begin

text \<open>
  Decorators of object stores: translation of errors, of namespaces and of leases, read caching and mirroring. The
  methods of the type parameter \<open>TReference\<close> that a decorator calls are arguments of its definition.
\<close>

section \<open>Existence as a precondition, and namespaces\<close>

definition existence_DownloadObject :: "('s, 'r) Downloader \<Rightarrow> 's \<Rightarrow> 'r \<Rightarrow> Contents result \<times> 's" where
  "existence_DownloadObject base s reference =
     (case DownloadObject base s reference of
        (Inl err, s) \<Rightarrow> (Inl (if err = Status NotFound then Status FailedPrecondition else err), s)
      | (Inr contents, s) \<Rightarrow> (Inr contents, s))"

definition namespaceAdding_DownloadObject ::
  "('s, 'r) Downloader \<Rightarrow> (LocalReference \<Rightarrow> 'r) \<Rightarrow> 's \<Rightarrow> LocalReference \<Rightarrow> Contents result \<times> 's" where
  "namespaceAdding_DownloadObject base withLocalReference s reference = DownloadObject base s (withLocalReference reference)"

definition namespaceRemoving_DownloadObject ::
  "('s, LocalReference) Downloader \<Rightarrow> ('r \<Rightarrow> LocalReference) \<Rightarrow> 's \<Rightarrow> 'r \<Rightarrow> Contents result \<times> 's" where
  "namespaceRemoving_DownloadObject base getLocalReference s reference = DownloadObject base s (getLocalReference reference)"

definition namespaceRemoving_UploadObject ::
  "('s, LocalReference, 'l) Uploader \<Rightarrow> ('r \<Rightarrow> LocalReference) \<Rightarrow> 's \<Rightarrow> 'r \<Rightarrow> Contents option \<Rightarrow> 'l list \<Rightarrow> bool
     \<Rightarrow> 'l UploadObjectResult result \<times> 's" where
  "namespaceRemoving_UploadObject base getLocalReference s reference contents childrenLeases wantContentsIfIncomplete =
     UploadObject base s (getLocalReference reference) contents childrenLeases wantContentsIfIncomplete"

section \<open>Marshaling of leases\<close>

record 'l LeaseMarshaler =
  lease_Marshal :: "'l \<Rightarrow> bytes \<Rightarrow> bytes"
  lease_Unmarshal :: "bytes \<Rightarrow> 'l result"

definition flatbackedLeaseMarshaler :: "Flat_Backed.Lease LeaseMarshaler" where
  "flatbackedLeaseMarshaler = \<lparr>lease_Marshal = MarshalLease, lease_Unmarshal = UnmarshalLease\<rparr>"

text \<open>Empty leases stand for the zero value of the native type.\<close>

fun unmarshal_leases :: "'l LeaseMarshaler \<Rightarrow> 'l \<Rightarrow> bytes list \<Rightarrow> 'l list result" where
  "unmarshal_leases marshaler zero [] = Inr []"
| "unmarshal_leases marshaler zero (marshaledLease # childrenLeases) =
     bindE (if length marshaledLease > 0 then lease_Unmarshal marshaler marshaledLease else Inr zero) (\<lambda>unmarshaledLease.
     bindE (unmarshal_leases marshaler zero childrenLeases) (\<lambda>unmarshaledLeases.
       Inr (unmarshaledLease # unmarshaledLeases)))"

text \<open>
  The state carries the largest size of a marshaled lease that was observed, which only serves as the capacity of the
  slice that is allocated.
\<close>

definition marshaling_UploadObject ::
  "('s, 'r, 'l) Uploader \<Rightarrow> 'l LeaseMarshaler \<Rightarrow> 'l \<Rightarrow> 's \<times> nat \<Rightarrow> 'r \<Rightarrow> Contents option \<Rightarrow> bytes list \<Rightarrow> bool
     \<Rightarrow> bytes UploadObjectResult result \<times> ('s \<times> nat)" where
  "marshaling_UploadObject base marshaler zero = (\<lambda>(s, maximumLeaseSizeBytes) reference contents childrenLeases wantContentsIfIncomplete.
     case unmarshal_leases marshaler zero childrenLeases of
       Inl err \<Rightarrow> (Inl err, (s, maximumLeaseSizeBytes))
     | Inr unmarshaledChildrenLeases \<Rightarrow>
         case UploadObject base s reference contents unmarshaledChildrenLeases wantContentsIfIncomplete of
           (Inl err, s) \<Rightarrow> (Inl err, (s, maximumLeaseSizeBytes))
         | (Inr result, s) \<Rightarrow>
             case result of
               UploadObjectComplete lease \<Rightarrow>
                 let marshaledLease = lease_Marshal marshaler lease []
                 in (Inr (UploadObjectComplete marshaledLease), (s, max maximumLeaseSizeBytes (length marshaledLease)))
             | UploadObjectIncomplete incompleteContents wanted \<Rightarrow>
                 (Inr (UploadObjectIncomplete incompleteContents wanted), (s, maximumLeaseSizeBytes))
             | UploadObjectMissing \<Rightarrow> (Inr UploadObjectMissing, (s, maximumLeaseSizeBytes)))"

section \<open>Read caching\<close>

text \<open>The states of the slow and of the fast backend.\<close>

record ('s, 'f, 'r, 'l) readcaching =
  slow :: "('s, 'r) Downloader"
  fast :: "('f, FlatReference, 'l) Store"
  rc_Flatten :: "'r \<Rightarrow> FlatReference"
  rc_GetLocalReference :: "'r \<Rightarrow> LocalReference"

definition readcaching_DownloadObject :: "('s, 'f, 'r, 'l) readcaching \<Rightarrow> 's \<times> 'f \<Rightarrow> 'r \<Rightarrow> Contents result \<times> ('s \<times> 'f)" where
  "readcaching_DownloadObject d = (\<lambda>(s, f) reference.
     let flatReference = rc_Flatten d reference in
     case DownloadObject (store_Downloader (fast d)) f flatReference of
       (Inr flatObjectContents, f) \<Rightarrow> (Unflatten flatObjectContents (rc_GetLocalReference d reference), (s, f))
     | (Inl err, f) \<Rightarrow>
         if err \<noteq> Status NotFound then (Inl err, (s, f))
         else
           case DownloadObject (slow d) s reference of
             (Inl err, s) \<Rightarrow> (Inl err, (s, f))
           | (Inr objectContents, s) \<Rightarrow>
               case UploadObject (store_Uploader (fast d)) f flatReference (Some (FlattenContents objectContents)) [] False of
                 (Inl err, f) \<Rightarrow> (Inl err, (s, f))
               | (Inr result, f) \<Rightarrow>
                   case result of
                     UploadObjectComplete lease \<Rightarrow> (Inr objectContents, (s, f))
                   | UploadObjectIncomplete c w \<Rightarrow> (Inl Panic, (s, f))
                   | UploadObjectMissing \<Rightarrow> (Inl Panic, (s, f)))"

section \<open>Mirroring\<close>

subsection \<open>Downloading\<close>

definition unidirectional_downloadObject ::
  "('f, 'r, 'lf) Store \<Rightarrow> ('s, 'r, 'ls) Store \<Rightarrow> 'f \<Rightarrow> 's \<Rightarrow> 'r \<Rightarrow> Contents result \<times> 'f \<times> 's" where
  "unidirectional_downloadObject firstBackend secondBackend f s reference =
     (case DownloadObject (store_Downloader firstBackend) f reference of
        (Inr contents, f) \<Rightarrow> (Inr contents, f, s)
      | (Inl err, f) \<Rightarrow>
          if err \<noteq> Status NotFound then (Inl err, f, s)
          else
            case DownloadObject (store_Downloader secondBackend) s reference of
              (Inl err, s) \<Rightarrow> (Inl err, f, s)
            | (Inr contents, s) \<Rightarrow>
                case UploadObject (store_Uploader firstBackend) f reference (Some contents) [] False of
                  (Inl err, f) \<Rightarrow> (Inl err, f, s)
                | (Inr result, f) \<Rightarrow> (Inr contents, f, s))"

record ('a, 'b, 'r, 'la, 'lb) replicas =
  replicaA :: "('a, 'r, 'la) Store"
  replicaB :: "('b, 'r, 'lb) Store"

text \<open>The state has a counter that makes requests start at either replica in turn.\<close>

definition mirrored_DownloadObject ::
  "('a, 'b, 'r, 'la, 'lb) replicas \<Rightarrow> uint32 \<times> 'a \<times> 'b \<Rightarrow> 'r \<Rightarrow> Contents result \<times> (uint32 \<times> 'a \<times> 'b)" where
  "mirrored_DownloadObject d = (\<lambda>(round, a, b) reference.
     let round = round + 1 in
     if round mod 2 = 1 then
       case unidirectional_downloadObject (replicaA d) (replicaB d) a b reference of (r, a, b) \<Rightarrow> (r, (round, a, b))
     else
       case unidirectional_downloadObject (replicaB d) (replicaA d) b a reference of (r, b, a) \<Rightarrow> (r, (round, a, b)))"

subsection \<open>Leases\<close>

record ('la, 'lb) mirrored_Lease =
  LeaseA :: 'la
  LeaseB :: 'lb

definition mirrored_MarshalLease ::
  "'la LeaseMarshaler \<Rightarrow> 'lb LeaseMarshaler \<Rightarrow> ('la, 'lb) mirrored_Lease \<Rightarrow> bytes \<Rightarrow> bytes" where
  "mirrored_MarshalLease marshalerA marshalerB lease dst =
     (let dstA = lease_Marshal marshalerA (LeaseA lease) dst;
          lengthA = length dstA - length dst;
          dst = lease_Marshal marshalerB (LeaseB lease) dstA
      in AppendBackward dst (int lengthA))"

definition mirrored_UnmarshalLease ::
  "'la LeaseMarshaler \<Rightarrow> 'lb LeaseMarshaler \<Rightarrow> bytes \<Rightarrow> ('la, 'lb) mirrored_Lease result" where
  "mirrored_UnmarshalLease marshalerA marshalerB src =
     (case ConsumeBackward (Unsigned 64) src of (lengthA, n) \<Rightarrow>
        if n < 0 then Inl (Status InvalidArgument)
        else
          let src = take (length src - nat n) src in
          if lengthA > int (length src) then Inl (Status InvalidArgument)
          else
            bindE (lease_Unmarshal marshalerA (take (nat lengthA) src)) (\<lambda>leaseA.
            bindE (lease_Unmarshal marshalerB (drop (nat lengthA) src)) (\<lambda>leaseB.
              Inr \<lparr>LeaseA = leaseA, LeaseB = leaseB\<rparr>)))"

definition NewLeaseMarshaler ::
  "'la LeaseMarshaler \<Rightarrow> 'lb LeaseMarshaler \<Rightarrow> ('la, 'lb) mirrored_Lease LeaseMarshaler" where
  "NewLeaseMarshaler marshalerA marshalerB =
     \<lparr>lease_Marshal = mirrored_MarshalLease marshalerA marshalerB, lease_Unmarshal = mirrored_UnmarshalLease marshalerA marshalerB\<rparr>"

subsection \<open>Uploading\<close>

text \<open>The loop that merges two lists of indices; what is left of both lists is appended.\<close>

fun merge_wanted :: "nat list \<Rightarrow> nat list \<Rightarrow> nat list" where
  "merge_wanted (li # wantA) (lj # wantB) =
     (if li < lj then li # merge_wanted wantA (lj # wantB)
      else if li > lj then lj # merge_wanted (li # wantA) wantB
      else li # merge_wanted wantA wantB)"
| "merge_wanted wantA wantB = wantA @ wantB"

datatype 'l next_step = Return "'l UploadObjectResult" | ReplicateAToB | ReplicateBToA

fun combine_results ::
  "Contents option \<Rightarrow> 'la UploadObjectResult \<Rightarrow> 'lb UploadObjectResult \<Rightarrow> ('la, 'lb) mirrored_Lease next_step" where
  "combine_results c (UploadObjectComplete la) (UploadObjectComplete lb) = Return (UploadObjectComplete \<lparr>LeaseA = la, LeaseB = lb\<rparr>)"
| "combine_results c (UploadObjectComplete la) (UploadObjectIncomplete cb wb) = Return (UploadObjectIncomplete c wb)"
| "combine_results c (UploadObjectComplete la) UploadObjectMissing = ReplicateAToB"
| "combine_results c (UploadObjectIncomplete ca wa) (UploadObjectComplete lb) = Return (UploadObjectIncomplete c wa)"
| "combine_results c (UploadObjectIncomplete ca wa) (UploadObjectIncomplete cb wb) = Return (UploadObjectIncomplete c (merge_wanted wa wb))"
| "combine_results c (UploadObjectIncomplete ca wa) UploadObjectMissing = ReplicateAToB"
| "combine_results c UploadObjectMissing (UploadObjectComplete lb) = ReplicateBToA"
| "combine_results c UploadObjectMissing (UploadObjectIncomplete cb wb) = ReplicateBToA"
| "combine_results c UploadObjectMissing UploadObjectMissing = Return UploadObjectMissing"

definition extract_contents :: "Contents option \<Rightarrow> 'l UploadObjectResult \<Rightarrow> Contents option" where
  "extract_contents contents result =
     (case contents of
        Some c \<Rightarrow> Some c
      | None \<Rightarrow> (case result of UploadObjectIncomplete c w \<Rightarrow> c | _ \<Rightarrow> None))"

text \<open>The contents to replicate, or what to return if they cannot be downloaded.\<close>

definition contents_to_replicate ::
  "('s, 'r) Downloader \<Rightarrow> 's \<Rightarrow> 'r \<Rightarrow> Contents option \<Rightarrow> ('l UploadObjectResult result + Contents) \<times> 's" where
  "contents_to_replicate replica s reference contents =
     (case contents of
        Some c \<Rightarrow> (Inr c, s)
      | None \<Rightarrow>
          (case DownloadObject replica s reference of
             (Inl err, s) \<Rightarrow> (Inl (if err \<noteq> Status NotFound then Inl err else Inr UploadObjectMissing), s)
           | (Inr c, s) \<Rightarrow> (Inr c, s)))"

text \<open>The loop repeats after an object was replicated. A loop that does not end is \<open>None\<close>.\<close>

partial_function (option) mirrored_loop ::
  "('a, 'b, 'r, 'la, 'lb) replicas \<Rightarrow> 'r \<Rightarrow> 'la list \<Rightarrow> 'lb list \<Rightarrow> bool \<Rightarrow> Contents option \<Rightarrow> 'la UploadObjectResult
     \<Rightarrow> 'lb UploadObjectResult \<Rightarrow> 'a \<Rightarrow> 'b \<Rightarrow> (('la, 'lb) mirrored_Lease UploadObjectResult result \<times> 'a \<times> 'b) option" where [code]:
  "mirrored_loop u reference childrenLeasesA childrenLeasesB wantContentsIfIncomplete contents resultA resultB a b =
     (let contents = extract_contents (extract_contents contents resultA) resultB in
      case combine_results (if wantContentsIfIncomplete then contents else None) resultA resultB of
        Return result \<Rightarrow> Some (Inr result, a, b)
      | ReplicateAToB \<Rightarrow>
          (case contents_to_replicate (store_Downloader (replicaA u)) a reference contents of
             (Inl result, a) \<Rightarrow> Some (result, a, b)
           | (Inr contents, a) \<Rightarrow>
               case UploadObject (store_Uploader (replicaB u)) b reference (Some contents) childrenLeasesB False of
                 (Inl err, b) \<Rightarrow> Some (Inl err, a, b)
               | (Inr resultB, b) \<Rightarrow>
                   mirrored_loop u reference childrenLeasesA childrenLeasesB wantContentsIfIncomplete (Some contents) resultA resultB a b)
      | ReplicateBToA \<Rightarrow>
          (case contents_to_replicate (store_Downloader (replicaB u)) b reference contents of
             (Inl result, b) \<Rightarrow> Some (result, a, b)
           | (Inr contents, b) \<Rightarrow>
               case UploadObject (store_Uploader (replicaA u)) a reference (Some contents) childrenLeasesA False of
                 (Inl err, a) \<Rightarrow> Some (Inl err, a, b)
               | (Inr resultA, a) \<Rightarrow>
                   mirrored_loop u reference childrenLeasesA childrenLeasesB wantContentsIfIncomplete (Some contents) resultA resultB a b))"

text \<open>
  Both replicas are called at the same time and share no state. If both fail, the error of the one that fails first
  is returned: \<open>bFirst\<close> tells which one that is.
\<close>

definition mirrored_UploadObject ::
  "bool \<Rightarrow> ('a, 'b, 'r, 'la, 'lb) replicas \<Rightarrow> 'a \<times> 'b \<Rightarrow> 'r \<Rightarrow> Contents option \<Rightarrow> ('la, 'lb) mirrored_Lease list \<Rightarrow> bool
     \<Rightarrow> (('la, 'lb) mirrored_Lease UploadObjectResult result \<times> 'a \<times> 'b) option" where
  "mirrored_UploadObject bFirst u = (\<lambda>(a, b) reference contents childrenLeases wantContentsIfIncomplete.
     let childrenLeasesA = map LeaseA childrenLeases;
         childrenLeasesB = map LeaseB childrenLeases;
         (ra, a) = UploadObject (store_Uploader (replicaA u)) a reference contents childrenLeasesA wantContentsIfIncomplete;
         (rb, b) = UploadObject (store_Uploader (replicaB u)) b reference contents childrenLeasesB wantContentsIfIncomplete
     in case (ra, rb) of
          (Inl errA, Inl errB) \<Rightarrow> Some (Inl (if bFirst then errB else errA), a, b)
        | (Inl err, Inr _) \<Rightarrow> Some (Inl err, a, b)
        | (Inr _, Inl err) \<Rightarrow> Some (Inl err, a, b)
        | (Inr resultA, Inr resultB) \<Rightarrow>
            mirrored_loop u reference childrenLeasesA childrenLeasesB wantContentsIfIncomplete contents resultA resultB a b)"


section \<open>Contracts\<close>

text \<open>Downloads yield contents that match the reference.\<close>

locale downloader_contract =
  fixes D :: "('s, 'r) Downloader" and loc :: "'r \<Rightarrow> LocalReference"
  assumes authentic: "DownloadObject D s r = (Inr c, s') \<Longrightarrow> contents_of (loc r) c"

text \<open>Objects that are uploaded along with their contents are not reported as missing.\<close>

locale uploader_contract =
  fixes U :: "('s, 'r, 'l) Uploader"
  assumes not_missing: "UploadObject U s r (Some c) leases want = (Inr result, s') \<Longrightarrow> result \<noteq> UploadObjectMissing"

text \<open>Leases round trip.\<close>

locale lease_marshaler =
  fixes M :: "'l LeaseMarshaler"
  assumes marshal_append: "lease_Marshal M lease dst = dst @ lease_Marshal M lease []"
    and unmarshal_marshal: "lease_Unmarshal M (lease_Marshal M lease []) = Inr lease"
begin

lemma unmarshal_leases_marshal:
  assumes "\<And>l. lease_Marshal M l [] \<noteq> []"
  shows "unmarshal_leases M zero (map (\<lambda>l. lease_Marshal M l []) leases) = Inr leases"
  using assms by (induction leases) (simp_all add: unmarshal_marshal bindE_def)

text \<open>Transmitting leases as bytes makes no difference.\<close>

lemma marshaling_transparent:
  assumes "\<And>l. lease_Marshal M l [] \<noteq> []"
  shows "\<exists>n'. marshaling_UploadObject base M zero (s, n) r c (map (\<lambda>l. lease_Marshal M l []) leases) want
    = (case UploadObject base s r c leases want of (x, s') \<Rightarrow>
        (map_sum id (map_UploadObjectResult (\<lambda>l. lease_Marshal M l [])) x, (s', n')))"
  by (auto simp: marshaling_UploadObject_def unmarshal_leases_marshal [OF assms] Let_def
      split: prod.splits sum.splits UploadObjectResult.splits)

end

subsection \<open>Leases\<close>

lemma varint_code_lease:
  fixes x :: uint64
  shows "AppendForward dst (uint x) = dst @ varint_code (SizeBytes (uint x)) (uint x)"
    "ConsumeForward (Unsigned 64) (varint_code (SizeBytes (uint x)) (uint x) @ rest) = (uint x, int (SizeBytes (uint x)))"
    "1 \<le> SizeBytes (uint x)"
proof -
  have r: "uint x \<in> int_type_range (Unsigned 64)" "int_type_wf (Unsigned 64)" using uint_bounded [of x] by simp_all
  then have v: "uint x \<in> varint_range" using int_type_range_varint by blast
  show "AppendForward dst (uint x) = dst @ varint_code (SizeBytes (uint x)) (uint x)" using v by (rule AppendForward_eq)
  show "ConsumeForward (Unsigned 64) (varint_code (SizeBytes (uint x)) (uint x) @ rest) = (uint x, int (SizeBytes (uint x)))"
    using r(2,1) by (rule ConsumeForward_code)
  show "1 \<le> SizeBytes (uint x)" using SizeBytes_bounds v by auto
qed

interpretation flatbacked_leases: lease_marshaler flatbackedLeaseMarshaler
  using varint_code_lease(2) [where rest = "[]"]
  by unfold_locales (simp_all add: flatbackedLeaseMarshaler_def MarshalLease_def UnmarshalLease_def varint_code_lease(1))

lemma mirrored_lease_marshaler:
  assumes A: "lease_marshaler A" and B: "lease_marshaler B" and "\<And>l. length (lease_Marshal A l []) < 2 ^ 63"
  shows "lease_marshaler (NewLeaseMarshaler A B)"
    and "lease_Marshal (NewLeaseMarshaler A B) lease [] \<noteq> []"
proof -
  let ?a = "\<lambda>l. lease_Marshal A (LeaseA l) []" and ?b = "\<lambda>l. lease_Marshal B (LeaseB l) []"
  let ?x = "\<lambda>l. of_nat (length (?a l)) :: uint64"
  let ?code = "\<lambda>l. varint_code (SizeBytes (int (length (?a l)))) (int (length (?a l)))"
  have x: "uint (?x l) = int (length (?a l))" for l
    using assms(3) [of "LeaseA l"] by (simp add: unsigned_of_nat take_bit_nat_eq_self)
  note code = varint_code_lease [where x = "?x l" for l, unfolded x]
  have m: "lease_Marshal (NewLeaseMarshaler A B) l dst = dst @ ?a l @ ?b l @ rev (?code l)" for l dst
    using lease_marshaler.marshal_append [OF A, of "LeaseA l" dst] lease_marshaler.marshal_append [OF B, of "LeaseB l" "dst @ ?a l"]
    by (simp add: NewLeaseMarshaler_def mirrored_MarshalLease_def Let_def AppendBackward_eq code(1))
  have "lease_Unmarshal (NewLeaseMarshaler A B) (?a l @ ?b l @ rev (?code l)) = Inr l" for l
    using lease_marshaler.unmarshal_marshal [OF A, of "LeaseA l"] lease_marshaler.unmarshal_marshal [OF B, of "LeaseB l"]
    by (simp add: NewLeaseMarshaler_def mirrored_UnmarshalLease_def ConsumeBackward_eq code(2) Let_def bindE_def)
  then show "lease_marshaler (NewLeaseMarshaler A B)" using m by unfold_locales simp_all
  have "length (?code lease) \<noteq> 0" using code(3) [of lease] by (simp only: length_varint_code)
  then have "rev (?code lease) \<noteq> []" by (simp only: length_0_conv rev_is_Nil_conv not_False_eq_True)
  then show "lease_Marshal (NewLeaseMarshaler A B) lease [] \<noteq> []" unfolding m by simp
qed

subsection \<open>Downloads\<close>

text \<open>The size and the hash of an object only depend on the part of the reference that its flat version keeps.\<close>

lemma flat_part_fields:
  assumes "take 35 (rawReference r) = take 35 (rawReference r')"
  shows "GetHash r = GetHash r'" "GetSizeBytes r = GetSizeBytes r'"
proof -
  have "take 32 (take 35 (rawReference r)) = take 32 (take 35 (rawReference r'))" using assms by simp
  then show "GetHash r = GetHash r'" by (simp add: GetHash_def)
  have "Uint32_at b 32 AND 0xffffff = (of_le (take 3 (drop 32 (take 35 b))) :: uint32)" for b
  proof (rule bit_word_eqI)
    fix n assume "n < LENGTH(32)"
    have "(0xffffff :: uint32) = mask 24" by (simp add: mask_eq_exp_minus_1)
    then have "bit (0xffffff :: uint32) n \<longleftrightarrow> bit (mask 24 :: uint32) n" by (simp only:)
    then have "bit (0xffffff :: uint32) n \<longleftrightarrow> n < 24" using \<open>n < LENGTH(32)\<close> by (simp add: bit_mask_iff del: bit_numeral_iff)
    moreover have "n < 24 \<longleftrightarrow> n div 8 < 3" by (simp add: div_less_iff_less_mult)
    ultimately show "bit (Uint32_at b 32 AND 0xffffff) n = bit (of_le (take 3 (drop 32 (take 35 b))) :: uint32) n"
      by (auto simp: Uint32_at_def bit_and_iff bit_of_le drop_take)
  qed
  then show "GetSizeBytes r = GetSizeBytes r'" using assms by (simp add: GetSizeBytes_def)
qed

lemma Unflatten_contents_of:
  assumes "contents_of (FlatReference_GetLocalReference (Flatten r)) c" "Unflatten c r = Inr c'"
  shows "contents_of r c'"
proof -
  have take: "take 35 (rawReference r) = take 35 (rawReference (contents_reference c))" and c': "c' = cloneWithReference c r"
    using assms(2) by (auto simp: Unflatten_def Let_def split: if_splits option.splits)
  have "contents_reference c' = r" "contents_data c' = contents_data c" by (simp_all add: c' cloneWithReference_def)
  moreover have "length (contents_data c) = GetSizeBytes (contents_reference c)" "Sum256 (contents_data c) = GetHash (contents_reference c)"
    using assms(1) unfolding contents_of_def by metis+
  ultimately show ?thesis using flat_part_fields [OF take] by (simp add: contents_of_def)
qed

interpretation local_downloads: downloader_contract "store_Downloader (local_store s)" FlatReference_GetLocalReference for s
  by unfold_locales (auto simp: local_store_def dest: local_DownloadObject_read readObjectAtLocation_integrity)

lemma existence_contract:
  "downloader_contract D loc \<Longrightarrow> downloader_contract \<lparr>DownloadObject = existence_DownloadObject D\<rparr> loc"
  by unfold_locales (auto simp: existence_DownloadObject_def dest: downloader_contract.authentic split: prod.splits sum.splits)

lemma namespace_contracts:
  assumes "downloader_contract D loc"
  shows "(\<And>r. loc (with r) = r) \<Longrightarrow> downloader_contract \<lparr>DownloadObject = namespaceAdding_DownloadObject D with\<rparr> id"
    and "loc = id \<Longrightarrow> downloader_contract \<lparr>DownloadObject = namespaceRemoving_DownloadObject D get\<rparr> get"
  using downloader_contract.authentic [OF assms]
  by (unfold_locales; fastforce simp: namespaceAdding_DownloadObject_def namespaceRemoving_DownloadObject_def)+

lemma readcaching_contract:
  assumes "downloader_contract (slow d) (rc_GetLocalReference d)"
    and "downloader_contract (store_Downloader (fast d)) FlatReference_GetLocalReference"
    and "\<And>r. rc_Flatten d r = Flatten (rc_GetLocalReference d r)"
  shows "downloader_contract \<lparr>DownloadObject = readcaching_DownloadObject d\<rparr> (rc_GetLocalReference d)"
  using downloader_contract.authentic [OF assms(1)] downloader_contract.authentic [OF assms(2)] assms(3)
  by unfold_locales (auto simp: readcaching_DownloadObject_def Let_def dest: Unflatten_contents_of [rotated]
      split: prod.splits sum.splits if_splits UploadObjectResult.splits)

lemma flatbacked_contract:
  assumes "downloader_contract (store_Downloader (fb_base s)) FlatReference_GetLocalReference"
  shows "downloader_contract \<lparr>DownloadObject = fb_DownloadObject s\<rparr> id"
  using downloader_contract.authentic [OF assms]
  by unfold_locales (auto simp: fb_DownloadObject_def dest: Unflatten_contents_of [rotated] split: prod.splits sum.splits)

lemma unidirectional_authentic:
  assumes "downloader_contract (store_Downloader F) loc" "downloader_contract (store_Downloader S) loc"
    and "unidirectional_downloadObject F S f s r = (Inr c, f', s')"
  shows "contents_of (loc r) c"
  using downloader_contract.authentic [OF assms(1)] downloader_contract.authentic [OF assms(2)] assms(3)
  by (auto simp: unidirectional_downloadObject_def split: prod.splits sum.splits if_splits)

lemma mirrored_contract:
  assumes "downloader_contract (store_Downloader (replicaA d)) loc" "downloader_contract (store_Downloader (replicaB d)) loc"
  shows "downloader_contract \<lparr>DownloadObject = mirrored_DownloadObject d\<rparr> loc"
  by unfold_locales (auto simp: mirrored_DownloadObject_def Let_def split: prod.splits if_splits
      intro: unidirectional_authentic [OF assms] unidirectional_authentic [OF assms(2,1)])

lemma sharded_contract:
  assumes "\<And>D. D \<in> set (d_shards d) \<Longrightarrow> downloader_contract D loc"
  shows "downloader_contract \<lparr>DownloadObject = sharded_DownloadObject d\<rparr> loc"
  by unfold_locales (auto simp: sharded_DownloadObject_def Let_def not_le split: prod.splits if_splits
      dest!: downloader_contract.authentic [OF assms, OF nth_mem])

subsection \<open>Uploads\<close>

interpretation local_uploads: uploader_contract "store_Uploader (local_store s)" for s
  by unfold_locales (auto simp: local_store_def local_UploadObject_def Let_def
      split: sum.splits prod.splits option.splits if_splits)

lemma flatbacked_uploads: "uploader_contract (store_Uploader (fb_base s)) \<Longrightarrow> uploader_contract \<lparr>UploadObject = fb_UploadObject s now\<rparr>"
  by unfold_locales (auto simp: fb_UploadObject_def base_upload_def Let_def dest!: uploader_contract.not_missing
      split: sum.splits prod.splits if_splits UploadObjectResult.splits)

lemma sharded_uploads:
  assumes "\<And>U. U \<in> set (u_shards u) \<Longrightarrow> uploader_contract U"
  shows "uploader_contract \<lparr>UploadObject = sharded_UploadObject u\<rparr>"
  by unfold_locales (auto simp: sharded_UploadObject_def Let_def not_le split: prod.splits if_splits
      dest!: uploader_contract.not_missing [OF assms, OF nth_mem])

lemma set_merge_wanted: "set (merge_wanted v w) = set v \<union> set w"
  by (induction v w rule: merge_wanted.induct) auto

lemma sorted_merge_wanted: "sorted_wrt (<) v \<Longrightarrow> sorted_wrt (<) w \<Longrightarrow> sorted_wrt (<) (merge_wanted v w)"
proof (induction v w rule: merge_wanted.induct)
  case (1 x v y w)
  then show ?case by (auto simp: set_merge_wanted)
qed auto

text \<open>
  A result that a replica returned for an object, in the state that it left behind or in the one after a
  subsequent download of the object.
\<close>

definition reported :: "('s, 'r, 'l) Store \<Rightarrow> 'r \<Rightarrow> 'l list \<Rightarrow> 's \<Rightarrow> 'l UploadObjectResult \<Rightarrow> bool" where
  "reported R r leases s res \<longleftrightarrow> (\<exists>s0 s1 c want. UploadObject (store_Uploader R) s0 r c leases want = (Inr res, s1)
     \<and> (s = s1 \<or> s = snd (DownloadObject (store_Downloader R) s1 r)))"

definition wanted :: "'l UploadObjectResult \<Rightarrow> nat list" where
  "wanted res = (case res of UploadObjectIncomplete c w \<Rightarrow> w | _ \<Rightarrow> [])"

definition mirrored_outcome ::
  "('a, 'b, 'r, 'la, 'lb) replicas \<Rightarrow> 'r \<Rightarrow> ('la, 'lb) mirrored_Lease list \<Rightarrow> Contents option \<Rightarrow> bool
     \<Rightarrow> ('la, 'lb) mirrored_Lease UploadObjectResult result \<Rightarrow> 'a \<Rightarrow> 'b \<Rightarrow> bool" where
  "mirrored_outcome u r leases c want res a b \<longleftrightarrow>
     (case res of
        Inl err \<Rightarrow> True
      | Inr UploadObjectMissing \<Rightarrow> c = None
      | Inr (UploadObjectComplete l) \<Rightarrow>
          reported (replicaA u) r (map LeaseA leases) a (UploadObjectComplete (LeaseA l))
          \<and> reported (replicaB u) r (map LeaseB leases) b (UploadObjectComplete (LeaseB l))
      | Inr (UploadObjectIncomplete cs w) \<Rightarrow> (\<not> want \<longrightarrow> cs = None)
          \<and> (\<exists>ra rb. reported (replicaA u) r (map LeaseA leases) a ra \<and> reported (replicaB u) r (map LeaseB leases) b rb
               \<and> ra \<noteq> UploadObjectMissing \<and> rb \<noteq> UploadObjectMissing \<and> set w = set (wanted ra) \<union> set (wanted rb)
               \<and> (sorted_wrt (<) (wanted ra) \<and> sorted_wrt (<) (wanted rb) \<longrightarrow> sorted_wrt (<) w)))"

lemma combine_results_present:
  assumes "ra \<noteq> UploadObjectMissing" "rb \<noteq> UploadObjectMissing"
    and "reported (replicaA u) r (map LeaseA leases) a ra" "reported (replicaB u) r (map LeaseB leases) b rb"
  shows "\<exists>res. combine_results (if want then cs else None) ra rb = Return res \<and> mirrored_outcome u r leases c want (Inr res) a b"
  using assms
  by (cases "(if want then cs else None, ra, rb)" rule: combine_results.cases)
    (auto simp: mirrored_outcome_def wanted_def set_merge_wanted sorted_merge_wanted split: if_splits intro!: exI [of _ ra] exI [of _ rb])

lemma mirrored_loop_present:
  assumes "ra \<noteq> UploadObjectMissing" "rb \<noteq> UploadObjectMissing"
    and "reported (replicaA u) r (map LeaseA leases) a ra" "reported (replicaB u) r (map LeaseB leases) b rb"
  shows "\<exists>res. mirrored_loop u r (map LeaseA leases) (map LeaseB leases) want cs ra rb a b = Some (res, a, b)
    \<and> mirrored_outcome u r leases c want res a b"
  using combine_results_present [OF assms, of want "extract_contents (extract_contents cs ra) rb" c]
  by (subst mirrored_loop.simps) (auto simp: Let_def)

lemma reportedI:
  assumes "UploadObject (store_Uploader R) s0 r c leases want = (Inr res, s1)"
  shows "reported R r leases s1 res" "DownloadObject (store_Downloader R) s1 r = (x, s2) \<Longrightarrow> reported R r leases s2 res"
  using assms unfolding reported_def by (metis, metis snd_conv)

text \<open>The contents to replicate leave a result that was reported as it is.\<close>

lemma contents_to_replicate_reported:
  assumes "contents_to_replicate (store_Downloader R) s1 r contents = (x, s2)"
    and "UploadObject (store_Uploader R) s0 r c leases want = (Inr res, s1)"
  shows "reported R r leases s2 res" "x = Inl y \<Longrightarrow> contents = None \<and> (y = Inr UploadObjectMissing \<or> (\<exists>err. y = Inl err))"
  using assms reportedI [OF assms(2)]
  by (auto simp: contents_to_replicate_def split: option.splits prod.splits sum.splits if_splits)

lemma extract_contents_None: "extract_contents c res = None \<Longrightarrow> c = None"
  by (auto simp: extract_contents_def split: option.splits)

lemma mirrored_loop_AToB:
  fixes u :: "('a, 'b, 'r, 'la, 'lb) replicas"
  assumes B: "uploader_contract (store_Uploader (replicaB u))"
    and up: "UploadObject (store_Uploader (replicaA u)) s0 r c (map LeaseA leases) want = (Inr ra, a)"
    and missing: "ra \<noteq> UploadObjectMissing" "rb = UploadObjectMissing"
  shows "\<exists>res a' b'. mirrored_loop u r (map LeaseA leases) (map LeaseB leases) want c ra rb a b = Some (res, a', b')
    \<and> mirrored_outcome u r leases c want res a' b'"
proof -
  define cs' where "cs' = extract_contents (extract_contents c ra) rb"
  have noneD: "cs' = None \<Longrightarrow> c = None" unfolding cs'_def by (auto dest!: extract_contents_None)
  have comb: "combine_results (if want then cs' else None) ra rb = ReplicateAToB" using missing by (cases ra) auto
  note step = mirrored_loop.simps [of u r "map LeaseA leases" "map LeaseB leases" want c ra rb a b, folded cs'_def, unfolded Let_def, folded cs'_def, unfolded comb next_step.case]
  obtain x :: "('la, 'lb) mirrored_Lease UploadObjectResult result + Contents" and a1 where x: "contents_to_replicate (store_Downloader (replicaA u)) a r cs' = (x, a1)" by force
  note rep = contents_to_replicate_reported [OF x up]
  show ?thesis
  proof (cases x)
    case (Inl y)
    then have "mirrored_loop u r (map LeaseA leases) (map LeaseB leases) want c ra rb a b = Some (y, a1, b)"
      unfolding step using x by simp
    moreover have "c = None \<and> (y = Inr UploadObjectMissing \<or> (\<exists>err. y = Inl err))" using rep(2) [OF Inl] noneD by blast
    then have "mirrored_outcome u r leases c want y a' b'" for a' b' by (auto simp: mirrored_outcome_def)
    ultimately show ?thesis by blast
  next
    case cs: (Inr cs)
    obtain r1 b1 where r1: "UploadObject (store_Uploader (replicaB u)) b r (Some cs) (map LeaseB leases) False = (r1, b1)" by force
    show ?thesis
    proof (cases r1)
      case (Inl err)
      have "mirrored_loop u r (map LeaseA leases) (map LeaseB leases) want c ra rb a b = Some (Inl err, a1, b1)"
        by (rule trans [OF step]) (simp only: x cs r1 Inl prod.case sum.case)
      then show ?thesis by (intro exI conjI) (assumption, simp add: mirrored_outcome_def)
    next
      case (Inr rb1)
      then have "rb1 \<noteq> UploadObjectMissing" "reported (replicaB u) r (map LeaseB leases) b1 rb1"
        using uploader_contract.not_missing [OF B r1 [unfolded Inr]] reportedI(1) [OF r1 [unfolded Inr]] by simp_all
      then obtain res where "mirrored_loop u r (map LeaseA leases) (map LeaseB leases) want (Some cs) ra rb1 a1 b1 = Some (res, a1, b1)"
        "mirrored_outcome u r leases c want res a1 b1"
        using mirrored_loop_present [OF missing(1) _ rep(1), of rb1 b1 want "Some cs" c] by blast
      moreover have "mirrored_loop u r (map LeaseA leases) (map LeaseB leases) want c ra rb a b
          = mirrored_loop u r (map LeaseA leases) (map LeaseB leases) want (Some cs) ra rb1 a1 b1"
        by (rule trans [OF step]) (simp only: x cs r1 Inr prod.case sum.case)
      ultimately show ?thesis by metis
    qed
  qed
qed

lemma mirrored_loop_BToA:
  fixes u :: "('a, 'b, 'r, 'la, 'lb) replicas"
  assumes A: "uploader_contract (store_Uploader (replicaA u))"
    and up: "UploadObject (store_Uploader (replicaB u)) s0 r c (map LeaseB leases) want = (Inr rb, b)"
    and missing: "rb \<noteq> UploadObjectMissing" "ra = UploadObjectMissing"
  shows "\<exists>res a' b'. mirrored_loop u r (map LeaseA leases) (map LeaseB leases) want c ra rb a b = Some (res, a', b')
    \<and> mirrored_outcome u r leases c want res a' b'"
proof -
  define cs' where "cs' = extract_contents (extract_contents c ra) rb"
  have noneD: "cs' = None \<Longrightarrow> c = None" unfolding cs'_def by (auto dest!: extract_contents_None)
  have comb: "combine_results (if want then cs' else None) ra rb = ReplicateBToA" using missing by (cases rb) auto
  note step = mirrored_loop.simps [of u r "map LeaseA leases" "map LeaseB leases" want c ra rb a b, folded cs'_def, unfolded Let_def, folded cs'_def, unfolded comb next_step.case]
  obtain x :: "('la, 'lb) mirrored_Lease UploadObjectResult result + Contents" and b1 where x: "contents_to_replicate (store_Downloader (replicaB u)) b r cs' = (x, b1)" by force
  note rep = contents_to_replicate_reported [OF x up]
  show ?thesis
  proof (cases x)
    case (Inl y)
    then have "mirrored_loop u r (map LeaseA leases) (map LeaseB leases) want c ra rb a b = Some (y, a, b1)"
      unfolding step using x by simp
    moreover have "c = None \<and> (y = Inr UploadObjectMissing \<or> (\<exists>err. y = Inl err))" using rep(2) [OF Inl] noneD by blast
    then have "mirrored_outcome u r leases c want y a' b'" for a' b' by (auto simp: mirrored_outcome_def)
    ultimately show ?thesis by blast
  next
    case cs: (Inr cs)
    obtain r1 a1 where r1: "UploadObject (store_Uploader (replicaA u)) a r (Some cs) (map LeaseA leases) False = (r1, a1)" by force
    show ?thesis
    proof (cases r1)
      case (Inl err)
      have "mirrored_loop u r (map LeaseA leases) (map LeaseB leases) want c ra rb a b = Some (Inl err, a1, b1)"
        by (rule trans [OF step]) (simp only: x cs r1 Inl prod.case sum.case)
      then show ?thesis by (intro exI conjI) (assumption, simp add: mirrored_outcome_def)
    next
      case (Inr ra1)
      then have "ra1 \<noteq> UploadObjectMissing" "reported (replicaA u) r (map LeaseA leases) a1 ra1"
        using uploader_contract.not_missing [OF A r1 [unfolded Inr]] reportedI(1) [OF r1 [unfolded Inr]] by simp_all
      then obtain res where "mirrored_loop u r (map LeaseA leases) (map LeaseB leases) want (Some cs) ra1 rb a1 b1 = Some (res, a1, b1)"
        "mirrored_outcome u r leases c want res a1 b1"
        using mirrored_loop_present [OF _ missing(1) _ rep(1), of ra1 a1 want "Some cs" c] by blast
      moreover have "mirrored_loop u r (map LeaseA leases) (map LeaseB leases) want c ra rb a b
          = mirrored_loop u r (map LeaseA leases) (map LeaseB leases) want (Some cs) ra1 rb a1 b1"
        by (rule trans [OF step]) (simp only: x cs r1 Inr prod.case sum.case)
      ultimately show ?thesis by metis
    qed
  qed
qed

lemma mirrored_loop_outcome:
  assumes A: "uploader_contract (store_Uploader (replicaA u))" and B: "uploader_contract (store_Uploader (replicaB u))"
    and ua: "UploadObject (store_Uploader (replicaA u)) a0 r c (map LeaseA leases) want = (Inr ra, a)"
    and ub: "UploadObject (store_Uploader (replicaB u)) b0 r c (map LeaseB leases) want = (Inr rb, b)"
  shows "\<exists>res a' b'. mirrored_loop u r (map LeaseA leases) (map LeaseB leases) want c ra rb a b = Some (res, a', b')
    \<and> mirrored_outcome u r leases c want res a' b'"
proof (cases "ra = UploadObjectMissing"; cases "rb = UploadObjectMissing")
  assume none: "ra = UploadObjectMissing" "rb = UploadObjectMissing"
  then have "c = None" using uploader_contract.not_missing [OF A, of a0 r _ _ want ra a] ua by (cases c) auto
  then show ?thesis using none by (subst mirrored_loop.simps) (simp add: mirrored_outcome_def)
next
  assume "ra \<noteq> UploadObjectMissing" "rb \<noteq> UploadObjectMissing"
  then show ?thesis using mirrored_loop_present [OF _ _ reportedI(1) [OF ua] reportedI(1) [OF ub]] by fast
qed (use mirrored_loop_AToB [OF B ua] mirrored_loop_BToA [OF A ub] in blast)+

definition flatbacked_Store :: "('s, 'm) flatbacked_store \<Rightarrow> Flat_Backed.Lease \<Rightarrow> ('s \<times> 'm, LocalReference, Flat_Backed.Lease) Store" where
  "flatbacked_Store s now = NewStore_object \<lparr>DownloadObject = fb_DownloadObject s\<rparr> \<lparr>UploadObject = fb_UploadObject s now\<rparr>"

lemma flatbacked_local_contract:
  "downloader_contract (store_Downloader (flatbacked_Store
     \<lparr>fb_base = local_store l, leaseCompletenessDuration = duration, leasesMap = m\<rparr> now)) id"
  using flatbacked_contract [of "\<lparr>fb_base = local_store l, leaseCompletenessDuration = duration, leasesMap = m\<rparr>"]
    local_downloads.downloader_contract_axioms [of l] by (simp add: flatbacked_Store_def NewStore_object_def)

section \<open>Properties\<close>

text \<open>
  C7. Mirroring: if neither replica reports an object as missing that is uploaded along with its contents, then an upload to both
  returns, whatever else they do. Completeness is reported only if both replicas reported it, with the pair of their
  leases; if the object is incomplete, the leases that are asked for are the union of those that the replicas asked for, in
  order; and it is reported as missing only if the caller did not provide its contents.
\<close>

theorem mirrored_upload_outcome:
  assumes "uploader_contract (store_Uploader (replicaA u))" "uploader_contract (store_Uploader (replicaB u))"
  shows "\<exists>res a' b'. mirrored_UploadObject bFirst u (a, b) r c leases want = Some (res, a', b')
    \<and> mirrored_outcome u r leases c want res a' b'"
proof -
  obtain ra a1 where ua: "UploadObject (store_Uploader (replicaA u)) a r c (map LeaseA leases) want = (ra, a1)" by force
  obtain rb b1 where ub: "UploadObject (store_Uploader (replicaB u)) b r c (map LeaseB leases) want = (rb, b1)" by force
  show ?thesis using ua ub mirrored_loop_outcome [OF assms]
    by (cases ra; cases rb) (auto simp: mirrored_UploadObject_def mirrored_outcome_def Let_def)
qed

text \<open>
  C6. Downloads through a stack of decorators are authentic: if objects are read through a cache that is a local store from two
  mirrored stores that are both backed by local stores, everything that is returned has the size and the hash that the
  reference promises, and objects that do not exist are reported as a failed precondition. This holds
  whatever the devices, maps and caches of those stores contain.
\<close>

theorem decorated_downloads_authentic:
  assumes "d = \<lparr>slow = \<lparr>DownloadObject = mirrored_DownloadObject
        \<lparr>replicaA = flatbacked_Store \<lparr>fb_base = local_store lA, leaseCompletenessDuration = durationA, leasesMap = mA\<rparr> nowA,
         replicaB = flatbacked_Store \<lparr>fb_base = local_store lB, leaseCompletenessDuration = durationB, leasesMap = mB\<rparr> nowB\<rparr>\<rparr>,
      fast = local_store lF, rc_Flatten = Flatten, rc_GetLocalReference = id\<rparr>"
    and "existence_DownloadObject \<lparr>DownloadObject = readcaching_DownloadObject d\<rparr> st r = (x, st')"
  shows "(\<forall>c. x = Inr c \<longrightarrow> contents_of r c) \<and> x \<noteq> Inl (Status NotFound)"
proof -
  have "downloader_contract (slow d) (rc_GetLocalReference d)"
    by (simp add: assms(1) mirrored_contract flatbacked_local_contract)
  then have "downloader_contract \<lparr>DownloadObject = readcaching_DownloadObject d\<rparr> id"
    using readcaching_contract [of d] local_downloads.downloader_contract_axioms [of lF] by (simp add: assms(1))
  then have "downloader_contract \<lparr>DownloadObject = existence_DownloadObject \<lparr>DownloadObject = readcaching_DownloadObject d\<rparr>\<rparr> id"
    by (rule existence_contract)
  from downloader_contract.authentic [OF this, of st r]
  show ?thesis using assms(2) by (auto simp: existence_DownloadObject_def split: prod.splits sum.splits if_splits)
qed

text \<open>
  C36. Leases can be transmitted as bytes: the uploader that marshals leases behaves as the one that it decorates, for
  leases of flat-backed stores and for leases of mirrored ones, also if mirrors are nested. Trailing bytes of a lease
  are rejected.
\<close>

theorem lease_marshaling_transparent:
  assumes "M = NewLeaseMarshaler flatbackedLeaseMarshaler (NewLeaseMarshaler flatbackedLeaseMarshaler flatbackedLeaseMarshaler)"
  shows "(\<exists>n'. marshaling_UploadObject base M zero (s, n) r c (map (\<lambda>l. lease_Marshal M l []) leases) want
      = (case UploadObject base s r c leases want of (x, s') \<Rightarrow>
          (map_sum id (map_UploadObjectResult (\<lambda>l. lease_Marshal M l [])) x, (s', n'))))
    \<and> UnmarshalLease (MarshalLease lease [] @ [x]) = Inl (Status InvalidArgument)"
proof -
  have "SizeBytes (uint l) \<le> 10" for l :: Flat_Backed.Lease
  proof -
    have "uint l \<in> int_type_range (Unsigned 64)" using uint_bounded [of l] by simp
    then show ?thesis using SizeBytes_bounds(2) int_type_range_varint [of "Unsigned 64"] by auto
  qed
  then have len: "length (lease_Marshal flatbackedLeaseMarshaler l []) < 2 ^ 63" for l
    by (simp add: flatbackedLeaseMarshaler_def MarshalLease_def varint_code_lease(1) le_less_trans [of _ 10])
  note pair = mirrored_lease_marshaler [OF flatbacked_leases.lease_marshaler_axioms _ len]
  have M: "lease_marshaler M" "lease_Marshal M l [] \<noteq> []" for l
    unfolding assms using pair [OF pair(1) [OF flatbacked_leases.lease_marshaler_axioms]] by blast+
  have "UnmarshalLease (MarshalLease lease [] @ [x]) = Inl (Status InvalidArgument)"
    using varint_code_lease(2) [of lease "[x]"] by (simp add: MarshalLease_def UnmarshalLease_def varint_code_lease(1))
  with lease_marshaler.marshaling_transparent [OF M] show ?thesis by (rule conjI)
qed

section \<open>Concrete instances\<close>

definition example_replicas :: "(unit, unit, FlatReference, unit, unit) replicas" where
  "example_replicas = \<lparr>replicaA = example_flat_store, replicaB = example_flat_store\<rparr>"

theorem mirrored_upload_outcome_witness:
  "mirrored_UploadObject False example_replicas ((), ()) example_flat None [] True
     = Some (Inr (UploadObjectComplete \<lparr>LeaseA = (), LeaseB = ()\<rparr>), (), ())
   \<and> mirrored_outcome example_replicas example_flat [] None True (Inr (UploadObjectComplete \<lparr>LeaseA = (), LeaseB = ()\<rparr>)) () ()"
proof -
  have "mirrored_UploadObject False example_replicas ((), ()) example_flat None [] True
      = Some (Inr (UploadObjectComplete \<lparr>LeaseA = (), LeaseB = ()\<rparr>), (), ())"
    by (simp add: mirrored_UploadObject_def example_replicas_def example_flat_store_def NewStore_object_def mirrored_loop.simps)
  moreover have "uploader_contract (store_Uploader example_flat_store)"
    by unfold_locales (simp add: example_flat_store_def NewStore_object_def)
  ultimately show ?thesis using mirrored_upload_outcome [of example_replicas False "()" "()" example_flat None "[]" True]
    by (auto simp: example_replicas_def)
qed

definition example_stack where
  "example_stack = \<lparr>slow = \<lparr>DownloadObject = mirrored_DownloadObject
        \<lparr>replicaA = flatbacked_Store \<lparr>fb_base = local_store example_store, leaseCompletenessDuration = 20, leasesMap = leasesMap example_flatbacked\<rparr> 100,
         replicaB = flatbacked_Store \<lparr>fb_base = local_store example_store, leaseCompletenessDuration = 20, leasesMap = leasesMap example_flatbacked\<rparr> 100\<rparr>\<rparr>,
      fast = local_store example_store, rc_Flatten = Flatten, rc_GetLocalReference = id\<rparr>"

theorem decorated_downloads_authentic_witness:
  "\<exists>x st'. existence_DownloadObject \<lparr>DownloadObject = readcaching_DownloadObject example_stack\<rparr>
      ((0, (example_store_state, NewSimpleRecordArray zero_lease_record 4), (example_store_state, NewSimpleRecordArray zero_lease_record 4)), example_store_state)
      (contents_reference example_leaf) = (x, st') \<and> x \<noteq> Inl (Status NotFound)"
proof -
  let ?st = "((0, (example_store_state, NewSimpleRecordArray zero_lease_record 4), (example_store_state, NewSimpleRecordArray zero_lease_record 4)), example_store_state)"
  obtain x st' where x: "existence_DownloadObject \<lparr>DownloadObject = readcaching_DownloadObject example_stack\<rparr> ?st (contents_reference example_leaf) = (x, st')"
    by (meson surj_pair)
  show ?thesis using decorated_downloads_authentic [OF example_stack_def x] x by blast
qed

definition example_marshaler where
  "example_marshaler = NewLeaseMarshaler flatbackedLeaseMarshaler (NewLeaseMarshaler flatbackedLeaseMarshaler flatbackedLeaseMarshaler)"

definition example_echo :: "(unit, unit, 'l) Uploader" where
  "example_echo = \<lparr>UploadObject = (\<lambda>s r c leases want. (Inr (UploadObjectComplete (hd leases)), s))\<rparr>"

theorem lease_marshaling_transparent_witness:
  "\<exists>n'. marshaling_UploadObject example_echo example_marshaler \<lparr>LeaseA = 0, LeaseB = \<lparr>LeaseA = 0, LeaseB = 0\<rparr>\<rparr> ((), 0) () None
      [lease_Marshal example_marshaler \<lparr>LeaseA = 1, LeaseB = \<lparr>LeaseA = 1000, LeaseB = 100000\<rparr>\<rparr> []] False
    = (Inr (UploadObjectComplete (lease_Marshal example_marshaler \<lparr>LeaseA = 1, LeaseB = \<lparr>LeaseA = 1000, LeaseB = 100000\<rparr>\<rparr> [])), ((), n'))"
  using lease_marshaling_transparent [OF example_marshaler_def, of example_echo "\<lparr>LeaseA = 0, LeaseB = \<lparr>LeaseA = 0, LeaseB = 0\<rparr>\<rparr>"
      "()" 0 "()" None "[\<lparr>LeaseA = 1, LeaseB = \<lparr>LeaseA = 1000, LeaseB = 100000\<rparr>\<rparr>]" False]
  by (simp add: example_echo_def)

end
