(* ===== verification/Run.thy ===== *)
theory Run
  imports Prelude
begin

text \<open>
  Computations with loops that are not known to end, and the access to an element of a slice.
\<close>

text \<open>A computation that may panic or fail, and that is \<open>None\<close> if it does not return.\<close>

type_synonym 'a run = "'a result option"

definition bindR :: "'a run \<Rightarrow> ('a \<Rightarrow> 'b run) \<Rightarrow> 'b run" where
  "bindR m f = Option.bind m (\<lambda>r. case r of Inl err \<Rightarrow> Some (Inl err) | Inr x \<Rightarrow> f x)"

abbreviation returnR :: "'a \<Rightarrow> 'a run" where "returnR x \<equiv> Some (Inr x)"

abbreviation failR :: "go_error \<Rightarrow> 'a run" where "failR err \<equiv> Some (Inl err)"

lemma bindR_simps [simp]:
  "bindR None f = None" "bindR (Some (Inl err)) f = Some (Inl err)" "bindR (Some (Inr x)) f = f x"
  by (simp_all add: bindR_def)

lemma bindR_eq_Inr [simp]: "bindR m f = Some (Inr y) \<longleftrightarrow> (\<exists>x. m = Some (Inr x) \<and> f x = Some (Inr y))"
  by (cases m; auto simp: bindR_def split: sum.splits)

lemma bindR_assoc: "bindR (bindR m f) g = bindR m (\<lambda>x. bindR (f x) g)"
  by (cases m) (auto simp: bindR_def split: sum.splits)

lemma bindR_mono [partial_function_mono]:
  assumes "mono_option B" "\<And>y. mono_option (C y)"
  shows "mono_option (\<lambda>f. bindR (B f) (\<lambda>y. C y f))"
  unfolding bindR_def using assms(1)
proof (rule bind_mono)
  show "mono_option (\<lambda>f. case r of Inl err \<Rightarrow> Some (Inl err) | Inr x \<Rightarrow> C x f)" for r
    using assms(2) by (cases r) (simp_all add: option.const_mono)
qed

text \<open>\<open>xs[i]\<close>\<close>

definition index :: "'a list \<Rightarrow> 'i::len word \<Rightarrow> 'a run" where
  "index xs i = (if unat i < length xs then returnR (xs ! unat i) else failR Panic)"

end
