(* ===== verification/Glob_NFA.thy ===== *)
theory Glob_NFA
  imports Run
begin

text \<open>
  The nondeterministic finite automata that glob patterns are compiled to, and the matcher that runs them on paths.
  Patterns and paths are lists of runes: those that ranging over a Go string yields, which are
  never negative. An index that is out of range panics.
\<close>

type_synonym rune = nat

abbreviation (input) slash :: rune where "slash \<equiv> 0x2f"
abbreviation (input) asterisk :: rune where "asterisk \<equiv> 0x2a"

section \<open>States\<close>

text \<open>The bit fields of a state: see the comments on the fields of \<open>state\<close> in the source.\<close>

definition stateBits :: nat where
  "stateBits = (64 - 21) div 2"

definition stateMask :: uint64 where
  "stateMask = 2 ^ stateBits - 1"

type_synonym endState = uint64

definition endStateNone :: endState where "endStateNone = 0"

definition endStatePositive :: endState where "endStatePositive = 1"

definition endStateNegative :: endState where "endStateNegative = 2"

record state =
  wildcards :: uint64
  runes :: uint64

definition zero_state :: state where
  "zero_state = \<lparr>wildcards = 0, runes = 0\<rparr>"

definition getStarIndex :: "state \<Rightarrow> uint32" where
  "getStarIndex s = ucast (wildcards s AND stateMask)"

definition setStarIndex :: "uint32 \<Rightarrow> state \<Rightarrow> state" where
  "setStarIndex i s = s\<lparr>wildcards := (wildcards s AND NOT stateMask) OR ucast i\<rparr>"

definition getStarStarSlashIndex :: "state \<Rightarrow> uint32" where
  "getStarStarSlashIndex s = ucast (drop_bit stateBits (wildcards s) AND stateMask)"

definition setStarStarSlashIndex :: "uint32 \<Rightarrow> state \<Rightarrow> state" where
  "setStarStarSlashIndex i s =
     s\<lparr>wildcards := (wildcards s AND NOT (push_bit stateBits stateMask)) OR push_bit stateBits (ucast i)\<rparr>"

definition hasPositiveEndState :: uint64 where
  "hasPositiveEndState = push_bit (2 * stateBits) 1"

definition getHasPositiveEndState :: "state \<Rightarrow> bool" where
  "getHasPositiveEndState s \<longleftrightarrow> wildcards s AND push_bit (2 * stateBits) 1 \<noteq> 0"

definition setHasPositiveEndState :: "state \<Rightarrow> state" where
  "setHasPositiveEndState s = s\<lparr>wildcards := wildcards s OR hasPositiveEndState\<rparr>"

definition getEndState :: "state \<Rightarrow> endState" where
  "getEndState s = drop_bit (2 * stateBits + 1) (wildcards s)"

definition setEndState :: "endState \<Rightarrow> state \<Rightarrow> state" where
  "setEndState e s =
     s\<lparr>wildcards := (wildcards s AND (push_bit (2 * stateBits + 1) 1 - 1)) OR push_bit (2 * stateBits + 1) e\<rparr>"

definition getCurrentRune :: "state \<Rightarrow> rune" where
  "getCurrentRune s = unat (drop_bit (2 * stateBits) (runes s))"

definition initializeRune :: "rune \<Rightarrow> uint32 \<Rightarrow> state \<Rightarrow> state" where
  "initializeRune r nextRuneIndex s =
     s\<lparr>runes := push_bit (2 * stateBits) (of_nat r) OR push_bit stateBits (ucast nextRuneIndex)\<rparr>"

definition getFirstRuneIndex :: "state \<Rightarrow> uint32" where
  "getFirstRuneIndex s = ucast (runes s AND stateMask)"

definition setFirstRuneIndex :: "uint32 \<Rightarrow> state \<Rightarrow> state" where
  "setFirstRuneIndex i s = s\<lparr>runes := (runes s AND NOT stateMask) OR ucast i\<rparr>"

definition getNextRuneIndex :: "state \<Rightarrow> uint32" where
  "getNextRuneIndex s = ucast (drop_bit stateBits (runes s) AND stateMask)"

definition setNextRuneIndex :: "uint32 \<Rightarrow> state \<Rightarrow> state" where
  "setNextRuneIndex i s =
     s\<lparr>runes := (runes s AND NOT (push_bit stateBits stateMask)) OR push_bit stateBits (ucast i)\<rparr>"

section \<open>Construction\<close>

type_synonym states = "state list"

definition update :: "states \<Rightarrow> uint32 \<Rightarrow> (state \<Rightarrow> state) \<Rightarrow> states" where
  "update states i f = states[unat i := f (states ! unat i)]"

text \<open>Whether a rune in the linked list that starts at the given state leads to a positive end state.\<close>

partial_function (option) any_rune_positive :: "states \<Rightarrow> uint32 \<Rightarrow> bool run" where [code]:
  "any_rune_positive states i =
     (if i = 0 then returnR False
      else bindR (index states i) (\<lambda>s.
        if getHasPositiveEndState s then returnR True
        else any_rune_positive states (getNextRuneIndex s)))"

text \<open>One iteration of the loop of \<open>propagateHasPositiveEndState\<close>.\<close>

definition leads_to_positive :: "states \<Rightarrow> state \<Rightarrow> bool run" where
  "leads_to_positive states s =
     (if getEndState s = endStatePositive then returnR True
      else bindR (index states (getStarIndex s)) (\<lambda>star.
        if getHasPositiveEndState star then returnR True
        else bindR (index states (getStarStarSlashIndex s)) (\<lambda>starStarSlash.
          if getHasPositiveEndState starStarSlash then returnR True
          else any_rune_positive states (getFirstRuneIndex s))))"

fun propagate :: "nat \<Rightarrow> states \<Rightarrow> states run" where
  "propagate 0 states = returnR states"
| "propagate (Suc currentState) states =
     (if currentState = 0 then returnR states
      else bindR (leads_to_positive states (states ! currentState)) (\<lambda>b.
        propagate currentState
          (if b then states[currentState := setHasPositiveEndState (states ! currentState)] else states)))"

definition propagateHasPositiveEndState :: "states \<Rightarrow> states run" where
  "propagateHasPositiveEndState states = propagate (length states) states"

definition addState :: "states \<Rightarrow> (uint32 \<times> states) run" where
  "addState states =
     (let i = of_nat (length states) :: uint32 in
      if ucast i > stateMask then failR (ErrOther 0) else returnR (i, states @ [zero_state]))"

text \<open>
  The loop of \<open>getOrAddRune\<close>: the edge if it exists, and otherwise the states between which it is to be inserted.
\<close>

partial_function (option) find_rune :: "states \<Rightarrow> rune \<Rightarrow> uint32 \<Rightarrow> uint32 \<Rightarrow> (uint32 + uint32 \<times> uint32) run" where [code]:
  "find_rune states r previousState compareState =
     (if compareState = 0 then returnR (Inr (previousState, compareState))
      else bindR (index states compareState) (\<lambda>s.
        if getCurrentRune s = r then returnR (Inl compareState)
        else if getCurrentRune s > r then returnR (Inr (previousState, compareState))
        else find_rune states r compareState (getNextRuneIndex s)))"

definition getOrAddRune :: "states \<Rightarrow> uint32 \<Rightarrow> rune \<Rightarrow> (uint32 \<times> states) run" where
  "getOrAddRune states currentState r =
     bindR (index states currentState) (\<lambda>s.
     bindR (find_rune states r 0 (getFirstRuneIndex s)) (\<lambda>found.
       case found of
         Inl i \<Rightarrow> returnR (i, states)
       | Inr (previousState, compareState) \<Rightarrow>
           bindR (addState states) (\<lambda>(i, states).
             let states = (if previousState = 0 then update states currentState (setFirstRuneIndex i)
                           else update states previousState (setNextRuneIndex i))
             in returnR (i, update states i (initializeRune r compareState)))))"

definition getOrAddStar :: "states \<Rightarrow> uint32 \<Rightarrow> (uint32 \<times> states) run" where
  "getOrAddStar states currentState =
     bindR (index states currentState) (\<lambda>s.
       let i = getStarIndex s in
       if i \<noteq> 0 then returnR (i, states)
       else bindR (addState states) (\<lambda>(i, states). returnR (i, update states currentState (setStarIndex i))))"

definition getOrAddStarStarSlash :: "states \<Rightarrow> uint32 \<Rightarrow> (uint32 \<times> states) run" where
  "getOrAddStarStarSlash states currentState =
     bindR (index states currentState) (\<lambda>s.
       let i = getStarStarSlashIndex s in
       if i \<noteq> 0 then returnR (i, states)
       else bindR (addState states) (\<lambda>(i, states). returnR (i, update states currentState (setStarStarSlashIndex i))))"

text \<open>The variables of the loop of \<open>addPattern\<close>. Errors for malformed patterns are \<open>ErrOther 1\<close>.\<close>

record pattern_state =
  ps_states :: states
  gotRunes :: bool
  gotStarStarSlash :: bool
  gotStars :: nat
  previousDirectoryEndState :: uint32
  currentState :: uint32

abbreviation malformed :: go_error where "malformed \<equiv> ErrOther 1"

definition walk_star :: "pattern_state \<Rightarrow> pattern_state run" where
  "walk_star p = bindR (getOrAddStar (ps_states p) (currentState p)) (\<lambda>(i, states).
     returnR (p\<lparr>ps_states := states, currentState := i\<rparr>))"

definition walk_starStarSlash :: "pattern_state \<Rightarrow> pattern_state run" where
  "walk_starStarSlash p = bindR (getOrAddStarStarSlash (ps_states p) (currentState p)) (\<lambda>(i, states).
     returnR (p\<lparr>ps_states := states, currentState := i\<rparr>))"

definition walk_rune :: "rune \<Rightarrow> pattern_state \<Rightarrow> pattern_state run" where
  "walk_rune r p = bindR (getOrAddRune (ps_states p) (currentState p) r) (\<lambda>(i, states).
     returnR (p\<lparr>ps_states := states, currentState := i\<rparr>))"

definition pattern_slash :: "pattern_state \<Rightarrow> pattern_state run" where
  "pattern_slash p =
     (if gotStars p = 2 then
        if gotStarStarSlash p then failR malformed
        else bindR (walk_starStarSlash p) (\<lambda>p. returnR (p\<lparr>gotStarStarSlash := True, gotRunes := False, gotStars := 0\<rparr>))
      else
        bindR (if gotStars p = 0 then (if \<not> gotRunes p then failR malformed else returnR p)
               else if gotStars p = 1 then walk_star p
               else failR Panic) (\<lambda>p.
        bindR (walk_rune slash (p\<lparr>previousDirectoryEndState := currentState p\<rparr>)) (\<lambda>p.
          returnR (p\<lparr>gotStarStarSlash := False, gotRunes := False, gotStars := 0\<rparr>))))"

definition pattern_rune :: "rune \<Rightarrow> pattern_state \<Rightarrow> pattern_state run" where
  "pattern_rune r p =
     bindR (if gotStars p = 1 then walk_star p else if gotStars p = 2 then failR malformed else returnR p) (\<lambda>p.
     bindR (walk_rune r p) (\<lambda>p. returnR (p\<lparr>gotRunes := True, gotStars := 0\<rparr>)))"

definition pattern_step :: "rune \<Rightarrow> pattern_state \<Rightarrow> pattern_state run" where
  "pattern_step r p =
     (if r = asterisk then
        if gotStars p = 1 \<and> gotRunes p then failR malformed
        else if gotStars p = 2 then failR malformed
        else returnR (p\<lparr>gotStars := gotStars p + 1\<rparr>)
      else if r = slash then pattern_slash p
      else pattern_rune r p)"

fun pattern_loop :: "rune list \<Rightarrow> pattern_state \<Rightarrow> pattern_state run" where
  "pattern_loop [] p = returnR p"
| "pattern_loop (r # rs) p = bindR (pattern_step r p) (pattern_loop rs)"

definition pattern_end :: "endState \<Rightarrow> pattern_state \<Rightarrow> pattern_state run" where
  "pattern_end e p =
     (if gotStars p = 0 then (if \<not> gotRunes p then failR malformed else returnR p)
      else if gotStars p = 1 then walk_star p
      else if gotStars p = 2 then
        if gotStarStarSlash p then failR malformed
        else
          let p = (if previousDirectoryEndState p > 0
                   then p\<lparr>ps_states := update (ps_states p) (previousDirectoryEndState p) (setEndState e)\<rparr> else p)
          in bindR (walk_starStarSlash p) walk_star
      else failR Panic)"

definition addPattern :: "states \<Rightarrow> rune list \<Rightarrow> endState \<Rightarrow> states run" where
  "addPattern states pattern e =
     bindR (pattern_loop pattern
       \<lparr>ps_states = states, gotRunes = False, gotStarStarSlash = False, gotStars = 0, previousDirectoryEndState = 0, currentState = 0\<rparr>) (\<lambda>p.
     bindR (pattern_end e p) (\<lambda>p. returnR (update (ps_states p) (currentState p) (setEndState e))))"

record NFA =
  nfa_states :: states

definition NFAMatchingNothing :: NFA where
  "NFAMatchingNothing = \<lparr>nfa_states = [zero_state]\<rparr>"

definition NFAMatchingEverything :: NFA where
  "NFAMatchingEverything = \<lparr>nfa_states =
     [zero_state\<lparr>wildcards := push_bit stateBits 1 OR hasPositiveEndState\<rparr>,
      zero_state\<lparr>wildcards := 2 OR hasPositiveEndState\<rparr>,
      zero_state\<lparr>wildcards := push_bit (2 * stateBits + 1) endStatePositive OR hasPositiveEndState\<rparr>]\<rparr>"

fun addPatterns :: "states \<Rightarrow> rune list list \<Rightarrow> endState \<Rightarrow> states run" where
  "addPatterns states [] e = returnR states"
| "addPatterns states (pattern # patterns) e = bindR (addPattern states pattern e) (\<lambda>states. addPatterns states patterns e)"

definition NewNFAFromPatterns :: "rune list list \<Rightarrow> rune list list \<Rightarrow> NFA run" where
  "NewNFAFromPatterns includes excludes =
     bindR (addPatterns [zero_state] includes endStatePositive) (\<lambda>states.
     bindR (addPatterns states excludes endStateNegative) (\<lambda>states.
     bindR (propagateHasPositiveEndState states) (\<lambda>states. returnR \<lparr>nfa_states = states\<rparr>)))"

fun addSuffixRunes :: "states \<Rightarrow> uint32 \<Rightarrow> rune list \<Rightarrow> (uint32 \<times> states) run" where
  "addSuffixRunes states current [] = returnR (current, states)"
| "addSuffixRunes states current (r # rs) =
     (if r = slash then failR malformed
      else bindR (getOrAddRune states current r) (\<lambda>(i, states). addSuffixRunes states i rs))"

definition addSuffix :: "states \<Rightarrow> rune list \<Rightarrow> states run" where
  "addSuffix states suffix =
     bindR (getOrAddStarStarSlash states 0) (\<lambda>(i, states).
     bindR (getOrAddStar states i) (\<lambda>(i, states).
     bindR (addSuffixRunes states i suffix) (\<lambda>(i, states).
       returnR (update states i (setEndState endStatePositive)))))"

fun addSuffixes :: "states \<Rightarrow> rune list list \<Rightarrow> states run" where
  "addSuffixes states [] = returnR states"
| "addSuffixes states (suffix # suffixes) = bindR (addSuffix states suffix) (\<lambda>states. addSuffixes states suffixes)"

definition NewNFAFromSuffixes :: "rune list list \<Rightarrow> NFA run" where
  "NewNFAFromSuffixes suffixes =
     bindR (addSuffixes [zero_state] suffixes) (\<lambda>states.
     bindR (propagateHasPositiveEndState states) (\<lambda>states. returnR \<lparr>nfa_states = states\<rparr>))"

section \<open>Matching\<close>

text \<open>
  The keys of a Go map are visited in an order that is not specified: \<open>order\<close> is an arbitrary function that lists the
  elements of a finite set. Go also leaves open whether keys that are added meanwhile are visited; the loops below add none to the
  map that they visit, for the automata that are built from patterns and suffixes. The slice that the matcher keeps to
  prevent repeated allocation is empty between calls.
\<close>

type_synonym map_order = "uint32 set \<Rightarrow> uint32 list"

record statesSet =
  ss_states :: "uint32 set"
  ss_hasPositiveEndState :: bool

definition empty_set :: statesSet where
  "empty_set = \<lparr>ss_states = {}, ss_hasPositiveEndState = False\<rparr>"

definition ss_add :: "states \<Rightarrow> uint32 \<Rightarrow> statesSet \<Rightarrow> statesSet run" where
  "ss_add states i s = bindR (index states i) (\<lambda>st.
     returnR \<lparr>ss_states = insert i (ss_states s), ss_hasPositiveEndState = ss_hasPositiveEndState s \<or> getHasPositiveEndState st\<rparr>)"

definition ss_clear :: "statesSet \<Rightarrow> statesSet" where
  "ss_clear s = s\<lparr>ss_states := {}, ss_hasPositiveEndState := False\<rparr>"

record Matcher =
  m_states :: states
  currentStates :: statesSet
  currentStars :: statesSet
  currentStarStarSlashes :: statesSet

definition zero_matcher :: Matcher where
  "zero_matcher = \<lparr>m_states = [], currentStates = empty_set, currentStars = empty_set, currentStarStarSlashes = empty_set\<rparr>"

definition ss_copyFrom :: "statesSet \<Rightarrow> statesSet \<Rightarrow> statesSet" where
  "ss_copyFrom s s2 = s\<lparr>ss_states := ss_states s2, ss_hasPositiveEndState := ss_hasPositiveEndState s2\<rparr>"

definition CopyFrom :: "Matcher \<Rightarrow> Matcher \<Rightarrow> Matcher" where
  "CopyFrom m m2 = m\<lparr>m_states := m_states m2,
     currentStates := ss_copyFrom (currentStates m) (currentStates m2),
     currentStars := ss_copyFrom (currentStars m) (currentStars m2),
     currentStarStarSlashes := ss_copyFrom (currentStarStarSlashes m) (currentStarStarSlashes m2)\<rparr>"

definition expandState1 :: "uint32 \<Rightarrow> Matcher \<Rightarrow> Matcher run" where
  "expandState1 i m = bindR (ss_add (m_states m) i (currentStates m)) (\<lambda>s. returnR (m\<lparr>currentStates := s\<rparr>))"

definition expandState2 :: "uint32 \<Rightarrow> Matcher \<Rightarrow> Matcher run" where
  "expandState2 index1 m =
     bindR (expandState1 index1 m) (\<lambda>m.
     bindR (index (m_states m) index1) (\<lambda>st.
       let index2 = getStarIndex st in
       if index2 \<noteq> 0 then
         bindR (ss_add (m_states m) index2 (currentStars m)) (\<lambda>s. expandState1 index2 (m\<lparr>currentStars := s\<rparr>))
       else returnR m))"

definition expandState3 :: "uint32 \<Rightarrow> Matcher \<Rightarrow> Matcher run" where
  "expandState3 index1 m =
     bindR (expandState2 index1 m) (\<lambda>m.
     bindR (index (m_states m) index1) (\<lambda>st.
       let index2 = getStarStarSlashIndex st in
       if index2 \<noteq> 0 then
         bindR (ss_add (m_states m) index2 (currentStarStarSlashes m)) (\<lambda>s.
           expandState2 index2 (m\<lparr>currentStarStarSlashes := s\<rparr>))
       else returnR m))"

definition Initialize :: "NFA \<Rightarrow> Matcher \<Rightarrow> Matcher run" where
  "Initialize nfa m = expandState3 0 (m\<lparr>m_states := nfa_states nfa, currentStates := ss_clear (currentStates m),
     currentStars := ss_clear (currentStars m), currentStarStarSlashes := ss_clear (currentStarStarSlashes m)\<rparr>)"

fun expandStates :: "uint32 list \<Rightarrow> Matcher \<Rightarrow> Matcher run" where
  "expandStates [] m = returnR m"
| "expandStates (i # is) m = bindR (expandState3 i m) (expandStates is)"

text \<open>The inner loop over the runes of a state: the list is sorted, so that it ends at the first greater rune.\<close>

partial_function (option) matchRunes :: "rune \<Rightarrow> uint32 \<Rightarrow> Matcher \<Rightarrow> Matcher run" where [code]:
  "matchRunes r index2 m =
     (if index2 = 0 then returnR m
      else bindR (index (m_states m) index2) (\<lambda>st.
        if r = getCurrentRune st then bindR (expandState3 index2 m) (matchRunes r (getNextRuneIndex st))
        else if r < getCurrentRune st then returnR m
        else matchRunes r (getNextRuneIndex st) m))"

fun matchStates :: "rune \<Rightarrow> uint32 list \<Rightarrow> Matcher \<Rightarrow> Matcher run" where
  "matchStates r [] m = returnR m"
| "matchStates r (index1 # previousStatesList) m =
     bindR (index (m_states m) index1) (\<lambda>st.
     bindR (matchRunes r (getFirstRuneIndex st) m) (matchStates r previousStatesList))"

definition WriteRune :: "map_order \<Rightarrow> rune \<Rightarrow> Matcher \<Rightarrow> (bool \<times> Matcher) run" where
  "WriteRune order r m =
     (let previousStatesList = order (ss_states (currentStates m));
          m = m\<lparr>currentStates := ss_clear (currentStates m)\<rparr>
      in bindR (if r = slash
           then let m = m\<lparr>currentStars := ss_clear (currentStars m)\<rparr>
                in expandStates (order (ss_states (currentStarStarSlashes m))) m
           else expandStates (order (ss_states (currentStars m))) m) (\<lambda>m.
         bindR (matchStates r previousStatesList m) (\<lambda>m.
           returnR (ss_hasPositiveEndState (currentStates m) \<or> ss_hasPositiveEndState (currentStars m)
             \<or> ss_hasPositiveEndState (currentStarStarSlashes m), m))))"

fun max_end_state :: "states \<Rightarrow> uint32 list \<Rightarrow> endState \<Rightarrow> endState run" where
  "max_end_state states [] maxEndState = returnR maxEndState"
| "max_end_state states (i # is) maxEndState =
     bindR (index states i) (\<lambda>st.
       max_end_state states is (if maxEndState < getEndState st then getEndState st else maxEndState))"

definition IsMatch :: "map_order \<Rightarrow> Matcher \<Rightarrow> bool run" where
  "IsMatch order m =
     bindR (max_end_state (m_states m) (order (ss_states (currentStates m))) endStateNone) (\<lambda>maxEndState.
       returnR (maxEndState = endStatePositive))"

section \<open>Ignored directories\<close>

record ignoredDirectories =
  id_nfa :: NFA
  id_matcher :: Matcher

definition newIgnoredDirectories :: "rune list list \<Rightarrow> ignoredDirectories option run" where
  "newIgnoredDirectories patterns =
     (if length patterns = 0 then returnR None
      else bindR (NewNFAFromPatterns patterns []) (\<lambda>nfa. returnR (Some \<lparr>id_nfa = nfa, id_matcher = zero_matcher\<rparr>)))"

fun write_runes :: "map_order \<Rightarrow> rune list \<Rightarrow> Matcher \<Rightarrow> (bool \<times> Matcher) run" where
  "write_runes order [] m = returnR (True, m)"
| "write_runes order (r # rs) m =
     bindR (WriteRune order r m) (\<lambda>(b, m). if \<not> b then returnR (False, m) else write_runes order rs m)"

definition id_matches :: "map_order \<Rightarrow> ignoredDirectories option \<Rightarrow> rune list \<Rightarrow> (bool \<times> ignoredDirectories option) run" where
  "id_matches order d path =
     (case d of
        None \<Rightarrow> returnR (False, None)
      | Some d \<Rightarrow>
          if path = [] then returnR (False, Some d)
          else
            bindR (Initialize (id_nfa d) (id_matcher d)) (\<lambda>m.
            bindR (write_runes order path m) (\<lambda>(b, m).
              let d = d\<lparr>id_matcher := m\<rparr> in
              if \<not> b then returnR (False, Some d)
              else bindR (IsMatch order m) (\<lambda>b. returnR (b, Some d)))))"

fun contains_loop :: "map_order \<Rightarrow> rune list \<Rightarrow> rune list \<Rightarrow> ignoredDirectories option \<Rightarrow> (bool \<times> ignoredDirectories option) run" where
  "contains_loop order before [] d = id_matches order d before"
| "contains_loop order before (r # rs) d =
     (if r = slash then
        bindR (id_matches order d before) (\<lambda>(b, d). if b then returnR (True, d) else contains_loop order (before @ [r]) rs d)
      else contains_loop order (before @ [r]) rs d)"

definition id_contains :: "map_order \<Rightarrow> ignoredDirectories option \<Rightarrow> rune list \<Rightarrow> (bool \<times> ignoredDirectories option) run" where
  "id_contains order d path = contains_loop order [] path d"

end
