(* ===== verification/Glob_Trie.thy ===== *)
theory Glob_Trie
  imports Glob_NFA
begin

text \<open>
  The automata that the constructors build are tries of pattern tokens. This theory shows that the accessors
  of the bit fields of a state do not interfere, and that every step of the construction adds one edge.
\<close>

section \<open>Bit fields\<close>

lemma stateBits: "stateBits = 21" "2 * stateBits = 42" "stateMask = mask 21"
  by (simp_all add: stateBits_def stateMask_def mask_eq_exp_minus_1)

lemma bit_small:
  fixes i :: "'a::len word"
  assumes "unat i < 2 ^ k" "bit i n"
  shows "n < k"
proof -
  have "take_bit k (unat i) = unat i" using assms(1) by (simp add: take_bit_nat_eq_self)
  then have "take_bit k i = i" by (metis unsigned_take_bit_eq unsigned_word_eqI)
  then show ?thesis using assms(2) by (metis bit_take_bit_iff)
qed

lemma bit_small_21: "unat (i :: uint32) < 2097152 \<Longrightarrow> bit i n \<Longrightarrow> n < 21"
  using bit_small [of i 21 n] by simp

lemma getHasPositiveEndState_bit: "getHasPositiveEndState s \<longleftrightarrow> bit (wildcards s) 42"
  unfolding getHasPositiveEndState_def stateBits push_bit_of_1 by (simp only: and_exp_eq_0_iff_not_bit not_not) simp

lemma bit_getters:
  "bit (getStarIndex s) n \<longleftrightarrow> n < 21 \<and> bit (wildcards s) n"
  "bit (getStarStarSlashIndex s) n \<longleftrightarrow> n < 21 \<and> bit (wildcards s) (21 + n)"
  "bit (getEndState s) n \<longleftrightarrow> bit (wildcards s) (43 + n)"
  "bit (getFirstRuneIndex s) n \<longleftrightarrow> n < 21 \<and> bit (runes s) n"
  "bit (getNextRuneIndex s) n \<longleftrightarrow> n < 21 \<and> bit (runes s) (21 + n)"
  by (auto simp: getStarIndex_def getStarStarSlashIndex_def getEndState_def getFirstRuneIndex_def
      getNextRuneIndex_def stateBits bit_simps)

lemma bit_setters:
  "unat i < 2 ^ 21 \<Longrightarrow> bit (wildcards (setStarIndex i s)) n \<longleftrightarrow> (if n < 21 then bit i n else bit (wildcards s) n)"
  "unat i < 2 ^ 21 \<Longrightarrow> bit (wildcards (setStarStarSlashIndex i s)) n \<longleftrightarrow> (if 21 \<le> n \<and> n < 42 then bit i (n - 21) else bit (wildcards s) n)"
  "bit (wildcards (setHasPositiveEndState s)) n \<longleftrightarrow> n = 42 \<or> bit (wildcards s) n"
  "bit (wildcards (setEndState e s)) n \<longleftrightarrow> (if n < 43 then bit (wildcards s) n else n < 64 \<and> bit e (n - 43))"
  "unat i < 2 ^ 21 \<Longrightarrow> bit (runes (setFirstRuneIndex i s)) n \<longleftrightarrow> (if n < 21 then bit i n else bit (runes s) n)"
  "unat i < 2 ^ 21 \<Longrightarrow> bit (runes (setNextRuneIndex i s)) n \<longleftrightarrow> (if 21 \<le> n \<and> n < 42 then bit i (n - 21) else bit (runes s) n)"
  "unat i < 2 ^ 21 \<Longrightarrow> bit (runes (initializeRune r i s)) n \<longleftrightarrow>
     (if n < 21 then False else if n < 42 then bit i (n - 21) else n < 64 \<and> bit (of_nat r :: uint64) (n - 42))"
proof -
  have m43: "push_bit (2 * stateBits + 1) 1 - 1 = (mask 43 :: uint64)" by (simp add: stateBits mask_eq_exp_minus_1)
  have 42: "hasPositiveEndState = push_bit 42 (1 :: uint64)" by (simp only: hasPositiveEndState_def stateBits) simp
  show "bit (wildcards (setHasPositiveEndState s)) n \<longleftrightarrow> n = 42 \<or> bit (wildcards s) n"
    unfolding setHasPositiveEndState_def 42 by (auto simp: bit_or_iff bit_push_bit_iff bit_1_iff simp del: push_bit_of_1)
  show "bit (wildcards (setEndState e s)) n \<longleftrightarrow> (if n < 43 then bit (wildcards s) n else n < 64 \<and> bit e (n - 43))"
    unfolding setEndState_def m43 by (auto simp: stateBits bit_simps dest: bit_imp_le_length)
qed (auto simp: setStarIndex_def setStarStarSlashIndex_def setFirstRuneIndex_def setNextRuneIndex_def initializeRune_def stateBits
     bit_simps dest: bit_small_21 bit_imp_le_length)

named_theorems state_simps \<open>accessors of the bit fields of a state\<close>

lemma unat_indices [simp]:
  "unat (getStarIndex s) < 2 ^ 21" "unat (getStarStarSlashIndex s) < 2 ^ 21"
  "unat (getFirstRuneIndex s) < 2 ^ 21" "unat (getNextRuneIndex s) < 2 ^ 21"
proof -
  have *: "unat w < 2 ^ 21" if "take_bit 21 w = w" for w :: uint32
    using that take_bit_nat_less_exp [of 21 "unat w"] by (metis unsigned_take_bit_eq)
  show "unat (getStarIndex s) < 2 ^ 21" "unat (getStarStarSlashIndex s) < 2 ^ 21"
    "unat (getFirstRuneIndex s) < 2 ^ 21" "unat (getNextRuneIndex s) < 2 ^ 21"
    by (rule *; rule bit_word_eqI; auto simp: bit_getters bit_take_bit_iff)+
qed

lemma setStarIndex_fields [state_simps]:
  assumes "unat i < 2 ^ 21"
  shows "getStarIndex (setStarIndex i s) = i" "getStarStarSlashIndex (setStarIndex i s) = getStarStarSlashIndex s"
    "getHasPositiveEndState (setStarIndex i s) = getHasPositiveEndState s" "getEndState (setStarIndex i s) = getEndState s"
    "runes (setStarIndex i s) = runes s"
  using assms
  by (auto simp: bit_getters getHasPositiveEndState_bit bit_setters setStarIndex_def [THEN arg_cong [of _ _ runes]] dest: bit_small_21 intro!: bit_word_eqI)

lemma setStarStarSlashIndex_fields [state_simps]:
  assumes "unat i < 2 ^ 21"
  shows "getStarStarSlashIndex (setStarStarSlashIndex i s) = i" "getStarIndex (setStarStarSlashIndex i s) = getStarIndex s"
    "getHasPositiveEndState (setStarStarSlashIndex i s) = getHasPositiveEndState s"
    "getEndState (setStarStarSlashIndex i s) = getEndState s" "runes (setStarStarSlashIndex i s) = runes s"
  using assms
  by (auto simp: bit_getters getHasPositiveEndState_bit bit_setters setStarStarSlashIndex_def [THEN arg_cong [of _ _ runes]]
      dest: bit_small_21 intro!: bit_word_eqI)

lemma setHasPositiveEndState_fields [state_simps]:
  "getHasPositiveEndState (setHasPositiveEndState s)" "getStarIndex (setHasPositiveEndState s) = getStarIndex s"
  "getStarStarSlashIndex (setHasPositiveEndState s) = getStarStarSlashIndex s"
  "getEndState (setHasPositiveEndState s) = getEndState s" "runes (setHasPositiveEndState s) = runes s"
  by (auto simp: bit_getters getHasPositiveEndState_bit bit_setters setHasPositiveEndState_def [THEN arg_cong [of _ _ runes]]
      intro!: bit_word_eqI)

lemma setEndState_fields [state_simps]:
  "e < 2 ^ 21 \<Longrightarrow> getEndState (setEndState e s) = e" "getStarIndex (setEndState e s) = getStarIndex s"
  "getStarStarSlashIndex (setEndState e s) = getStarStarSlashIndex s"
  "getHasPositiveEndState (setEndState e s) = getHasPositiveEndState s" "runes (setEndState e s) = runes s"
proof -
  show "getEndState (setEndState e s) = e" if "e < 2 ^ 21"
  proof (rule bit_word_eqI)
    have "unat e < 2 ^ 21" using that by (simp add: word_less_nat_alt)
    then show "bit (getEndState (setEndState e s)) n = bit e n" if "n < LENGTH(64)" for n
      using bit_small [of e 21 n] by (auto simp: bit_getters bit_setters)
  qed
qed (auto simp: bit_getters getHasPositiveEndState_bit bit_setters setEndState_def [THEN arg_cong [of _ _ runes]] intro!: bit_word_eqI)

lemma rune_getters_cong:
  "runes s = runes t \<Longrightarrow> getFirstRuneIndex s = getFirstRuneIndex t \<and> getNextRuneIndex s = getNextRuneIndex t \<and> getCurrentRune s = getCurrentRune t"
  by (simp add: getFirstRuneIndex_def getNextRuneIndex_def getCurrentRune_def)

lemma wildcard_getters_cong:
  "wildcards s = wildcards t \<Longrightarrow> getStarIndex s = getStarIndex t \<and> getStarStarSlashIndex s = getStarStarSlashIndex t
     \<and> getEndState s = getEndState t \<and> getHasPositiveEndState s = getHasPositiveEndState t"
  by (simp add: getStarIndex_def getStarStarSlashIndex_def getEndState_def getHasPositiveEndState_def)

lemma getCurrentRune_cong:
  "(\<And>n. 42 \<le> n \<Longrightarrow> bit (runes s) n = bit (runes t) n) \<Longrightarrow> getCurrentRune s = getCurrentRune t"
  unfolding getCurrentRune_def stateBits by (rule arg_cong [of _ _ unat], rule bit_word_eqI) (simp add: bit_drop_bit_eq)

lemma setFirstRuneIndex_fields [state_simps]:
  assumes "unat i < 2 ^ 21"
  shows "getFirstRuneIndex (setFirstRuneIndex i s) = i" "getNextRuneIndex (setFirstRuneIndex i s) = getNextRuneIndex s"
    "getCurrentRune (setFirstRuneIndex i s) = getCurrentRune s" "wildcards (setFirstRuneIndex i s) = wildcards s"
  using assms
  by (auto simp: bit_getters bit_setters setFirstRuneIndex_def [THEN arg_cong [of _ _ wildcards]]
      dest: bit_small_21 intro!: bit_word_eqI getCurrentRune_cong)

lemma setNextRuneIndex_fields [state_simps]:
  assumes "unat i < 2 ^ 21"
  shows "getNextRuneIndex (setNextRuneIndex i s) = i" "getFirstRuneIndex (setNextRuneIndex i s) = getFirstRuneIndex s"
    "getCurrentRune (setNextRuneIndex i s) = getCurrentRune s" "wildcards (setNextRuneIndex i s) = wildcards s"
  using assms
  by (auto simp: bit_getters bit_setters setNextRuneIndex_def [THEN arg_cong [of _ _ wildcards]]
      dest: bit_small_21 intro!: bit_word_eqI getCurrentRune_cong)

text \<open>Runes fit into 22 bits: the largest one is 0x10ffff.\<close>

definition valid_rune :: "rune \<Rightarrow> bool" where
  "valid_rune r \<longleftrightarrow> r \<le> 0x10ffff"

lemma initializeRune_fields [state_simps]:
  assumes "unat i < 2 ^ 21"
  shows "getNextRuneIndex (initializeRune r i s) = i" "getFirstRuneIndex (initializeRune r i s) = 0"
    "valid_rune r \<Longrightarrow> getCurrentRune (initializeRune r i s) = r" "wildcards (initializeRune r i s) = wildcards s"
proof -
  show "getCurrentRune (initializeRune r i s) = r" if "valid_rune r"
  proof -
    have r: "unat (of_nat r :: uint64) = r" using that by (simp add: valid_rune_def unsigned_of_nat take_bit_nat_eq_self)
    have "drop_bit (2 * stateBits) (runes (initializeRune r i s)) = of_nat r"
    proof (rule bit_word_eqI)
      fix n assume n: "n < LENGTH(64)"
      have "bit (of_nat r :: uint64) n \<Longrightarrow> n < 22" using bit_small [of "of_nat r :: uint64" 22 n] r that by (simp add: valid_rune_def)
      then show "bit (drop_bit (2 * stateBits) (runes (initializeRune r i s))) n = bit (of_nat r :: uint64) n"
        using n by (auto simp: stateBits bit_drop_bit_eq bit_setters(7) [OF assms])
    qed
    then show ?thesis by (simp add: getCurrentRune_def r)
  qed
qed (use assms in \<open>auto simp: bit_getters bit_setters initializeRune_def [THEN arg_cong [of _ _ wildcards]]
     dest: bit_small_21 intro!: bit_word_eqI\<close>)

lemma zero_state_fields [state_simps]:
  "getStarIndex zero_state = 0" "getStarStarSlashIndex zero_state = 0" "getFirstRuneIndex zero_state = 0"
  "getEndState zero_state = 0" "\<not> getHasPositiveEndState zero_state"
  by (simp_all add: zero_state_def getStarIndex_def getStarStarSlashIndex_def getFirstRuneIndex_def getEndState_def getHasPositiveEndState_def)

section \<open>Edges\<close>

datatype token = Rune rune | Star | StarStarSlash

text \<open>The linked list of the runes of a state.\<close>

inductive chain :: "states \<Rightarrow> uint32 \<Rightarrow> uint32 list \<Rightarrow> bool" for states where
  chain_Nil: "chain states 0 []"
| chain_Cons: "i \<noteq> 0 \<Longrightarrow> unat i < length states \<Longrightarrow> chain states (getNextRuneIndex (states ! unat i)) js \<Longrightarrow> chain states i (i # js)"

inductive_simps chain_simps [simp]: "chain states 0 js" "chain states i []" "chain states i (j # js)"

fun edge :: "states \<Rightarrow> uint32 \<Rightarrow> token \<Rightarrow> uint32 \<Rightarrow> bool" where
  "edge states i Star j \<longleftrightarrow> j \<noteq> 0 \<and> getStarIndex (states ! unat i) = j"
| "edge states i StarStarSlash j \<longleftrightarrow> j \<noteq> 0 \<and> getStarStarSlashIndex (states ! unat i) = j"
| "edge states i (Rune r) j \<longleftrightarrow>
     (\<exists>js. chain states (getFirstRuneIndex (states ! unat i)) js \<and> j \<in> set js \<and> getCurrentRune (states ! unat j) = r)"

declare edge.simps(3) [simp del]

abbreviation rune_of :: "states \<Rightarrow> uint32 \<Rightarrow> rune" where
  "rune_of states i \<equiv> getCurrentRune (states ! unat i)"

text \<open>The type of an automaton: edges lead to later states that exist, and the runes of a state are sorted.\<close>

definition sorted_runes :: "states \<Rightarrow> uint32 \<Rightarrow> bool" where
  "sorted_runes states i \<longleftrightarrow> (\<exists>js. chain states (getFirstRuneIndex (states ! unat i)) js \<and> sorted_wrt (\<lambda>a b. rune_of states a < rune_of states b) js)"

definition trie :: "states \<Rightarrow> bool" where
  "trie states \<longleftrightarrow> 1 \<le> length states \<and> length states \<le> 2 ^ 21
     \<and> (\<forall>i. unat i < length states \<longrightarrow> sorted_runes states i)
     \<and> (\<forall>i t j. unat i < length states \<longrightarrow> edge states i t j \<longrightarrow> unat i < unat j \<and> unat j < length states)
     \<and> (\<forall>i t i' t' j. unat i < length states \<longrightarrow> unat i' < length states \<longrightarrow> edge states i t j \<longrightarrow> edge states i' t' j \<longrightarrow> i = i' \<and> t = t')"

lemma chain_det: "chain states i js \<Longrightarrow> chain states i ks \<Longrightarrow> js = ks"
proof (induction arbitrary: ks rule: chain.induct)
  case (chain_Cons i js)
  from chain_Cons.prems chain_Cons.hyps(1) show ?case by (cases rule: chain.cases) (use chain_Cons.IH in auto)
qed simp

lemma chain_range: "chain states i js \<Longrightarrow> j \<in> set js \<Longrightarrow> j \<noteq> 0 \<and> unat j < length states"
  by (induction rule: chain.induct) auto

lemma chain_cong:
  assumes "chain states i js" "length states \<le> length states'"
    and "\<And>j. j \<in> set js \<Longrightarrow> getNextRuneIndex (states' ! unat j) = getNextRuneIndex (states ! unat j)"
  shows "chain states' i js"
  using assms by (induction rule: chain.induct) auto

fun chain_tail :: "states \<Rightarrow> uint32 \<Rightarrow> uint32 list \<Rightarrow> uint32" where
  "chain_tail states i [] = i"
| "chain_tail states i (j # js) = chain_tail states (getNextRuneIndex (states ! unat j)) js"

lemma chain_tail: "chain states i (js @ ks) \<Longrightarrow> chain states (chain_tail states i js) ks"
  by (induction js arbitrary: i) auto

text \<open>Insertion of a state into a linked list.\<close>

lemma chain_insert:
  assumes "chain states i (js @ ks)" "distinct (js @ ks)" "length states \<le> length states'" "n \<noteq> 0" "unat n < length states'"
    and "getNextRuneIndex (states' ! unat n) = chain_tail states i js"
    and "\<And>j. j \<in> set (js @ ks) \<Longrightarrow>
      getNextRuneIndex (states' ! unat j) = (if js \<noteq> [] \<and> j = last js then n else getNextRuneIndex (states ! unat j))"
  shows "chain states' (if js = [] then n else i) (js @ n # ks)"
  using assms
proof (induction js arbitrary: i)
  case Nil
  then have "chain states' i ks" using chain_cong [of states i ks states'] by simp
  then show ?case using Nil by simp
next
  case (Cons j js)
  have IH: "chain states' (if js = [] then n else getNextRuneIndex (states ! unat j)) (js @ n # ks)"
    using Cons.prems by (intro Cons.IH) auto
  have "getNextRuneIndex (states' ! unat j) = (if js = [] then n else getNextRuneIndex (states ! unat j))"
    using Cons.prems(2,7) by auto
  then show ?case using IH Cons.prems(1,3) by auto
qed

lemma sorted_runes_distinct: "sorted_wrt (\<lambda>a b. rune_of states a < rune_of states b) js \<Longrightarrow> distinct js"
  by (induction js) auto

lemma sorted_runes_inj:
  "sorted_wrt (\<lambda>a b. rune_of states a < rune_of states b) js \<Longrightarrow> j \<in> set js \<Longrightarrow> j' \<in> set js \<Longrightarrow> rune_of states j = rune_of states j' \<Longrightarrow> j = j'"
  by (induction js) auto

lemma trieD:
  assumes "trie states"
  shows "1 \<le> length states" "length states \<le> 2 ^ 21"
    and "unat i < length states \<Longrightarrow> sorted_runes states i"
    and "unat i < length states \<Longrightarrow> edge states i t j \<Longrightarrow> unat i < unat j \<and> unat j < length states"
    and "unat i < length states \<Longrightarrow> unat i' < length states \<Longrightarrow> edge states i t j \<Longrightarrow> edge states i' t' j \<Longrightarrow> i = i' \<and> t = t'"
  using assms unfolding trie_def by blast+

lemma edge_Rune_chain:
  "chain states (getFirstRuneIndex (states ! unat i)) js \<Longrightarrow> edge states i (Rune r) j \<longleftrightarrow> j \<in> set js \<and> rune_of states j = r"
  using chain_det by (auto simp: edge.simps(3))

lemma edge_det: "trie states \<Longrightarrow> unat i < length states \<Longrightarrow> edge states i t j \<Longrightarrow> edge states i t j' \<Longrightarrow> j = j'"
proof (cases t)
  case (Rune r)
  assume *: "trie states" "unat i < length states" "edge states i t j" "edge states i t j'"
  obtain js where js: "chain states (getFirstRuneIndex (states ! unat i)) js" "sorted_wrt (\<lambda>a b. rune_of states a < rune_of states b) js"
    using trieD(3) [OF *(1,2)] unfolding sorted_runes_def by (elim exE conjE)
  show ?thesis using *(3,4) sorted_runes_inj [OF js(2)] unfolding Rune edge_Rune_chain [OF js(1)] by simp
qed auto

section \<open>Adding edges\<close>

text \<open>The automaton with one more state, to which an edge leads from a given state.\<close>

definition adds_edge :: "states \<Rightarrow> uint32 \<Rightarrow> token \<Rightarrow> states \<Rightarrow> bool" where
  "adds_edge states i t states' \<longleftrightarrow> length states < 2 ^ 21 \<and> length states' = Suc (length states)
     \<and> (\<forall>a. unat a < length states' \<longrightarrow> sorted_runes states' a)
     \<and> (\<forall>a u b. unat a < length states' \<longrightarrow>
          edge states' a u b \<longleftrightarrow> unat a < length states \<and> edge states a u b \<or> a = i \<and> u = t \<and> b = of_nat (length states))
     \<and> (\<forall>a < length states. getEndState (states' ! a) = getEndState (states ! a)
          \<and> getHasPositiveEndState (states' ! a) = getHasPositiveEndState (states ! a))
     \<and> getEndState (states' ! length states) = 0 \<and> \<not> getHasPositiveEndState (states' ! length states)"

lemma unat_new_index: "n < 2 ^ 32 \<Longrightarrow> unat (of_nat n :: uint32) = n"
  by (simp add: unsigned_of_nat take_bit_nat_eq_self)

lemma adds_edge_trie:
  assumes T: "trie states" and i: "unat i < length states" and new: "\<And>j. \<not> edge states i t j" and a: "adds_edge states i t states'"
  shows "trie states'"
proof -
  let ?n = "of_nat (length states) :: uint32"
  have len: "length states < 2 ^ 21" "length states' = Suc (length states)" using a by (auto simp: adds_edge_def)
  then have n: "unat ?n = length states" by (simp add: unat_new_index)
  have e: "edge states' a u b \<longleftrightarrow> unat a < length states \<and> edge states a u b \<or> a = i \<and> u = t \<and> b = ?n" if "unat a < length states'" for a u b
    using a that unfolding adds_edge_def by blast
  have old: "unat a < length states \<Longrightarrow> edge states a u b \<Longrightarrow> b \<noteq> ?n" for a u b using trieD(4) [OF T, of a u b] n by auto
  show ?thesis unfolding trie_def
  proof (intro conjI allI impI)
    fix a u b a' u'
    assume a: "unat a < length states'" "edge states' a u b"
    show "unat a < unat b" "unat b < length states'"
      using a(2) e [OF a(1), of u b] i n len(2) trieD(4) [OF T, of a u b] by auto
    assume a': "unat a' < length states'" "edge states' a' u' b"
    show "a = a'" "u = u'"
      using a(2) a'(2) e [OF a(1), of u b] e [OF a'(1), of u' b] old [of a u] old [of a' u'] trieD(5) [OF T, of a a' u b u'] by auto
  qed (use a len in \<open>auto simp: adds_edge_def\<close>)
qed

lemma same_runes:
  assumes T: "trie states" and "\<And>k. k < length states \<Longrightarrow> runes (states' ! k) = runes (states ! k)" "length states \<le> length states'"
    and a: "unat a < length states"
  shows "edge states' a (Rune r) b = edge states a (Rune r) b" "sorted_runes states' a"
proof -
  obtain js where js: "chain states (getFirstRuneIndex (states ! unat a)) js" "sorted_wrt (\<lambda>a b. rune_of states a < rune_of states b) js"
    using trieD(3) [OF T a] unfolding sorted_runes_def by (elim exE conjE)
  have g: "getFirstRuneIndex (states' ! unat j) = getFirstRuneIndex (states ! unat j)" "rune_of states' j = rune_of states j"
    "getNextRuneIndex (states' ! unat j) = getNextRuneIndex (states ! unat j)" if "unat j < length states" for j :: uint32
    using rune_getters_cong [OF assms(2) [OF that]] by simp_all
  have r: "rune_of states' j = rune_of states j" if "j \<in> set js" for j using g(2) chain_range [OF js(1) that] by simp
  have c: "chain states' (getFirstRuneIndex (states' ! unat a)) js"
    unfolding g(1) [OF a] using js(1) assms(3) by (rule chain_cong) (use g(3) chain_range [OF js(1)] in blast)
  show "edge states' a (Rune r) b = edge states a (Rune r) b"
    unfolding edge_Rune_chain [OF js(1)] edge_Rune_chain [OF c] using r by auto
  have "sorted_wrt (\<lambda>a b. rune_of states' a < rune_of states' b) js"
    using js(2) by (rule sorted_wrt_mono_rel [rotated]) (simp add: r)
  then show "sorted_runes states' a" using c unfolding sorted_runes_def by blast
qed

lemma no_runes: "getFirstRuneIndex (states ! unat a) = 0 \<Longrightarrow> \<not> edge states a (Rune r) b \<and> sorted_runes states a"
  by (auto simp: sorted_runes_def edge.simps(3))

text \<open>The wildcards of a state are set while nothing else changes.\<close>

lemma wildcard_adds_edge:
  assumes T: "trie states" and i: "unat i < length states" and len: "length states < 2 ^ 21"
    and t: "t = Star \<or> t = StarStarSlash" and new: "\<And>j. \<not> edge states i t j"
    and s: "states' = update (states @ [zero_state]) i (if t = Star then setStarIndex (of_nat (length states)) else setStarStarSlashIndex (of_nat (length states)))"
  shows "adds_edge states i t states'"
proof -
  let ?n = "of_nat (length states) :: uint32"
  let ?f = "if t = Star then setStarIndex ?n else setStarStarSlashIndex ?n"
  have n: "unat ?n = length states" "unat ?n < 2 ^ 21" using len unat_new_index [of "length states"] by simp_all
  then have n0: "?n \<noteq> 0" using i by auto
  have len': "length states' = Suc (length states)" by (simp add: s update_def)
  have old: "states' ! k = (if k = unat i then ?f (states ! k) else states ! k)" if "k < length states" for k
    using that i by (simp add: s update_def nth_list_update nth_append)
  have last: "states' ! length states = zero_state" using i by (simp add: s update_def nth_list_update nth_append)
  have runes: "runes (states' ! k) = runes (states ! k)" if "k < length states" for k
    using old [OF that] n(2) by (simp add: state_simps)
  have ends: "getEndState (states' ! k) = getEndState (states ! k)" "getHasPositiveEndState (states' ! k) = getHasPositiveEndState (states ! k)"
    if "k < length states" for k using old [OF that] n(2) by (simp_all add: state_simps)
  have sorted: "sorted_runes states' a" if "unat a < length states'" for a
    using that same_runes(2) [OF T runes] no_runes [of states' a] len' last by (cases "unat a < length states") (auto simp: less_Suc_eq state_simps)
  have "edge states' a u b \<longleftrightarrow> unat a < length states \<and> edge states a u b \<or> a = i \<and> u = t \<and> b = ?n" if "unat a < length states'" for a u b
  proof (cases "unat a < length states")
    case True
    have new': "t = Star \<Longrightarrow> getStarIndex (states ! unat i) = 0" "t = StarStarSlash \<Longrightarrow> getStarStarSlashIndex (states ! unat i) = 0"
      using new by auto
    show ?thesis using True same_runes(1) [OF T runes _ True] old [OF True] t new' n(2) n0 len'
      by (cases u; cases "a = i") (auto simp: state_simps simp flip: word_unat_eq_iff)
  next
    case False
    then have "unat a = length states" using that len' by simp
    then show ?thesis using False last no_runes [of states' a] i by (cases u) (auto simp: state_simps)
  qed
  then show ?thesis using len len' sorted ends last unfolding adds_edge_def by (simp add: state_simps)
qed

lemma find_rune_spec:
  assumes "chain states c js" "sorted_wrt (\<lambda>a b. rune_of states a < rune_of states b) js"
  shows "(\<exists>j \<in> set js. rune_of states j = r \<and> find_rune states r p c = returnR (Inl j))
    \<or> (\<exists>js1 js2. js = js1 @ js2 \<and> (\<forall>j \<in> set js1. rune_of states j < r) \<and> (\<forall>j \<in> set js2. r < rune_of states j)
        \<and> find_rune states r p c = returnR (Inr (if js1 = [] then p else last js1, chain_tail states c js1)))"
  using assms
proof (induction arbitrary: p rule: chain.induct)
  case chain_Nil
  then show ?case by (auto simp: find_rune.simps [of states r p 0])
next
  case (chain_Cons i js)
  have step: "find_rune states r p i = (if rune_of states i = r then returnR (Inl i)
      else if rune_of states i > r then returnR (Inr (p, i)) else find_rune states r i (getNextRuneIndex (states ! unat i)))"
    using chain_Cons.hyps(1,2) by (subst find_rune.simps) (simp add: index_def)
  consider "rune_of states i = r" | "rune_of states i > r" | "rune_of states i < r" by linarith
  then show ?case
  proof cases
    case 2
    then have "\<forall>j \<in> set (i # js). r < rune_of states j" using chain_Cons.prems by auto
    then show ?thesis using step 2 by (intro disjI2 exI [of _ "[]"] exI [of _ "i # js"]) auto
  next
    case 3
    from chain_Cons.IH [of i] chain_Cons.prems
    consider (found) j where "j \<in> set js" "rune_of states j = r" "find_rune states r i (getNextRuneIndex (states ! unat i)) = returnR (Inl j)"
      | (gap) js1 js2 where "js = js1 @ js2" "\<forall>j \<in> set js1. rune_of states j < r" "\<forall>j \<in> set js2. r < rune_of states j"
        "find_rune states r i (getNextRuneIndex (states ! unat i))
          = returnR (Inr (if js1 = [] then i else last js1, chain_tail states (getNextRuneIndex (states ! unat i)) js1))" by auto
    then show ?thesis
    proof cases
      case gap
      then show ?thesis using step 3 by (intro disjI2 exI [of _ "i # js1"] exI [of _ js2]) auto
    qed (use step 3 in auto)
  qed (use step in auto)
qed

text \<open>The states after a rune was inserted into the linked list of a state, by their fields.\<close>

lemma inserted_adds_edge:
  fixes states :: states
  defines "n \<equiv> of_nat (length states) :: uint32"
  assumes T: "trie states" and i: "unat i < length states" and len: "length states < 2 ^ 21"
    and js: "chain states (getFirstRuneIndex (states ! unat i)) (js1 @ js2)" "sorted_wrt (\<lambda>a b. rune_of states a < rune_of states b) (js1 @ js2)"
    and lt: "\<forall>j \<in> set js1. rune_of states j < r" and gt: "\<forall>j \<in> set js2. r < rune_of states j"
    and len': "length states' = Suc (length states)"
    and first: "\<And>k. k < length states \<Longrightarrow> getFirstRuneIndex (states' ! k) = (if js1 = [] \<and> k = unat i then n else getFirstRuneIndex (states ! k))"
    and nxt: "\<And>k. k < length states \<Longrightarrow> getNextRuneIndex (states' ! k) = (if js1 \<noteq> [] \<and> k = unat (last js1) then n else getNextRuneIndex (states ! k))"
    and w: "\<And>k. k < length states \<Longrightarrow> wildcards (states' ! k) = wildcards (states ! k)"
    and rune: "\<And>k. k < length states \<Longrightarrow> getCurrentRune (states' ! k) = getCurrentRune (states ! k)"
    and new: "getNextRuneIndex (states' ! length states) = chain_tail states (getFirstRuneIndex (states ! unat i)) js1"
      "getFirstRuneIndex (states' ! length states) = 0" "getCurrentRune (states' ! length states) = r" "wildcards (states' ! length states) = 0"
  shows "adds_edge states i (Rune r) states'"
proof -
  have n: "unat n = length states" "n \<noteq> 0" using len i unat_new_index [of "length states"] by (auto simp: n_def)
  have edge_js: "edge states i (Rune (rune_of states j)) j" if "j \<in> set (js1 @ js2)" for j
    using that edge_Rune_chain [OF js(1)] by blast
  have range: "unat j < length states" if "j \<in> set (js1 @ js2)" for j using chain_range [OF js(1) that] by simp
  have chain_i: "chain states' (getFirstRuneIndex (states' ! unat i)) (js1 @ n # js2)"
  proof -
    have "chain states' (if js1 = [] then n else getFirstRuneIndex (states ! unat i)) (js1 @ n # js2)"
    proof (rule chain_insert [OF js(1) sorted_runes_distinct [OF js(2)]])
      fix j assume "j \<in> set (js1 @ js2)"
      then show "getNextRuneIndex (states' ! unat j) = (if js1 \<noteq> [] \<and> j = last js1 then n else getNextRuneIndex (states ! unat j))"
        using nxt [OF range] by (simp add: word_unat_eq_iff)
    qed (use n len' new(1) in auto)
    then show ?thesis using first [OF i] by simp
  qed
  have sorted_i: "sorted_wrt (\<lambda>a b. rune_of states' a < rune_of states' b) (js1 @ n # js2)"
  proof -
    have r: "rune_of states' n = r" "j \<in> set (js1 @ js2) \<Longrightarrow> rune_of states' j = rune_of states j" for j
      using new(3) n(1) rune [OF range] by simp_all
    have "sorted_wrt (\<lambda>a b. rune_of states' a < rune_of states' b) (js1 @ js2)"
      using js(2) by (rule sorted_wrt_mono_rel [rotated]) (simp add: r(2))
    then show ?thesis using lt gt r by (auto simp: sorted_wrt_append)
  qed
  have other: "chain states' (getFirstRuneIndex (states' ! unat a)) ks \<and> (\<forall>k \<in> set ks. rune_of states' k = rune_of states k)"
    if a: "unat a < length states" "a \<noteq> i" and ks: "chain states (getFirstRuneIndex (states ! unat a)) ks" for a ks
  proof
    have "getFirstRuneIndex (states' ! unat a) = getFirstRuneIndex (states ! unat a)" using first [OF a(1)] a(2) by (simp add: word_unat_eq_iff)
    moreover have "getNextRuneIndex (states' ! unat j) = getNextRuneIndex (states ! unat j)" if j: "j \<in> set ks" for j
    proof -
      have "edge states a (Rune (rune_of states j)) j" using edge_Rune_chain [OF ks] j by blast
      then have "js1 \<noteq> [] \<Longrightarrow> j \<noteq> last js1" using edge_js [of "last js1"] trieD(5) [OF T a(1) i] a(2) by auto
      then show ?thesis using nxt [of "unat j"] chain_range [OF ks j] by (auto simp: word_unat_eq_iff)
    qed
    ultimately show "chain states' (getFirstRuneIndex (states' ! unat a)) ks" using chain_cong [OF ks] len' by simp
    show "\<forall>k \<in> set ks. rune_of states' k = rune_of states k" using rune chain_range [OF ks] by blast
  qed
  have old: "sorted_runes states' a \<and> (edge states' a (Rune q) b \<longleftrightarrow> edge states a (Rune q) b)" if a: "unat a < length states" "a \<noteq> i" for a q b
  proof -
    obtain ks where ks: "chain states (getFirstRuneIndex (states ! unat a)) ks" "sorted_wrt (\<lambda>a b. rune_of states a < rune_of states b) ks"
      using trieD(3) [OF T a(1)] unfolding sorted_runes_def by (elim exE conjE)
    note o = other [OF a ks(1), THEN conjunct1] other [OF a ks(1), THEN conjunct2, rule_format]
    have "sorted_wrt (\<lambda>a b. rune_of states' a < rune_of states' b) ks" using ks(2) by (rule sorted_wrt_mono_rel [rotated]) (simp add: o(2))
    then show ?thesis using o unfolding edge_Rune_chain [OF ks(1)] edge_Rune_chain [OF o(1)] sorted_runes_def by auto
  qed
  have at_i: "edge states' i (Rune q) b \<longleftrightarrow> edge states i (Rune q) b \<or> q = r \<and> b = n" for q b
    unfolding edge_Rune_chain [OF js(1)] edge_Rune_chain [OF chain_i] using new(3) n(1) rune [OF range] by auto
  have sorted: "sorted_runes states' a" if "unat a < length states'" for a
    using old [of a] no_runes [of states' a] new(2) that len' chain_i sorted_i
    by (cases "a = i"; cases "unat a < length states") (auto simp: less_Suc_eq sorted_runes_def)
  have edges: "edge states' a u b \<longleftrightarrow> unat a < length states \<and> edge states a u b \<or> a = i \<and> u = Rune r \<and> b = n" if a: "unat a < length states'" for a u b
  proof (cases "unat a < length states")
    case True
    then show ?thesis using old [of a] at_i wildcard_getters_cong [OF w [OF True]] by (cases u; cases "a = i") auto
  next
    case False
    then have "unat a = length states" using a len' by simp
    then show ?thesis using False no_runes [of states' a] new(2,4) i by (cases u) (auto simp: getStarIndex_def getStarStarSlashIndex_def)
  qed
  show ?thesis
    using len len' sorted edges wildcard_getters_cong [OF w] new(4) unfolding adds_edge_def n_def
    by (simp add: getEndState_def getHasPositiveEndState_def)
qed

lemma rune_adds_edge:
  assumes T: "trie states" and i: "unat i < length states" and len: "length states < 2 ^ 21" and r: "valid_rune r"
    and js: "chain states (getFirstRuneIndex (states ! unat i)) (js1 @ js2)" "sorted_wrt (\<lambda>a b. rune_of states a < rune_of states b) (js1 @ js2)"
    and lt: "\<forall>j \<in> set js1. rune_of states j < r" and gt: "\<forall>j \<in> set js2. r < rune_of states j"
    and s: "states' = update (if js1 = [] then update (states @ [zero_state]) i (setFirstRuneIndex (of_nat (length states)))
        else update (states @ [zero_state]) (last js1) (setNextRuneIndex (of_nat (length states))))
      (of_nat (length states)) (initializeRune r (chain_tail states (getFirstRuneIndex (states ! unat i)) js1))"
  shows "adds_edge states i (Rune r) states'"
proof -
  let ?n = "of_nat (length states) :: uint32" and ?cmp = "chain_tail states (getFirstRuneIndex (states ! unat i)) js1"
  have n: "unat ?n = length states" "unat ?n < 2 ^ 21" using len unat_new_index [of "length states"] by simp_all
  then have n0: "?n \<noteq> 0" using i by auto
  have "chain states ?cmp js2" using chain_tail [OF js(1)] .
  then have cmp: "unat ?cmp < 2 ^ 21" using len by (cases js2) (auto simp: chain_simps)
  have last: "unat (last js1) < length states" if "js1 \<noteq> []" using chain_range [OF js(1), of "last js1"] that by simp
  have len': "length states' = Suc (length states)" by (simp add: s update_def)
  have old: "states' ! k = (if js1 = [] then if k = unat i then setFirstRuneIndex ?n (states ! k) else states ! k
      else if k = unat (last js1) then setNextRuneIndex ?n (states ! k) else states ! k)" if "k < length states" for k
    using that i last n(1) by (auto simp: s update_def nth_list_update nth_append)
  have new: "states' ! length states = initializeRune r ?cmp zero_state"
    using i last n(1) by (auto simp: s update_def nth_list_update nth_append)
  note set_n = setFirstRuneIndex_fields [OF n(2)] setNextRuneIndex_fields [OF n(2)]
  have w: "wildcards (states' ! k) = wildcards (states ! k)" "rune (states' ! k) = rune (states ! k)"
    if "k < length states" "rune = getCurrentRune" for k rune
    unfolding old [OF that(1)] that(2) by (simp_all add: set_n)
  have first: "getFirstRuneIndex (states' ! k) = (if js1 = [] \<and> k = unat i then ?n else getFirstRuneIndex (states ! k))"
    and nxt: "getNextRuneIndex (states' ! k) = (if js1 \<noteq> [] \<and> k = unat (last js1) then ?n else getNextRuneIndex (states ! k))"
    if "k < length states" for k
    unfolding old [OF that] by (simp_all add: set_n)
  show ?thesis
    by (rule inserted_adds_edge [OF T i len js lt gt len' first nxt w(1) w(2) [OF _ refl]])
      (simp_all add: new initializeRune_fields [OF cmp] r zero_state_def)
qed

lemma addState_eq:
  assumes "length states \<le> 2 ^ 21"
  shows "addState states = (if length states < 2 ^ 21 then returnR (of_nat (length states), states @ [zero_state]) else failR (ErrOther 0))"
proof -
  have "unat (ucast (of_nat (length states) :: uint32) :: uint64) = length states"
    using assms unat_new_index [of "length states"] by (simp add: unat_ucast_up)
  moreover have "unat stateMask = 2 ^ 21 - 1" by (simp add: stateBits unat_mask_word)
  ultimately have "ucast (of_nat (length states) :: uint32) > stateMask \<longleftrightarrow> \<not> length states < 2 ^ 21"
    by (simp add: word_less_nat_alt) linarith
  then show ?thesis by (simp add: addState_def Let_def)
qed

definition getOrAdd :: "states \<Rightarrow> uint32 \<Rightarrow> token \<Rightarrow> (uint32 \<times> states) run" where
  "getOrAdd states i t =
     (case t of Rune r \<Rightarrow> getOrAddRune states i r | Star \<Rightarrow> getOrAddStar states i | StarStarSlash \<Rightarrow> getOrAddStarStarSlash states i)"

fun valid_token :: "token \<Rightarrow> bool" where
  "valid_token (Rune r) = valid_rune r"
| "valid_token t = True"

lemma getOrAdd_spec:
  assumes T: "trie states" and i: "unat i < length states" and t: "valid_token t"
  obtains (existing) j where "edge states i t j" "getOrAdd states i t = returnR (j, states)"
  | (new) states' where "\<And>j. \<not> edge states i t j" "adds_edge states i t states'" "getOrAdd states i t = returnR (of_nat (length states), states')"
  | (limit) "\<not> length states < 2 ^ 21" "getOrAdd states i t = failR (ErrOther 0)"
proof -
  have idx: "index states i = returnR (states ! unat i)" using i by (simp add: index_def)
  note add = addState_eq [OF trieD(2) [OF T]]
  show thesis
  proof (cases t)
    case (Rune r)
    obtain js where js: "chain states (getFirstRuneIndex (states ! unat i)) js" "sorted_wrt (\<lambda>a b. rune_of states a < rune_of states b) js"
      using trieD(3) [OF T i] unfolding sorted_runes_def by (elim exE conjE)
    from find_rune_spec [OF js, of r 0]
    consider (found) j where "j \<in> set js" "rune_of states j = r" "find_rune states r 0 (getFirstRuneIndex (states ! unat i)) = returnR (Inl j)"
      | (gap) js1 js2 where "js = js1 @ js2" "\<forall>j \<in> set js1. rune_of states j < r" "\<forall>j \<in> set js2. r < rune_of states j"
        "find_rune states r 0 (getFirstRuneIndex (states ! unat i))
          = returnR (Inr (if js1 = [] then 0 else last js1, chain_tail states (getFirstRuneIndex (states ! unat i)) js1))" by auto
    then show thesis
    proof cases
      case found
      then show thesis using existing [of j] edge_Rune_chain [OF js(1)] idx by (simp add: getOrAdd_def Rune getOrAddRune_def)
    next
      case gap
      have none: "\<not> edge states i t j" for j using gap(1-3) edge_Rune_chain [OF js(1)] by (auto simp: Rune)
      have prev: "(if js1 = [] then 0 else last js1) = 0 \<longleftrightarrow> js1 = []" using chain_range [OF js(1), of "last js1"] gap(1) by auto
      show thesis
      proof (cases "length states < 2 ^ 21")
        case True
        have r: "valid_rune r" using t Rune by simp
        show thesis using none rune_adds_edge [OF T i True r js(1) [unfolded gap(1)] js(2) [unfolded gap(1)] gap(2,3) refl] True gap(4) prev idx add
          by (intro new) (auto simp: getOrAdd_def Rune getOrAddRune_def Let_def)
      qed (use limit gap(4) idx add in \<open>auto simp: getOrAdd_def Rune getOrAddRune_def\<close>)
    qed
  next
    case Star
    show thesis
    proof (cases "getStarIndex (states ! unat i) = 0")
      case none: True
      then have ne: "\<not> edge states i t j" for j by (simp add: Star)
      show thesis
      proof (cases "length states < 2 ^ 21")
        case True
        show thesis using none wildcard_adds_edge [OF T i True _ ne refl] True idx add
          by (intro new [OF ne]) (auto simp: getOrAdd_def Star getOrAddStar_def Let_def)
      qed (use limit none idx add in \<open>auto simp: getOrAdd_def Star getOrAddStar_def\<close>)
    qed (use existing idx in \<open>auto simp: getOrAdd_def Star getOrAddStar_def\<close>)
  next
    case StarStarSlash
    show thesis
    proof (cases "getStarStarSlashIndex (states ! unat i) = 0")
      case none: True
      then have ne: "\<not> edge states i t j" for j by (simp add: StarStarSlash)
      show thesis
      proof (cases "length states < 2 ^ 21")
        case True
        show thesis using none wildcard_adds_edge [OF T i True _ ne refl] True idx add
          by (intro new [OF ne]) (auto simp: getOrAdd_def StarStarSlash getOrAddStarStarSlash_def Let_def)
      qed (use limit none idx add in \<open>auto simp: getOrAdd_def StarStarSlash getOrAddStarStarSlash_def\<close>)
    qed (use existing idx in \<open>auto simp: getOrAdd_def StarStarSlash getOrAddStarStarSlash_def\<close>)
  qed
qed

section \<open>Paths\<close>

primrec reach :: "states \<Rightarrow> uint32 \<Rightarrow> token list \<Rightarrow> uint32 \<Rightarrow> bool" where
  "reach states i [] k \<longleftrightarrow> k = i"
| "reach states i (t # ts) k \<longleftrightarrow> (\<exists>j. edge states i t j \<and> reach states j ts k)"

lemma reach_append: "reach states i (ts @ us) k \<longleftrightarrow> (\<exists>j. reach states i ts j \<and> reach states j us k)"
  by (induction ts arbitrary: i) auto

lemma reach_snoc: "reach states i (ts @ [t]) k \<longleftrightarrow> (\<exists>j. reach states i ts j \<and> edge states j t k)"
  by (simp add: reach_append)

lemma reach_range: "trie states \<Longrightarrow> unat i < length states \<Longrightarrow> reach states i ts k \<Longrightarrow> unat k < length states \<and> (ts \<noteq> [] \<longrightarrow> unat i < unat k)"
proof (induction ts arbitrary: i)
  case (Cons t ts)
  then obtain j where j: "edge states i t j" "reach states j ts k" by auto
  then show ?case using trieD(4) [OF Cons.prems(1,2) j(1)] Cons.IH [OF Cons.prems(1) _ j(2)] by (cases ts) auto
qed simp

lemma trie_0: "trie states \<Longrightarrow> unat (0 :: uint32) < length states"
  using trieD(1) by fastforce

lemma reach_det: "trie states \<Longrightarrow> unat i < length states \<Longrightarrow> reach states i ts k \<Longrightarrow> reach states i ts k' \<Longrightarrow> k = k'"
proof (induction ts arbitrary: i)
  case (Cons t ts)
  then obtain j j' where j: "edge states i t j" "reach states j ts k" "edge states i t j'" "reach states j' ts k'" by auto
  then have "j = j'" using edge_det [OF Cons.prems(1,2)] by blast
  then show ?case using Cons.IH [of j] j trieD(4) [OF Cons.prems(1,2) j(1)] Cons.prems(1) by blast
qed simp

lemma reach_unique: "trie states \<Longrightarrow> reach states 0 ts k \<Longrightarrow> reach states 0 us k \<Longrightarrow> ts = us"
proof (induction ts arbitrary: k us rule: rev_induct)
  case Nil
  then show ?case using reach_range [OF Nil.prems(1) trie_0 [OF Nil.prems(1)] Nil.prems(3)] by auto
next
  case (snoc t ts)
  have "us \<noteq> []" using reach_range [OF snoc.prems(1) trie_0 [OF snoc.prems(1)] snoc.prems(2)] snoc.prems(3) by auto
  then obtain us' u where us: "us = us' @ [u]" by (metis rev_exhaust)
  obtain j j' where j: "reach states 0 ts j" "edge states j t k" "reach states 0 us' j'" "edge states j' u k"
    using snoc.prems(2,3) unfolding us reach_snoc by blast
  have "unat j < length states" "unat j' < length states" using reach_range [OF snoc.prems(1) trie_0 [OF snoc.prems(1)]] j(1,3) by blast+
  then have "j = j'" "t = u" using trieD(5) [OF snoc.prems(1) _ _ j(2,4)] by blast+
  then show ?case using snoc.IH [OF snoc.prems(1) j(1)] j(3) us by simp
qed

lemma adds_edge_reach:
  assumes T: "trie states" and i: "unat i < length states" and new: "\<And>j. \<not> edge states i t j" and a: "adds_edge states i t states'"
  shows "reach states' 0 ts k \<longleftrightarrow> reach states 0 ts k \<or> (\<exists>us. ts = us @ [t] \<and> reach states 0 us i \<and> k = of_nat (length states))"
proof (induction ts arbitrary: k rule: rev_induct)
  case (snoc u ts)
  let ?n = "of_nat (length states) :: uint32"
  have n: "unat ?n = length states" "length states' = Suc (length states)" using a by (simp_all add: adds_edge_def unat_new_index)
  have e: "edge states' a u b \<longleftrightarrow> unat a < length states \<and> edge states a u b \<or> a = i \<and> u = t \<and> b = ?n" if "unat a < length states'" for a b
    using a that unfolding adds_edge_def by blast
  have range: "unat j < length states" if "reach states 0 ts j" for j using reach_range [OF T trie_0 [OF T] that] by simp
  have dead: "\<not> edge states' ?n u b" for b using e [of ?n b] n i by auto
  have "reach states' 0 (ts @ [u]) k \<longleftrightarrow> (\<exists>j. reach states 0 ts j \<and> edge states' j u k)"
    unfolding reach_snoc snoc.IH using dead by blast
  also have "\<dots> \<longleftrightarrow> (\<exists>j. reach states 0 ts j \<and> edge states j u k) \<or> reach states 0 ts i \<and> u = t \<and> k = ?n"
  proof -
    have "edge states' j u k \<longleftrightarrow> edge states j u k \<or> j = i \<and> u = t \<and> k = ?n" if "reach states 0 ts j" for j
      using e [of j k] range [OF that] n by simp
    then show ?thesis by blast
  qed
  finally show ?case by (auto simp: reach_snoc)
qed auto

text \<open>The sequences of tokens that lead to an end state of a given kind.\<close>

definition final :: "states \<Rightarrow> endState \<Rightarrow> token list \<Rightarrow> bool" where
  "final states e ts \<longleftrightarrow> (\<exists>k. reach states 0 ts k \<and> getEndState (states ! unat k) = e)"

definition unflagged :: "states \<Rightarrow> bool" where
  "unflagged states \<longleftrightarrow> (\<forall>s \<in> set states. \<not> getHasPositiveEndState s)"

definition grows :: "states \<Rightarrow> token list \<Rightarrow> states \<Rightarrow> bool" where
  "grows states ts states' \<longleftrightarrow> trie states' \<and> length states \<le> length states' \<and> length states' \<le> Suc (length states)
     \<and> (\<forall>us k. reach states 0 us k \<longrightarrow> reach states' 0 us k)
     \<and> (\<forall>us k. reach states' 0 us k \<longrightarrow> us = ts \<or> reach states 0 us k)
     \<and> (\<forall>e us. e \<noteq> 0 \<longrightarrow> final states' e us = final states e us)
     \<and> (unflagged states \<longrightarrow> unflagged states')"

lemma adds_edge_grows:
  assumes T: "trie states" and i: "reach states 0 ts i" and new: "\<And>j. \<not> edge states i t j" and a: "adds_edge states i t states'"
  shows "grows states (ts @ [t]) states'" "reach states' 0 (ts @ [t]) (of_nat (length states))"
proof -
  let ?n = "of_nat (length states) :: uint32"
  have il: "unat i < length states" using reach_range [OF T trie_0 [OF T] i] by simp
  note r = adds_edge_reach [OF T il new a]
  have n: "unat ?n = length states" "length states' = Suc (length states)" using a by (simp_all add: adds_edge_def unat_new_index)
  have ends: "getEndState (states' ! k) = getEndState (states ! k)" "getHasPositiveEndState (states' ! k) = getHasPositiveEndState (states ! k)"
    if "k < length states" for k using a that by (auto simp: adds_edge_def)
  have new_end: "getEndState (states' ! length states) = 0" "\<not> getHasPositiveEndState (states' ! length states)"
    using a by (auto simp: adds_edge_def)
  have range: "reach states 0 us k \<Longrightarrow> unat k < length states" for us k using reach_range [OF T trie_0 [OF T]] by simp
  have "final states' e us = final states e us" if "e \<noteq> 0" for e us
    unfolding final_def r using that ends(1) range n(1) new_end(1) by (metis (no_types, lifting))
  moreover have "unflagged states'" if "unflagged states"
    using that ends(2) new_end(2) n(2) unfolding unflagged_def all_set_conv_all_nth by (auto simp: less_Suc_eq)
  moreover have "us = ts @ [t] \<or> reach states 0 us k" if "reach states' 0 us k" for us k
    using that reach_unique [OF T i] unfolding r by auto
  ultimately show "grows states (ts @ [t]) states'" unfolding grows_def using adds_edge_trie [OF T il new a] n(2) r by simp
  show "reach states' 0 (ts @ [t]) ?n" unfolding r using i by blast
qed

lemma getOrAdd_grows:
  assumes T: "trie states" and i: "reach states 0 ts i" and t: "valid_token t"
  obtains (ok) j states' where "getOrAdd states i t = returnR (j, states')" "grows states (ts @ [t]) states'" "reach states' 0 (ts @ [t]) j"
  | (limit) "getOrAdd states i t = failR (ErrOther 0)" "\<not> length states < 2 ^ 21"
proof -
  have il: "unat i < length states" using reach_range [OF T trie_0 [OF T] i] by simp
  from T il t show thesis
  proof (cases rule: getOrAdd_spec)
    case (existing j)
    then show thesis using ok [of j states] T i by (auto simp: grows_def reach_snoc)
  next
    case (new states')
    then show thesis using ok adds_edge_grows [OF T i] by blast
  next
    case limit
    then show thesis using that(2) by blast
  qed
qed

end
