(* ===== verification/Glob_Patterns.thy ===== *)
theory Glob_Patterns
  imports Glob_Trie "HOL-Library.Sublist"
begin

text \<open>
  The tokens that a pattern consists of, and the proof that compiling a pattern adds exactly its tokens to the trie. The
  reference definition takes a pattern apart component by component.
\<close>

section \<open>Changes that keep the edges\<close>

lemma same_edges:
  assumes T: "trie states" and len: "length states' = length states"
    and s: "\<And>k. k < length states \<Longrightarrow> getStarIndex (states' ! k) = getStarIndex (states ! k)
      \<and> getStarStarSlashIndex (states' ! k) = getStarStarSlashIndex (states ! k) \<and> runes (states' ! k) = runes (states ! k)"
  shows "trie states'" "unat i < length states \<Longrightarrow> edge states' i t j = edge states i t j" "reach states' 0 ts k = reach states 0 ts k"
proof -
  have e: "edge states' i t j = edge states i t j" if "unat i < length states" for i t j
    using that s [OF that] same_runes(1) [OF T, of states' i _ j] s len by (cases t) auto
  then show "unat i < length states \<Longrightarrow> edge states' i t j = edge states i t j" .
  show "trie states'"
    unfolding trie_def len
  proof (intro conjI allI impI)
    fix a b a' :: uint32 and u u'
    assume a: "unat a < length states"
    show "sorted_runes states' a" using same_runes(2) [OF T _ _ a] s len by simp
    assume b: "edge states' a u b"
    show "unat a < unat b" "unat b < length states" using trieD(4) [OF T a] e [OF a] b by blast+
    assume a': "unat a' < length states" "edge states' a' u' b"
    show "a = a'" "u = u'" using trieD(5) [OF T a a'(1)] e [OF a] e [OF a'(1)] b a'(2) by blast+
  qed (use trieD(1,2) [OF T] in simp_all)
  show "reach states' 0 ts k = reach states 0 ts k"
  proof (induction ts arbitrary: k rule: rev_induct)
    case (snoc t ts)
    then show ?case unfolding reach_snoc using e reach_range [OF T trie_0 [OF T]] by blast
  qed simp
qed

lemma setEndState_final:
  assumes T: "trie states" and k: "reach states 0 ts k" and e: "e < 2 ^ 21"
  shows "trie (update states k (setEndState e))" "reach (update states k (setEndState e)) 0 us j = reach states 0 us j"
    "final (update states k (setEndState e)) e' us \<longleftrightarrow> (if us = ts then e' = e else final states e' us)"
    "unflagged (update states k (setEndState e)) = unflagged states" "length (update states k (setEndState e)) = length states"
proof -
  let ?s = "update states k (setEndState e)"
  have kl: "unat k < length states" using reach_range [OF T trie_0 [OF T] k] by simp
  have nth: "?s ! j = (if j = unat k then setEndState e (states ! j) else states ! j)" if "j < length states" for j
    using that kl by (simp add: update_def)
  show len: "length ?s = length states" by (simp add: update_def)
  have same: "getStarIndex (?s ! j) = getStarIndex (states ! j)
      \<and> getStarStarSlashIndex (?s ! j) = getStarStarSlashIndex (states ! j) \<and> runes (?s ! j) = runes (states ! j)" if "j < length states" for j
    using nth [OF that] by (simp add: state_simps)
  show "trie ?s" and r: "\<And>us j. reach ?s 0 us j = reach states 0 us j" using same_edges [OF T len same] by blast+
  show "unflagged ?s = unflagged states"
    unfolding unflagged_def all_set_conv_all_nth len using nth by (auto simp: state_simps)
  have range: "unat j < length states" if "reach states 0 us j" for us j using reach_range [OF T trie_0 [OF T] that] by simp
  have get: "getEndState (?s ! unat j) = (if j = k then e else getEndState (states ! unat j))" if "unat j < length states" for j
    using nth [OF that] e by (simp add: state_simps word_unat_eq_iff)
  show "final ?s e' us \<longleftrightarrow> (if us = ts then e' = e else final states e' us)"
  proof (cases "us = ts")
    case True
    have "reach states 0 us j \<longleftrightarrow> j = k" for j using k True reach_det [OF T trie_0 [OF T]] by blast
    then show ?thesis using True get [OF kl] by (auto simp: final_def r)
  next
    case False
    have "getEndState (?s ! unat j) = getEndState (states ! unat j)" if "reach states 0 us j" for j
      using reach_unique [OF T k, of us] get [OF range] that False by auto
    then show ?thesis using False by (auto simp: final_def r)
  qed
qed

section \<open>Tokens\<close>

text \<open>The tokens of the rest of a pattern, given the flags of \<open>addPattern\<close>, and whether it ends in two stars.\<close>

fun tokens :: "bool \<Rightarrow> bool \<Rightarrow> nat \<Rightarrow> rune list \<Rightarrow> (token list \<times> bool) option" where
  "tokens gr gs n [] =
     (if n = 0 then (if gr then Some ([], False) else None)
      else if n = 1 then Some ([Star], False)
      else if gs then None else Some ([StarStarSlash, Star], True))"
| "tokens gr gs n (r # rs) =
     (if r = asterisk then (if n = 1 \<and> gr \<or> n = 2 then None else tokens gr gs (n + 1) rs)
      else if r = slash then
        if n = 2 then (if gs then None else map_option (apfst ((#) StarStarSlash)) (tokens False True 0 rs))
        else if n = 0 \<and> \<not> gr then None
        else map_option (apfst (\<lambda>ts. (if n = 1 then [Star] else []) @ Rune slash # ts)) (tokens False False 0 rs)
      else if n = 2 then None
      else map_option (apfst (\<lambda>ts. (if n = 1 then [Star] else []) @ Rune r # ts)) (tokens True gs 0 rs))"

text \<open>Wildcards are not followed by wildcards, except for a star after a double star.\<close>

definition wild_ok :: "token list \<Rightarrow> bool" where
  "wild_ok = successively (\<lambda>a b. (a = Star \<longrightarrow> (\<exists>r. b = Rune r)) \<and> (a = StarStarSlash \<longrightarrow> b \<noteq> StarStarSlash))"

lemma tokens_wild_ok:
  "tokens gr gs n rs = Some (us, b) \<Longrightarrow> n \<le> 2 \<Longrightarrow> (n = 2 \<longrightarrow> \<not> gr) \<Longrightarrow>
     wild_ok us \<and> (us \<noteq> [] \<and> hd us = StarStarSlash \<longrightarrow> \<not> gs)"
proof (induction gr gs n rs arbitrary: us b rule: tokens.induct)
  case (2 gr gs n r rs)
  then show ?case
    by (auto simp: wild_ok_def successively_Cons split: if_splits)
qed (auto simp: wild_ok_def split: if_splits)

section \<open>Compilation\<close>

definition walk :: "token \<Rightarrow> pattern_state \<Rightarrow> pattern_state run" where
  "walk t p = bindR (getOrAdd (ps_states p) (currentState p) t) (\<lambda>(i, states). returnR (p\<lparr>ps_states := states, currentState := i\<rparr>))"

lemma walk_eqs: "walk_star = walk Star" "walk_starStarSlash = walk StarStarSlash" "walk_rune r = walk (Rune r)"
  by (simp_all add: fun_eq_iff walk_star_def walk_starStarSlash_def walk_rune_def walk_def getOrAdd_def)

lemma walk_cases:
  assumes "trie (ps_states p)" "reach (ps_states p) 0 ts (currentState p)" "valid_token t"
  obtains (ok) j states where "walk t p = returnR (p\<lparr>ps_states := states, currentState := j\<rparr>)" "grows (ps_states p) (ts @ [t]) states"
    "reach states 0 (ts @ [t]) j"
  | (limit) "walk t p = failR (ErrOther 0)" "2 ^ 21 \<le> length (ps_states p)"
  using assms by (cases rule: getOrAdd_grows) (auto simp: walk_def)

text \<open>The rest of \<open>addPattern\<close>.\<close>

definition finish :: "endState \<Rightarrow> pattern_state \<Rightarrow> rune list \<Rightarrow> states run" where
  "finish e p rs = bindR (pattern_loop rs p) (\<lambda>p. bindR (pattern_end e p) (\<lambda>p. returnR (update (ps_states p) (currentState p) (setEndState e))))"

lemma finish_Cons: "finish e p (r # rs) = bindR (pattern_step r p) (\<lambda>p. finish e p rs)"
  by (simp add: finish_def bindR_assoc)

text \<open>The automaton after the tokens \<open>us\<close> were added below the state of \<open>ts\<close>.\<close>

definition compiled :: "states \<Rightarrow> token list \<Rightarrow> token list \<Rightarrow> bool \<Rightarrow> endState \<Rightarrow> states \<Rightarrow> bool" where
  "compiled states ts us b e states' \<longleftrightarrow> trie states' \<and> length states' \<le> length states + length us
     \<and> (unflagged states \<longrightarrow> unflagged states')
     \<and> (\<forall>vs k. reach states' 0 vs k \<longrightarrow> reach states 0 vs k \<or> prefix vs (ts @ us))
     \<and> (\<forall>e' vs. e' \<noteq> 0 \<longrightarrow> final states' e' vs \<longleftrightarrow>
          (if vs = ts @ us \<or> b \<and> ts @ us = vs @ [Rune slash, StarStarSlash, Star] then e' = e else final states e' vs))"

lemma grows_compiled:
  assumes "grows states (ts @ [t]) states1" "compiled states1 (ts @ [t]) us b e states'"
  shows "compiled states ts (t # us) b e states'"
proof -
  have r: "reach states 0 vs k \<or> prefix vs (ts @ t # us)" if "reach states' 0 vs k" for vs k
  proof -
    have "reach states1 0 vs k \<or> prefix vs ((ts @ [t]) @ us)" using that assms(2) unfolding compiled_def by blast
    moreover have "reach states1 0 vs k \<Longrightarrow> vs = ts @ [t] \<or> reach states 0 vs k" using assms(1) unfolding grows_def by blast
    moreover have "prefix (ts @ [t]) (ts @ t # us)" by simp
    ultimately show ?thesis by auto
  qed
  have "final states' e' vs \<longleftrightarrow> (if vs = ts @ t # us \<or> b \<and> ts @ t # us = vs @ [Rune slash, StarStarSlash, Star] then e' = e else final states e' vs)"
    if "e' \<noteq> 0" for e' vs
    using assms that unfolding compiled_def grows_def by simp
  then show ?thesis using assms r unfolding grows_def compiled_def by simp
qed

definition outcome :: "states \<Rightarrow> token list \<Rightarrow> (token list \<times> bool) option \<Rightarrow> endState \<Rightarrow> states run \<Rightarrow> bool" where
  "outcome states ts res e m \<longleftrightarrow>
     (case res of
        None \<Rightarrow> m = failR malformed \<or> m = failR (ErrOther 0)
      | Some (us, b) \<Rightarrow> (\<exists>states'. m = returnR states' \<and> compiled states ts us b e states')
          \<or> m = failR (ErrOther 0) \<and> 2 ^ 21 \<le> length states + length us)"

lemma walk_outcome:
  assumes "trie (ps_states p)" "reach (ps_states p) 0 ts (currentState p)" "valid_token t"
    and "\<And>states j. trie states \<Longrightarrow> reach states 0 (ts @ [t]) j \<Longrightarrow> (\<And>vs k. reach (ps_states p) 0 vs k \<Longrightarrow> reach states 0 vs k) \<Longrightarrow>
      outcome states (ts @ [t]) res e (f (p\<lparr>ps_states := states, currentState := j\<rparr>))"
  shows "outcome (ps_states p) ts (map_option (apfst ((#) t)) res) e (bindR (walk t p) f)"
  using assms(1-3)
proof (cases rule: walk_cases)
  case (ok j states)
  then have o: "outcome states (ts @ [t]) res e (f (p\<lparr>ps_states := states, currentState := j\<rparr>))"
    using assms(4) [of states j] by (auto simp: grows_def)
  have "length states \<le> Suc (length (ps_states p))" using ok(2) by (simp add: grows_def)
  then show ?thesis using o ok(1) grows_compiled [OF ok(2)] unfolding outcome_def by (fastforce split: option.splits)
qed (auto simp: outcome_def split: option.splits)

text \<open>The invariant of the loop over the runes of a pattern.\<close>

definition pattern_inv :: "pattern_state \<Rightarrow> token list \<Rightarrow> bool" where
  "pattern_inv p ts \<longleftrightarrow> trie (ps_states p) \<and> reach (ps_states p) 0 ts (currentState p) \<and> gotStars p \<le> 2
     \<and> (gotStars p = 2 \<longrightarrow> \<not> gotRunes p) \<and> (gotRunes p \<longrightarrow> ts \<noteq> [])
     \<and> (\<not> gotRunes p \<and> \<not> gotStarStarSlash p \<longrightarrow> ts = [] \<and> previousDirectoryEndState p = 0
         \<or> (\<exists>ds. ts = ds @ [Rune slash] \<and> ds \<noteq> [] \<and> reach (ps_states p) 0 ds (previousDirectoryEndState p)))"

lemma done_outcome:
  assumes "trie states" "reach states 0 ts k" "e < 2 ^ 21"
  shows "outcome states ts (Some ([], False)) e (returnR (update states k (setEndState e)))"
  using setEndState_final [OF assms] by (auto simp: outcome_def compiled_def)

lemma star_outcome:
  assumes "trie (ps_states p)" "reach (ps_states p) 0 ts (currentState p)" "e < 2 ^ 21"
  shows "outcome (ps_states p) ts (Some ([Star], False)) e (bindR (walk Star p) (\<lambda>p. returnR (update (ps_states p) (currentState p) (setEndState e))))"
  using walk_outcome [OF assms(1,2), of Star "Some ([], False)" e] done_outcome [OF _ _ assms(3)] by simp

lemma directory_outcome:
  assumes p: "pattern_inv p ts" "\<not> gotRunes p" "\<not> gotStarStarSlash p" and e: "e < 2 ^ 21"
    and p': "p' = (if previousDirectoryEndState p > 0 then p\<lparr>ps_states := update (ps_states p) (previousDirectoryEndState p) (setEndState e)\<rparr> else p)"
    and o: "outcome (ps_states p') ts (Some ([StarStarSlash, Star], False)) e m"
  shows "outcome (ps_states p) ts (Some ([StarStarSlash, Star], True)) e m"
proof -
  have T: "trie (ps_states p)" using p(1) by (simp add: pattern_inv_def)
  from p consider (root) "ts = []" "previousDirectoryEndState p = 0"
    | (dir) ds where "ts = ds @ [Rune slash]" "ds \<noteq> []" "reach (ps_states p) 0 ds (previousDirectoryEndState p)"
    unfolding pattern_inv_def by blast
  then show ?thesis
  proof cases
    case root
    then show ?thesis using o p' by (auto simp: outcome_def compiled_def Cons_eq_append_conv)
  next
    case dir
    have "previousDirectoryEndState p > 0" using reach_range [OF T trie_0 [OF T] dir(3)] dir(2) by (simp add: word_less_nat_alt)
    then have "ps_states p' = update (ps_states p) (previousDirectoryEndState p) (setEndState e)" using p' by simp
    then show ?thesis using o setEndState_final [OF T dir(3) e] dir(1) unfolding outcome_def compiled_def by auto
  qed
qed

lemma end_outcome:
  assumes p: "pattern_inv p ts" and e: "e < 2 ^ 21"
  shows "outcome (ps_states p) ts (tokens (gotRunes p) (gotStarStarSlash p) (gotStars p) []) e (finish e p [])"
proof -
  have T: "trie (ps_states p)" "reach (ps_states p) 0 ts (currentState p)" using p by (simp_all add: pattern_inv_def)
  consider "gotStars p = 0" | "gotStars p = 1" | "gotStars p = 2" using p unfolding pattern_inv_def by linarith
  then show ?thesis
  proof cases
    case 1
    then show ?thesis using done_outcome [OF T e] by (auto simp: finish_def pattern_end_def outcome_def)
  next
    case 2
    then show ?thesis using star_outcome [OF T e] by (simp add: finish_def pattern_end_def walk_eqs)
  next
    case 3
    show ?thesis
    proof (cases "gotStarStarSlash p")
      case True
      then show ?thesis using 3 by (simp add: finish_def pattern_end_def outcome_def)
    next
      case False
      define p' where "p' = (if previousDirectoryEndState p > 0 then p\<lparr>ps_states := update (ps_states p) (previousDirectoryEndState p) (setEndState e)\<rparr> else p)"
      have gr: "\<not> gotRunes p" using p 3 by (simp add: pattern_inv_def)
      have T': "trie (ps_states p')" "reach (ps_states p') 0 ts (currentState p')"
        using T p gr False setEndState_final(1,2) [OF T(1) _ e] by (auto simp: p'_def pattern_inv_def)
      have "outcome (ps_states p') ts (Some ([StarStarSlash, Star], False)) e
          (bindR (walk StarStarSlash p') (\<lambda>p. bindR (walk Star p) (\<lambda>p. returnR (update (ps_states p) (currentState p) (setEndState e)))))"
        by (rule walk_outcome [OF T', of StarStarSlash "Some ([Star], False)" e, simplified])
          (use star_outcome [OF _ _ e, of "p'\<lparr>ps_states := _, currentState := _\<rparr>"] in simp)
      then have "outcome (ps_states p) ts (Some ([StarStarSlash, Star], True)) e
          (bindR (walk StarStarSlash p') (\<lambda>p. bindR (walk Star p) (\<lambda>p. returnR (update (ps_states p) (currentState p) (setEndState e)))))"
        by (rule directory_outcome [OF p gr False e p'_def])
      then show ?thesis using 3 False by (simp add: finish_def pattern_end_def walk_eqs bindR_assoc p'_def Let_def)
    qed
  qed
qed

lemma rune_outcome:
  assumes "trie (ps_states p)" "reach (ps_states p) 0 ts (currentState p)" "valid_rune r"
    and IH: "\<And>p ts. pattern_inv p ts \<Longrightarrow> outcome (ps_states p) ts (tokens (gotRunes p) (gotStarStarSlash p) (gotStars p) rs) e (finish e p rs)"
  shows "outcome (ps_states p) ts (map_option (apfst ((#) (Rune r))) (tokens True (gotStarStarSlash p) 0 rs)) e
      (bindR (walk (Rune r) p) (\<lambda>p. finish e (p\<lparr>gotRunes := True, gotStars := 0\<rparr>) rs))"
proof (rule walk_outcome [OF assms(1,2)])
  fix states j assume "trie states" "reach states 0 (ts @ [Rune r]) j"
  then show "outcome states (ts @ [Rune r]) (tokens True (gotStarStarSlash p) 0 rs) e
      (finish e (p\<lparr>ps_states := states, currentState := j, gotRunes := True, gotStars := 0\<rparr>) rs)"
    using IH [of "p\<lparr>ps_states := states, currentState := j, gotRunes := True, gotStars := 0\<rparr>" "ts @ [Rune r]"]
    by (simp add: pattern_inv_def)
qed (use assms(3) in simp)

lemma slash_outcome:
  assumes "trie (ps_states p)" "reach (ps_states p) 0 ts (currentState p)" "ts \<noteq> []"
    and IH: "\<And>p ts. pattern_inv p ts \<Longrightarrow> outcome (ps_states p) ts (tokens (gotRunes p) (gotStarStarSlash p) (gotStars p) rs) e (finish e p rs)"
  shows "outcome (ps_states p) ts (map_option (apfst ((#) (Rune slash))) (tokens False False 0 rs)) e
      (bindR (walk (Rune slash) (p\<lparr>previousDirectoryEndState := currentState p\<rparr>))
        (\<lambda>p. finish e (p\<lparr>gotStarStarSlash := False, gotRunes := False, gotStars := 0\<rparr>) rs))"
proof -
  let ?p = "p\<lparr>previousDirectoryEndState := currentState p\<rparr>"
  have "outcome (ps_states ?p) ts (map_option (apfst ((#) (Rune slash))) (tokens False False 0 rs)) e
      (bindR (walk (Rune slash) ?p) (\<lambda>p. finish e (p\<lparr>gotStarStarSlash := False, gotRunes := False, gotStars := 0\<rparr>) rs))"
  proof (rule walk_outcome)
    fix states j
    assume s: "trie states" "reach states 0 (ts @ [Rune slash]) j" "\<And>vs k. reach (ps_states ?p) 0 vs k \<Longrightarrow> reach states 0 vs k"
    let ?q = "p\<lparr>previousDirectoryEndState := currentState p, ps_states := states, currentState := j,
      gotStarStarSlash := False, gotRunes := False, gotStars := 0\<rparr>"
    have "pattern_inv ?q (ts @ [Rune slash])" using s assms(2,3) by (simp add: pattern_inv_def)
    from IH [OF this] show "outcome states (ts @ [Rune slash]) (tokens False False 0 rs) e
        (finish e (?p\<lparr>ps_states := states, currentState := j, gotStarStarSlash := False, gotRunes := False, gotStars := 0\<rparr>) rs)"
      by simp
  qed (use assms in \<open>simp_all add: valid_rune_def\<close>)
  then show ?thesis by simp
qed

lemma starStarSlash_outcome:
  assumes "trie (ps_states p)" "reach (ps_states p) 0 ts (currentState p)"
    and IH: "\<And>p ts. pattern_inv p ts \<Longrightarrow> outcome (ps_states p) ts (tokens (gotRunes p) (gotStarStarSlash p) (gotStars p) rs) e (finish e p rs)"
  shows "outcome (ps_states p) ts (map_option (apfst ((#) StarStarSlash)) (tokens False True 0 rs)) e
      (bindR (walk StarStarSlash p) (\<lambda>p. finish e (p\<lparr>gotStarStarSlash := True, gotRunes := False, gotStars := 0\<rparr>) rs))"
proof (rule walk_outcome [OF assms(1,2)])
  fix states j assume "trie states" "reach states 0 (ts @ [StarStarSlash]) j"
  then show "outcome states (ts @ [StarStarSlash]) (tokens False True 0 rs) e
      (finish e (p\<lparr>ps_states := states, currentState := j, gotStarStarSlash := True, gotRunes := False, gotStars := 0\<rparr>) rs)"
    using IH [of "p\<lparr>ps_states := states, currentState := j, gotStarStarSlash := True, gotRunes := False, gotStars := 0\<rparr>" "ts @ [StarStarSlash]"]
    by (simp add: pattern_inv_def)
qed simp

text \<open>A pending star is added before the rune that follows it.\<close>

lemma pending_star_outcome:
  assumes "trie (ps_states p)" "reach (ps_states p) 0 ts (currentState p)"
    and "\<And>states j. trie states \<Longrightarrow> reach states 0 (ts @ [Star]) j \<Longrightarrow>
      outcome states (ts @ [Star]) (map_option (apfst ((#) t)) res) e (f (p\<lparr>ps_states := states, currentState := j\<rparr>))"
  shows "outcome (ps_states p) ts (map_option (apfst (\<lambda>ts. [Star] @ t # ts)) res) e (bindR (walk Star p) f)"
proof -
  have "map_option (apfst (\<lambda>ts. [Star] @ t # ts)) res = map_option (apfst ((#) Star)) (map_option (apfst ((#) t)) res)"
    by (cases res) (auto simp: apfst_def)
  then show ?thesis using walk_outcome [OF assms(1,2), of Star "map_option (apfst ((#) t)) res" e f] assms(3) by simp
qed

lemma slash_step_outcome:
  assumes inv: "pattern_inv p ts"
    and IH: "\<And>p ts. pattern_inv p ts \<Longrightarrow> outcome (ps_states p) ts (tokens (gotRunes p) (gotStarStarSlash p) (gotStars p) rs) e (finish e p rs)"
  shows "outcome (ps_states p) ts (tokens (gotRunes p) (gotStarStarSlash p) (gotStars p) (slash # rs)) e (finish e p (slash # rs))"
proof -
  have T: "trie (ps_states p)" "reach (ps_states p) 0 ts (currentState p)" using inv by (simp_all add: pattern_inv_def)
  consider "gotStars p = 0" | "gotStars p = 1" | "gotStars p = 2" using inv unfolding pattern_inv_def by linarith
  then show ?thesis
  proof cases
    case 1
    show ?thesis
    proof (cases "gotRunes p")
      case True
      then have "ts \<noteq> []" using inv by (simp add: pattern_inv_def)
      from slash_outcome [OF T this IH] show ?thesis using 1 True
        by (simp add: finish_Cons pattern_step_def pattern_slash_def walk_eqs bindR_assoc)
    qed (use 1 in \<open>simp add: finish_Cons pattern_step_def pattern_slash_def outcome_def\<close>)
  next
    case 2
    have "outcome (ps_states p) ts (map_option (apfst (\<lambda>ts. [Star] @ Rune slash # ts)) (tokens False False 0 rs)) e
        (bindR (walk Star p) (\<lambda>p. bindR (walk (Rune slash) (p\<lparr>previousDirectoryEndState := currentState p\<rparr>))
          (\<lambda>p. finish e (p\<lparr>gotStarStarSlash := False, gotRunes := False, gotStars := 0\<rparr>) rs)))"
      by (rule pending_star_outcome [OF T]) (use slash_outcome [OF _ _ _ IH, of "p\<lparr>ps_states := _, currentState := _\<rparr>"] in simp)
    then show ?thesis using 2 by (simp add: finish_Cons pattern_step_def pattern_slash_def walk_eqs bindR_assoc)
  next
    case 3
    show ?thesis
    proof (cases "gotStarStarSlash p")
      case True
      then show ?thesis using 3 by (simp add: finish_Cons pattern_step_def pattern_slash_def outcome_def)
    next
      case False
      then show ?thesis using 3 starStarSlash_outcome [OF T IH]
        by (simp add: finish_Cons pattern_step_def pattern_slash_def walk_eqs bindR_assoc)
    qed
  qed
qed

lemma rune_step_outcome:
  assumes inv: "pattern_inv p ts" and rune: "r \<noteq> asterisk" "r \<noteq> slash" and r: "valid_rune r"
    and IH: "\<And>p ts. pattern_inv p ts \<Longrightarrow> outcome (ps_states p) ts (tokens (gotRunes p) (gotStarStarSlash p) (gotStars p) rs) e (finish e p rs)"
  shows "outcome (ps_states p) ts (tokens (gotRunes p) (gotStarStarSlash p) (gotStars p) (r # rs)) e (finish e p (r # rs))"
proof -
  have T: "trie (ps_states p)" "reach (ps_states p) 0 ts (currentState p)" using inv by (simp_all add: pattern_inv_def)
  consider "gotStars p = 0" | "gotStars p = 1" | "gotStars p = 2" using inv unfolding pattern_inv_def by linarith
  then show ?thesis
  proof cases
    case 1
    then show ?thesis using rune rune_outcome [OF T r IH]
      by (simp add: finish_Cons pattern_step_def pattern_rune_def walk_eqs bindR_assoc)
  next
    case 2
    have "outcome (ps_states p) ts (map_option (apfst (\<lambda>ts. [Star] @ Rune r # ts)) (tokens True (gotStarStarSlash p) 0 rs)) e
        (bindR (walk Star p) (\<lambda>p. bindR (walk (Rune r) p) (\<lambda>p. finish e (p\<lparr>gotRunes := True, gotStars := 0\<rparr>) rs)))"
      by (rule pending_star_outcome [OF T]) (use rune_outcome [OF _ _ r IH, of "p\<lparr>ps_states := _, currentState := _\<rparr>"] in simp)
    then show ?thesis using rune 2 by (simp add: finish_Cons pattern_step_def pattern_rune_def walk_eqs bindR_assoc)
  qed (use rune in \<open>simp add: finish_Cons pattern_step_def pattern_rune_def outcome_def\<close>)
qed

lemma finish_outcome:
  assumes "pattern_inv p ts" "\<forall>r \<in> set rs. valid_rune r" "e < 2 ^ 21"
  shows "outcome (ps_states p) ts (tokens (gotRunes p) (gotStarStarSlash p) (gotStars p) rs) e (finish e p rs)"
  using assms(1,2)
proof (induction rs arbitrary: p ts)
  case Nil
  then show ?case using end_outcome assms(3) by simp
next
  case (Cons r rs)
  have T: "trie (ps_states p)" "reach (ps_states p) 0 ts (currentState p)" using Cons.prems(1) by (simp_all add: pattern_inv_def)
  have r: "valid_rune r" and IH: "\<And>p ts. pattern_inv p ts \<Longrightarrow>
      outcome (ps_states p) ts (tokens (gotRunes p) (gotStarStarSlash p) (gotStars p) rs) e (finish e p rs)"
    using Cons.IH Cons.prems(2) by auto
  consider (star) "r = asterisk" | (slash) "r = slash" | (rune) "r \<noteq> asterisk" "r \<noteq> slash" by blast
  then show ?case
  proof cases
    case star
    show ?thesis
    proof (cases "gotStars p = 1 \<and> gotRunes p \<or> gotStars p = 2")
      case True
      then show ?thesis using star by (auto simp: finish_Cons pattern_step_def outcome_def)
    next
      case False
      then have "pattern_inv (p\<lparr>gotStars := gotStars p + 1\<rparr>) ts" using Cons.prems(1) by (auto simp: pattern_inv_def)
      from IH [OF this] show ?thesis using False star by (auto simp: finish_Cons pattern_step_def)
    qed
  next
    case slash
    then show ?thesis using slash_step_outcome [OF Cons.prems(1) IH] by simp
  next
    case rune
    then show ?thesis using rune_step_outcome [OF Cons.prems(1) _ _ r IH] by blast
  qed
qed

section \<open>The reference definition\<close>

text \<open>
  A pattern is a sequence of components that are separated by slashes. In a component, a star stands for any sequence of
  runes other than slashes. A component that consists of two stars stands for any number of components; at
  the end of a pattern, it stands for at least one.
\<close>

fun split_slash :: "rune list \<Rightarrow> rune list list" where
  "split_slash [] = [[]]"
| "split_slash (r # rs) = (if r = slash then [] # split_slash rs else (r # hd (split_slash rs)) # tl (split_slash rs))"

fun has_double_star :: "rune list \<Rightarrow> bool" where
  "has_double_star (a # b # rs) \<longleftrightarrow> a = asterisk \<and> b = asterisk \<or> has_double_star (b # rs)"
| "has_double_star rs \<longleftrightarrow> False"

abbreviation double_star :: "rune list" where "double_star \<equiv> [asterisk, asterisk]"

definition component_tokens :: "rune list \<Rightarrow> token list" where
  "component_tokens = map (\<lambda>r. if r = asterisk then Star else Rune r)"

fun glob_tokens :: "rune list list \<Rightarrow> token list option" where
  "glob_tokens [] = None"
| "glob_tokens [c] =
     (if c = double_star then Some [StarStarSlash, Star]
      else if c = [] \<or> has_double_star c then None else Some (component_tokens c))"
| "glob_tokens (c # d # cs) =
     (if c = double_star then (if d = double_star then None else map_option ((#) StarStarSlash) (glob_tokens (d # cs)))
      else if c = [] \<or> has_double_star c then None
      else map_option (\<lambda>ts. component_tokens c @ Rune slash # ts) (glob_tokens (d # cs)))"

text \<open>The flags and tokens of \<open>addPattern\<close> after a component.\<close>

fun scan_component :: "bool \<Rightarrow> nat \<Rightarrow> rune list \<Rightarrow> (token list \<times> bool \<times> nat) option" where
  "scan_component gr n [] = Some ([], gr, n)"
| "scan_component gr n (r # c) =
     (if r = asterisk then (if n = 1 \<and> gr \<or> n = 2 then None else scan_component gr (n + 1) c)
      else if n = 2 then None
      else map_option (apfst (\<lambda>ts. (if n = 1 then [Star] else []) @ Rune r # ts)) (scan_component True 0 c))"

lemma tokens_scan_component:
  "slash \<notin> set c \<Longrightarrow> tokens gr gs n (c @ rest) =
     Option.bind (scan_component gr n c) (\<lambda>(ts, gr, n). map_option (apfst ((@) ts)) (tokens gr gs n rest))"
proof (induction gr n c rule: scan_component.induct)
  case (1 gr n)
  then show ?case by (cases "tokens gr gs n rest") (auto simp: apfst_def)
next
  case (2 gr n r c)
  show ?case
  proof (cases "r = asterisk")
    case True
    then show ?thesis using 2 by simp
  next
    case False
    then show ?thesis using 2
      by (cases "scan_component True 0 c") (auto simp: option.map_comp comp_def apfst_def map_prod_def case_prod_beta split: option.splits)
  qed
qed

lemma scan_component_runes:
  assumes "n \<le> 1"
  shows "scan_component True n c = (if has_double_star (replicate n asterisk @ c) then None
    else Some (if c \<noteq> [] \<and> last c = asterisk \<or> c = [] \<and> n = 1 then (butlast (component_tokens (replicate n asterisk @ c)), True, 1)
               else (component_tokens (replicate n asterisk @ c), True, 0)))"
  using assms
proof (induction c arbitrary: n)
  case Nil
  then show ?case by (cases n) (auto simp: component_tokens_def)
next
  case (Cons r c)
  consider "n = 0" | "n = 1" using Cons.prems by linarith
  then show ?case
    using Cons.IH [of 0] Cons.IH [of 1]
    by cases (auto simp: component_tokens_def neq_Nil_conv)
qed

lemma scan_component_first:
  "scan_component False 0 c =
     (if c = double_star then Some ([], False, 2) else if has_double_star c then None
      else if c = [] then Some ([], False, 0)
      else if last c = asterisk then Some (butlast (component_tokens c), c \<noteq> [asterisk], 1)
      else Some (component_tokens c, True, 0))"
proof (cases c)
  case (Cons a d)
  show ?thesis
  proof (cases "a = asterisk")
    case a: True
    show ?thesis
    proof (cases d)
      case Nil
      then show ?thesis using Cons a by (simp add: component_tokens_def)
    next
      case d: (Cons b c')
      then show ?thesis using Cons a scan_component_runes [of 0 c']
        by (cases "b = asterisk"; cases c') (auto simp: component_tokens_def)
    qed
  next
    case False
    then show ?thesis using Cons scan_component_runes [of 0 d] by (cases d) (auto simp: component_tokens_def)
  qed
qed simp

lemma component_tokens_last: "c \<noteq> [] \<Longrightarrow> last c = asterisk \<Longrightarrow> butlast (component_tokens c) @ [Star] = component_tokens c"
  by (cases c rule: rev_cases) (auto simp: component_tokens_def)

lemma component_tokens_pending: "c \<noteq> [] \<Longrightarrow> last c = asterisk \<Longrightarrow> butlast (component_tokens c) @ Star # ts = component_tokens c @ ts"
  by (cases c rule: rev_cases) (auto simp: component_tokens_def)

lemma tokens_component:
  assumes "slash \<notin> set c"
  shows "tokens False gs 0 c =
      (if c = double_star then (if gs then None else Some ([StarStarSlash, Star], True))
       else if c = [] \<or> has_double_star c then None else Some (component_tokens c, False))"
    and "tokens False gs 0 (c @ slash # rest) =
      (if c = double_star then (if gs then None else map_option (apfst ((#) StarStarSlash)) (tokens False True 0 rest))
       else if c = [] \<or> has_double_star c then None
       else map_option (apfst (\<lambda>ts. component_tokens c @ Rune slash # ts)) (tokens False False 0 rest))"
proof -
  note t = tokens_scan_component [OF assms, of False gs 0] scan_component_first [of c]
  show "tokens False gs 0 c =
      (if c = double_star then (if gs then None else Some ([StarStarSlash, Star], True))
       else if c = [] \<or> has_double_star c then None else Some (component_tokens c, False))"
    using t(1) [of "[]"] t(2) component_tokens_last [of c] by (auto simp: apfst_def)
  have cong: "map_option (apfst f) (map_option (apfst g) m) = map_option (apfst h) m" if "\<And>ts. f (g ts) = h ts" for f g h :: "token list \<Rightarrow> token list" and m :: "(token list \<times> bool) option"
    using that by (cases m) (auto simp: apfst_def)
  show "tokens False gs 0 (c @ slash # rest) =
      (if c = double_star then (if gs then None else map_option (apfst ((#) StarStarSlash)) (tokens False True 0 rest))
       else if c = [] \<or> has_double_star c then None
       else map_option (apfst (\<lambda>ts. component_tokens c @ Rune slash # ts)) (tokens False False 0 rest))"
    using t(1) [of "slash # rest"] t(2) by (auto simp: cong component_tokens_pending)
qed

lemma split_slash_cases:
  obtains "slash \<notin> set p" "split_slash p = [p]"
  | c rest where "p = c @ slash # rest" "slash \<notin> set c" "split_slash p = c # split_slash rest"
proof (induction p arbitrary: thesis)
  case (Cons r p)
  show ?case
  proof (cases "r = slash")
    case True
    then show ?thesis using Cons.prems(2) [of "[]" p] by simp
  next
    case False
    then show ?thesis using Cons.prems by (rule_tac Cons.IH) (force intro: Cons.prems(2) [of "r # _"])+
  qed
qed simp

lemma tokens_glob_tokens:
  "tokens False gs 0 p = (if gs \<and> hd (split_slash p) = double_star then None
     else map_option (\<lambda>ts. (ts, last (split_slash p) = double_star)) (glob_tokens (split_slash p)))"
proof (induction p arbitrary: gs rule: length_induct)
  case (1 p)
  show ?case
  proof (cases p rule: split_slash_cases)
    case 1
    then show ?thesis by (simp add: tokens_component(1))
  next
    case (2 c rest)
    have ne: "split_slash rest \<noteq> []" by (cases rest) auto
    then obtain d cs where d: "split_slash rest = d # cs" by (cases "split_slash rest") auto
    have "length rest < length p" using 2 by simp
    then have IH: "tokens False gs' 0 rest = (if gs' \<and> d = double_star then None
        else map_option (\<lambda>ts. (ts, last (d # cs) = double_star)) (glob_tokens (d # cs)))" for gs'
      using 1 d by simp
    show ?thesis unfolding 2(3) d unfolding 2(1) tokens_component(2) [OF 2(2)] IH
      by (cases "glob_tokens (d # cs)") (auto simp: apfst_def)
  qed
qed

text \<open>As in Bazel, a pattern that ends in two stars also matches the directory before them.\<close>

definition pattern_tokens :: "rune list \<Rightarrow> token list list" where
  "pattern_tokens p =
     (case glob_tokens (split_slash p) of
        None \<Rightarrow> []
      | Some ts \<Rightarrow> if last (split_slash p) = double_star \<and> length ts > 2 then [ts, take (length ts - 3) ts] else [ts])"

lemma glob_tokens_directory:
  "glob_tokens cs = Some ts \<Longrightarrow> last cs = double_star \<Longrightarrow>
     ts = [StarStarSlash, Star] \<and> cs = [double_star] \<or> (\<exists>ds. ts = ds @ [Rune slash, StarStarSlash, Star])"
proof (induction cs arbitrary: ts rule: glob_tokens.induct)
  case (3 c d cs)
  then show ?case
  proof (cases "c = double_star")
    case True
    then obtain us where us: "d \<noteq> double_star" "glob_tokens (d # cs) = Some us" "ts = StarStarSlash # us" using 3 by (auto split: if_splits)
    then show ?thesis using 3(1) [OF True us(1) us(2)] 3(4) by (auto intro: exI [of _ "StarStarSlash # _"])
  next
    case False
    then obtain us where us: "\<not> (c = [] \<or> has_double_star c)" "glob_tokens (d # cs) = Some us" "ts = component_tokens c @ Rune slash # us"
      using 3 by (auto split: if_splits)
    then show ?thesis using 3(2) [OF False us(1) us(2)] 3(4) by (auto intro: exI [of _ "component_tokens c @ Rune slash # _"])
  qed
qed (auto split: if_splits)

lemma set_pattern_tokens:
  assumes "glob_tokens (split_slash p) = Some ts"
  shows "vs \<in> set (pattern_tokens p) \<longleftrightarrow>
    vs = ts \<or> last (split_slash p) = double_star \<and> ts = vs @ [Rune slash, StarStarSlash, Star]"
  using glob_tokens_directory [OF assms] assms by (auto simp: pattern_tokens_def)

lemma tokens_length: "tokens gr gs n rs = Some (us, b) \<Longrightarrow> length us \<le> n + length rs"
proof (induction gr gs n rs arbitrary: us b rule: tokens.induct)
  case (2 gr gs n r rs)
  consider "r = asterisk" "tokens gr gs (n + 1) rs = Some (us, b)" "\<not> (n = 1 \<and> gr \<or> n = 2)"
    | vs where "r = slash" "n = 2" "tokens False True 0 rs = Some (vs, b)" "us = StarStarSlash # vs" "\<not> gs"
    | vs where "r = slash" "n \<noteq> 2" "tokens False False 0 rs = Some (vs, b)" "length us \<le> n + 1 + length vs" "\<not> (n = 0 \<and> \<not> gr)"
    | vs where "r \<noteq> asterisk" "r \<noteq> slash" "n \<noteq> 2" "tokens True gs 0 rs = Some (vs, b)" "length us \<le> n + 1 + length vs"
    using "2.prems" by (auto split: if_splits)
  then show ?case
  proof cases
    case 1
    then show ?thesis using "2.IH"(1) by simp
  next
    case (2 vs)
    then show ?thesis using "2.IH"(2) by simp
  next
    case (3 vs)
    then show ?thesis using "2.IH"(3) by simp
  next
    case (4 vs)
    then show ?thesis using "2.IH"(4) by simp
  qed
qed (auto split: if_splits)

section \<open>Compiling patterns\<close>

definition dom_ok :: "states \<Rightarrow> bool" where
  "dom_ok states \<longleftrightarrow> (\<forall>vs k. reach states 0 vs k \<longrightarrow> wild_ok vs)"

definition automaton :: "states \<Rightarrow> bool" where
  "automaton states \<longleftrightarrow> trie states \<and> dom_ok states \<and> unflagged states"

lemma wild_ok_prefix: "wild_ok ts \<Longrightarrow> prefix vs ts \<Longrightarrow> wild_ok vs"
  by (auto simp: wild_ok_def prefix_def successively_append_iff)

lemma addPattern_spec:
  assumes A: "automaton states" and p: "\<forall>r \<in> set p. valid_rune r" and e: "e < 2 ^ 21"
  shows "case glob_tokens (split_slash p) of
      None \<Rightarrow> addPattern states p e = failR malformed \<or> addPattern states p e = failR (ErrOther 0)
    | Some ts \<Rightarrow> (\<exists>states'. addPattern states p e = returnR states' \<and> automaton states' \<and> length states' \<le> length states + length p
          \<and> (\<forall>e' vs. e' \<noteq> 0 \<longrightarrow> final states' e' vs \<longleftrightarrow> (if vs \<in> set (pattern_tokens p) then e' = e else final states e' vs)))
        \<or> addPattern states p e = failR (ErrOther 0) \<and> 2 ^ 21 \<le> length states + length p"
proof -
  let ?p = "\<lparr>ps_states = states, gotRunes = False, gotStarStarSlash = False, gotStars = 0, previousDirectoryEndState = 0, currentState = 0\<rparr>"
  have "pattern_inv ?p []" using A by (simp add: pattern_inv_def automaton_def)
  from finish_outcome [OF this p e]
  have o: "outcome states [] (tokens False False 0 p) e (addPattern states p e)" by (simp add: finish_def addPattern_def)
  show ?thesis
  proof (cases "glob_tokens (split_slash p)")
    case None
    then show ?thesis using o by (simp add: tokens_glob_tokens outcome_def)
  next
    case (Some ts)
    let ?b = "last (split_slash p) = double_star"
    have t: "tokens False False 0 p = Some (ts, ?b)" using Some by (simp add: tokens_glob_tokens)
    have len: "length ts \<le> length p" using tokens_length [OF t] by simp
    have ok: "wild_ok ts" using tokens_wild_ok [OF t] by simp
    have "automaton states' \<and> length states' \<le> length states + length p
        \<and> (\<forall>e' vs. e' \<noteq> 0 \<longrightarrow> final states' e' vs \<longleftrightarrow> (if vs \<in> set (pattern_tokens p) then e' = e else final states e' vs))"
      if c: "compiled states [] ts ?b e states'" for states'
    proof -
      have "dom_ok states'" using c A wild_ok_prefix [OF ok] unfolding compiled_def automaton_def dom_ok_def by (metis append_Nil)
      then show ?thesis using c A len set_pattern_tokens [OF Some] unfolding compiled_def automaton_def by simp
    qed
    then show ?thesis using o len Some unfolding t outcome_def by (auto intro: order_trans)
  qed
qed

definition well_formed :: "rune list \<Rightarrow> bool" where
  "well_formed p \<longleftrightarrow> glob_tokens (split_slash p) \<noteq> None"

abbreviation valid_runes :: "rune list list \<Rightarrow> bool" where
  "valid_runes ps \<equiv> \<forall>p \<in> set ps. \<forall>r \<in> set p. valid_rune r"

lemma addPatterns_spec:
  assumes "automaton states" "valid_runes ps" "e < 2 ^ 21"
  obtains (ok) states' where "addPatterns states ps e = returnR states'" "automaton states'" "\<forall>p \<in> set ps. well_formed p"
      "length states' \<le> length states + sum_list (map length ps)"
      "\<And>e' vs. e' \<noteq> 0 \<Longrightarrow> final states' e' vs \<longleftrightarrow> (if \<exists>p \<in> set ps. vs \<in> set (pattern_tokens p) then e' = e else final states e' vs)"
  | (error) err where "addPatterns states ps e = failR err" "err = malformed \<or> err = ErrOther 0"
      "(\<exists>p \<in> set ps. \<not> well_formed p) \<or> 2 ^ 21 \<le> length states + sum_list (map length ps)"
  using assms(1,2)
proof (induction ps arbitrary: states thesis)
  case Nil
  then show ?case by simp
next
  case (Cons p ps)
  note spec = addPattern_spec [OF Cons.prems(3) _ assms(3), of p]
  show ?case
  proof (cases "glob_tokens (split_slash p)")
    case None
    then have "addPattern states p e = failR malformed \<or> addPattern states p e = failR (ErrOther 0)" using spec Cons.prems(4) by simp
    then show ?thesis using None by (auto intro!: Cons.prems(2) simp: well_formed_def)
  next
    case (Some ts)
    then consider (ok) states1 where "addPattern states p e = returnR states1" "automaton states1" "length states1 \<le> length states + length p"
        "\<And>e' vs. e' \<noteq> 0 \<Longrightarrow> final states1 e' vs \<longleftrightarrow> (if vs \<in> set (pattern_tokens p) then e' = e else final states e' vs)"
      | (limit) "addPattern states p e = failR (ErrOther 0)" "2 ^ 21 \<le> length states + length p"
      using spec Cons.prems(4) by auto
    then show ?thesis
    proof cases
      case ok
      show ?thesis
      proof (rule Cons.IH [OF _ _ ok(2)])
        fix states' assume s: "addPatterns states1 ps e = returnR states'" "automaton states'" "\<forall>p \<in> set ps. well_formed p"
          "length states' \<le> length states1 + sum_list (map length ps)"
          "\<And>e' vs. e' \<noteq> 0 \<Longrightarrow> final states' e' vs \<longleftrightarrow> (if \<exists>p \<in> set ps. vs \<in> set (pattern_tokens p) then e' = e else final states1 e' vs)"
        show ?thesis by (rule Cons.prems(1) [of states']) (use s ok Some in \<open>auto simp: well_formed_def\<close>)
      next
        fix err assume "addPatterns states1 ps e = failR err" "err = malformed \<or> err = ErrOther 0"
          "(\<exists>p \<in> set ps. \<not> well_formed p) \<or> 2 ^ 21 \<le> length states1 + sum_list (map length ps)"
        then show ?thesis using ok(1,3) by (intro Cons.prems(2) [of err]) auto
      qed (use Cons.prems(4) in simp)
    next
      case limit
      then show ?thesis by (intro Cons.prems(2) [of "ErrOther 0"]) auto
    qed
  qed
qed

lemma automaton_start: "automaton [zero_state]" "final [zero_state] e vs \<longleftrightarrow> e = 0 \<and> vs = []"
proof -
  note [simp] = unat_eq_zero
  have e: "\<not> edge [zero_state] 0 t j" for t j by (cases t) (auto simp: state_simps edge.simps(3))
  have r: "reach [zero_state] 0 ts k \<longleftrightarrow> ts = [] \<and> k = 0" for ts k using e by (cases ts) auto
  show "automaton [zero_state]" unfolding automaton_def trie_def dom_ok_def
    using e r no_runes [of "[zero_state]" 0] by (auto simp: unflagged_def state_simps wild_ok_def)
  show "final [zero_state] e vs \<longleftrightarrow> e = 0 \<and> vs = []" unfolding final_def r by (auto simp: state_simps)
qed

section \<open>Compiling suffixes\<close>

definition suffix_tokens :: "rune list \<Rightarrow> token list" where
  "suffix_tokens s = StarStarSlash # Star # map Rune s"

lemma bind_getOrAdd_outcome:
  assumes T: "trie states" "reach states 0 ts i" "valid_token t"
    and "\<And>j states1. grows states (ts @ [t]) states1 \<Longrightarrow> reach states1 0 (ts @ [t]) j \<Longrightarrow> outcome states1 (ts @ [t]) res e (f (j, states1))"
  shows "outcome states ts (map_option (apfst ((#) t)) res) e (bindR (getOrAdd states i t) f)"
  using T
proof (cases rule: getOrAdd_grows)
  case (ok j states1)
  then have o: "outcome states1 (ts @ [t]) res e (f (j, states1))" using assms(4) by blast
  have "length states1 \<le> Suc (length states)" using ok(2) by (simp add: grows_def)
  then show ?thesis using o ok(1) grows_compiled [OF ok(2)] unfolding outcome_def by (fastforce split: option.splits)
qed (auto simp: outcome_def split: option.splits)

lemma addSuffixRunes_outcome:
  assumes "trie states" "reach states 0 ts i" "\<forall>r \<in> set s. valid_rune r" "e < 2 ^ 21"
  shows "outcome states ts (if slash \<in> set s then None else Some (map Rune s, False)) e
    (bindR (addSuffixRunes states i s) (\<lambda>(i, states). returnR (update states i (setEndState e))))"
  using assms(1-3)
proof (induction s arbitrary: states ts i)
  case Nil
  then show ?case using done_outcome [OF _ _ assms(4)] by simp
next
  case (Cons r s)
  show ?case
  proof (cases "r = slash")
    case True
    then show ?thesis by (simp add: outcome_def)
  next
    case False
    have "outcome states ts (map_option (apfst ((#) (Rune r))) (if slash \<in> set s then None else Some (map Rune s, False))) e
        (bindR (getOrAdd states i (Rune r)) (\<lambda>(i, states). bindR (addSuffixRunes states i s) (\<lambda>(i, states). returnR (update states i (setEndState e)))))"
      by (rule bind_getOrAdd_outcome [OF Cons.prems(1,2)]) (use Cons in \<open>auto simp: grows_def\<close>)
    then show ?thesis using False by (simp add: getOrAdd_def bindR_assoc case_prod_beta' split: if_splits)
  qed
qed

lemma getOrAdd_eqs: "getOrAddStar states i = getOrAdd states i Star" "getOrAddStarStarSlash states i = getOrAdd states i StarStarSlash"
  by (simp_all add: getOrAdd_def)

lemma addSuffix_spec:
  assumes A: "automaton states" and s: "\<forall>r \<in> set s. valid_rune r"
  shows "if slash \<in> set s then addSuffix states s = failR malformed \<or> addSuffix states s = failR (ErrOther 0)
    else (\<exists>states'. addSuffix states s = returnR states' \<and> automaton states' \<and> length states' \<le> length states + length s + 2
          \<and> (\<forall>e' vs. e' \<noteq> 0 \<longrightarrow> final states' e' vs \<longleftrightarrow> (if vs = suffix_tokens s then e' = endStatePositive else final states e' vs)))
        \<or> addSuffix states s = failR (ErrOther 0) \<and> 2 ^ 21 \<le> length states + length s + 2"
proof -
  let ?res = "if slash \<in> set s then None else Some (map Rune s, False)"
  have T: "trie states" "reach states 0 [] 0" using A by (simp_all add: automaton_def)
  have e: "endStatePositive < 2 ^ 21" by (simp add: endStatePositive_def)
  have o: "outcome states [] (map_option (apfst ((#) StarStarSlash)) (map_option (apfst ((#) Star)) ?res)) endStatePositive (addSuffix states s)"
    unfolding addSuffix_def getOrAdd_eqs
    by (rule bind_getOrAdd_outcome [OF T], simp, clarify, rule bind_getOrAdd_outcome, simp add: grows_def, simp, simp, clarify,
        rule addSuffixRunes_outcome [OF _ _ s e], simp_all add: grows_def)
  have "wild_ok (map Rune s)" unfolding wild_ok_def by (induction s rule: induct_list012) auto
  then have ok: "wild_ok (suffix_tokens s)" by (cases s) (simp_all add: suffix_tokens_def wild_ok_def)
  show ?thesis
  proof (cases "slash \<in> set s")
    case True
    then show ?thesis using o by (simp add: outcome_def)
  next
    case False
    have "automaton states'" if c: "compiled states [] (suffix_tokens s) False endStatePositive states'" for states'
    proof -
      have "dom_ok states'" using c A wild_ok_prefix [OF ok] unfolding compiled_def automaton_def dom_ok_def by (metis append_Nil)
      then show ?thesis using c A unfolding compiled_def automaton_def by simp
    qed
    then show ?thesis using o False unfolding outcome_def by (auto simp: suffix_tokens_def compiled_def)
  qed
qed

lemma addSuffixes_spec:
  assumes "automaton states" "valid_runes ss"
  obtains (ok) states' where "addSuffixes states ss = returnR states'" "automaton states'" "\<forall>s \<in> set ss. slash \<notin> set s"
      "\<And>e' vs. e' \<noteq> 0 \<Longrightarrow> final states' e' vs \<longleftrightarrow> (if vs \<in> suffix_tokens ` set ss then e' = endStatePositive else final states e' vs)"
  | (error) err where "addSuffixes states ss = failR err" "err = malformed \<or> err = ErrOther 0"
      "(\<exists>s \<in> set ss. slash \<in> set s) \<or> 2 ^ 21 \<le> length states + (\<Sum>s \<leftarrow> ss. length s + 2)"
  using assms
proof (induction ss arbitrary: states thesis)
  case Nil
  then show ?case by simp
next
  case (Cons s ss)
  note spec = addSuffix_spec [OF Cons.prems(3), of s]
  consider (malformed) "slash \<in> set s" "addSuffix states s = failR malformed \<or> addSuffix states s = failR (ErrOther 0)"
    | (ok) states1 where "slash \<notin> set s" "addSuffix states s = returnR states1" "automaton states1" "length states1 \<le> length states + length s + 2"
      "\<And>e' vs. e' \<noteq> 0 \<Longrightarrow> final states1 e' vs \<longleftrightarrow> (if vs = suffix_tokens s then e' = endStatePositive else final states e' vs)"
    | (limit) "addSuffix states s = failR (ErrOther 0)" "2 ^ 21 \<le> length states + length s + 2"
    using spec Cons.prems(4) by (cases "slash \<in> set s") (simp_all only: if_True if_False list.set ball_simps, blast+)
  then show ?case
  proof cases
    case malformed
    then show ?thesis by (auto intro!: Cons.prems(2))
  next
    case ok
    show ?thesis
    proof (rule Cons.IH [OF _ _ ok(3)])
      fix states' assume s: "addSuffixes states1 ss = returnR states'" "automaton states'" "\<forall>s \<in> set ss. slash \<notin> set s"
        "\<And>e' vs. e' \<noteq> 0 \<Longrightarrow> final states' e' vs \<longleftrightarrow> (if vs \<in> suffix_tokens ` set ss then e' = endStatePositive else final states1 e' vs)"
      show ?thesis by (rule Cons.prems(1) [of states']) (use s ok in auto)
    next
      fix err assume "addSuffixes states1 ss = failR err" "err = malformed \<or> err = ErrOther 0"
        "(\<exists>s \<in> set ss. slash \<in> set s) \<or> 2 ^ 21 \<le> length states1 + (\<Sum>s \<leftarrow> ss. length s + 2)"
      then show ?thesis using ok(2,4) by (intro Cons.prems(2) [of err]) auto
    qed (use Cons.prems(4) in simp)
  next
    case limit
    then show ?thesis by (intro Cons.prems(2) [of "ErrOther 0"]) auto
  qed
qed

end
