(* ===== verification/Glob_Matching.thy ===== *)
theory Glob_Matching
  imports Glob_Patterns
begin

text \<open>
  What the matcher computes: the language of a sequence of tokens, the flags of the states that can still
  lead to a match, and the correctness of the matcher with respect to the patterns and suffixes that its automaton was built from.
\<close>

section \<open>Languages\<close>

fun lang :: "token \<Rightarrow> rune list \<Rightarrow> bool" where
  "lang (Rune r) u \<longleftrightarrow> u = [r]"
| "lang Star u \<longleftrightarrow> slash \<notin> set u"
| "lang StarStarSlash u \<longleftrightarrow> u = [] \<or> last u = slash"

fun tmatch :: "token list \<Rightarrow> rune list \<Rightarrow> bool" where
  "tmatch [] w \<longleftrightarrow> w = []"
| "tmatch (t # ts) w \<longleftrightarrow> (\<exists>n \<in> set [0..<Suc (length w)]. lang t (take n w) \<and> tmatch ts (drop n w))"

definition pmatch :: "token list \<Rightarrow> rune list \<Rightarrow> bool" where
  "pmatch ts w \<longleftrightarrow> (\<exists>u v. w = u @ v \<and> tmatch ts u)"

lemma tmatch_Cons: "tmatch (t # ts) w \<longleftrightarrow> (\<exists>u v. w = u @ v \<and> lang t u \<and> tmatch ts v)"
proof
  assume "tmatch (t # ts) w"
  then obtain n where "lang t (take n w)" "tmatch ts (drop n w)" unfolding tmatch.simps(2) by blast
  then show "\<exists>u v. w = u @ v \<and> lang t u \<and> tmatch ts v" by (metis append_take_drop_id)
next
  assume "\<exists>u v. w = u @ v \<and> lang t u \<and> tmatch ts v"
  then obtain u v where "w = u @ v" "lang t u" "tmatch ts v" by blast
  then show "tmatch (t # ts) w" by (auto intro!: bexI [of _ "length u"])
qed

declare tmatch.simps(2) [simp del]

lemma tmatch_append: "tmatch (ts @ us) w \<longleftrightarrow> (\<exists>u v. w = u @ v \<and> tmatch ts u \<and> tmatch us v)"
proof (induction ts arbitrary: w)
  case (Cons t ts)
  show ?case unfolding append_Cons tmatch_Cons Cons.IH by (metis append.assoc)
qed simp

lemma tmatch_single [simp]: "tmatch [t] w = lang t w"
  by (auto simp: tmatch_Cons)

lemma tmatch_Rune: "tmatch (ts @ [Rune r]) [] = False" "tmatch (ts @ [Rune r]) (w @ [c]) \<longleftrightarrow> c = r \<and> tmatch ts w"
  by (auto simp: tmatch_append)

lemma tmatch_Star:
  "tmatch (ts @ [Star]) [] = tmatch ts []"
  "tmatch (ts @ [Star]) (w @ [c]) \<longleftrightarrow> tmatch ts (w @ [c]) \<or> c \<noteq> slash \<and> tmatch (ts @ [Star]) w"
proof -
  have "(\<exists>u v. w @ [c] = u @ v \<and> tmatch ts u \<and> lang Star v) \<longleftrightarrow>
      tmatch ts (w @ [c]) \<or> (\<exists>u v. w = u @ v \<and> c \<noteq> slash \<and> tmatch ts u \<and> lang Star v)" (is "?l \<longleftrightarrow> ?r")
  proof
    assume ?l
    then obtain u v where v: "w @ [c] = u @ v" "tmatch ts u" "lang Star v" by blast
    then show ?r by (cases v rule: rev_cases) auto
  next
    assume ?r
    then show ?l
    proof (elim disjE exE conjE)
      fix u v assume "w = u @ v" "c \<noteq> slash" "tmatch ts u" "lang Star v"
      then show ?l by (intro exI [of _ u] exI [of _ "v @ [c]"]) auto
    qed (rule exI [of _ "w @ [c]"], rule exI [of _ "[]"], simp)
  qed
  then show "tmatch (ts @ [Star]) (w @ [c]) \<longleftrightarrow> tmatch ts (w @ [c]) \<or> c \<noteq> slash \<and> tmatch (ts @ [Star]) w"
    unfolding tmatch_append tmatch_single by blast
qed (auto simp: tmatch_append)

lemma tmatch_StarStarSlash:
  "tmatch (ts @ [StarStarSlash]) [] = tmatch ts []"
  "tmatch (ts @ [StarStarSlash]) (w @ [c]) \<longleftrightarrow> tmatch ts (w @ [c]) \<or> c = slash \<and> pmatch ts w"
proof -
  have "(\<exists>u v. w @ [c] = u @ v \<and> tmatch ts u \<and> lang StarStarSlash v) \<longleftrightarrow> tmatch ts (w @ [c]) \<or> c = slash \<and> pmatch ts w" (is "?l \<longleftrightarrow> ?r")
  proof
    assume ?l
    then obtain u v where v: "w @ [c] = u @ v" "tmatch ts u" "lang StarStarSlash v" by blast
    then show ?r by (cases v rule: rev_cases) (auto simp: pmatch_def)
  next
    assume ?r
    then show ?l
    proof (elim disjE conjE)
      assume "c = slash" "pmatch ts w"
      then obtain u v where "w = u @ v" "tmatch ts u" by (auto simp: pmatch_def)
      then show ?l using \<open>c = slash\<close> by (intro exI [of _ u] exI [of _ "v @ [c]"]) auto
    qed (rule exI [of _ "w @ [c]"], rule exI [of _ "[]"], simp)
  qed
  then show "tmatch (ts @ [StarStarSlash]) (w @ [c]) \<longleftrightarrow> tmatch ts (w @ [c]) \<or> c = slash \<and> pmatch ts w"
    unfolding tmatch_append tmatch_single by blast
qed (auto simp: tmatch_append)

lemma pmatch_step: "pmatch ts [] = tmatch ts []" "pmatch ts (w @ [c]) \<longleftrightarrow> pmatch ts w \<or> tmatch ts (w @ [c])"
proof -
  show "pmatch ts (w @ [c]) \<longleftrightarrow> pmatch ts w \<or> tmatch ts (w @ [c])" (is "?l \<longleftrightarrow> ?r")
  proof
    assume ?l
    then obtain u v where "w @ [c] = u @ v" "tmatch ts u" by (auto simp: pmatch_def)
    then show ?r by (cases v rule: rev_cases) (auto simp: pmatch_def)
  next
    assume ?r
    then show ?l unfolding pmatch_def by (metis append.assoc append_Nil2)
  qed
qed (simp add: pmatch_def)

text \<open>A match of a path is in progress at every point of the path.\<close>

lemma tmatch_split:
  assumes "tmatch ts (w @ v)"
  obtains ts1 ts2 where "ts = ts1 @ ts2" "tmatch ts1 w \<or> (\<exists>ts0. ts1 = ts0 @ [StarStarSlash] \<and> pmatch ts0 w)"
  using assms
proof (induction ts arbitrary: v thesis rule: rev_induct)
  case (snoc t ts)
  obtain u x where u: "w @ v = u @ x" "tmatch ts u" "lang t x" using snoc.prems(2) unfolding tmatch_append tmatch_single by blast
  then obtain y where "w = u @ y \<and> x = y @ v \<or> u = w @ y" unfolding append_eq_append_conv2 by blast
  then consider (later) v' where "u = w @ v'" | (within) x1 where "w = u @ x1" "x = x1 @ v" "x1 \<noteq> []"
    by (cases "y = []") auto
  then show ?case
  proof cases
    case later
    obtain ts1 ts2 where "ts = ts1 @ ts2" "tmatch ts1 w \<or> (\<exists>ts0. ts1 = ts0 @ [StarStarSlash] \<and> pmatch ts0 w)"
      using snoc.IH u(2) later by metis
    then show ?thesis using snoc.prems(1) [of ts1 "ts2 @ [t]"] by simp
  next
    case within
    have "tmatch (ts @ [t]) w \<or> t = StarStarSlash \<and> pmatch ts w"
    proof (cases t)
      case (Rune r)
      then have "lang t x1" using within(2,3) u(3) by (auto simp: append_eq_Cons_conv)
      then show ?thesis unfolding tmatch_append tmatch_single using u(2) within(1) by blast
    next
      case Star
      then have "lang t x1" using within(2) u(3) by auto
      then show ?thesis unfolding tmatch_append tmatch_single using u(2) within(1) by blast
    next
      case StarStarSlash
      then show ?thesis using u(2) within(1) by (auto simp: pmatch_def)
    qed
    then show ?thesis using snoc.prems(1) [of "ts @ [t]" "[]"] by auto
  qed
qed simp

section \<open>Propagation\<close>

definition leads :: "states \<Rightarrow> uint32 \<Rightarrow> bool" where
  "leads states i \<longleftrightarrow> (\<exists>ts k. reach states i ts k \<and> getEndState (states ! unat k) = endStatePositive)"

lemma leads_step: "leads states i \<longleftrightarrow> getEndState (states ! unat i) = endStatePositive \<or> (\<exists>t j. edge states i t j \<and> leads states j)"
proof
  assume "leads states i"
  then obtain ts k where "reach states i ts k" "getEndState (states ! unat k) = endStatePositive" by (auto simp: leads_def)
  then show "getEndState (states ! unat i) = endStatePositive \<or> (\<exists>t j. edge states i t j \<and> leads states j)"
    by (cases ts) (auto simp: leads_def)
next
  assume "getEndState (states ! unat i) = endStatePositive \<or> (\<exists>t j. edge states i t j \<and> leads states j)"
  then show "leads states i" unfolding leads_def using reach.simps by metis
qed

text \<open>The same automaton, apart from the flags.\<close>

definition same_but_flags :: "states \<Rightarrow> states \<Rightarrow> bool" where
  "same_but_flags states states' \<longleftrightarrow> length states' = length states
     \<and> (\<forall>j < length states. getStarIndex (states' ! j) = getStarIndex (states ! j)
          \<and> getStarStarSlashIndex (states' ! j) = getStarStarSlashIndex (states ! j)
          \<and> runes (states' ! j) = runes (states ! j) \<and> getEndState (states' ! j) = getEndState (states ! j))"

definition flagged_from :: "states \<Rightarrow> nat \<Rightarrow> states \<Rightarrow> bool" where
  "flagged_from states n states' \<longleftrightarrow> same_but_flags states states'
     \<and> (\<forall>j. unat j < length states \<longrightarrow> getHasPositiveEndState (states' ! unat j) = (n \<le> unat j \<and> j \<noteq> 0 \<and> leads states j))"

lemma any_rune_positive_chain:
  "chain states i js \<Longrightarrow> any_rune_positive states i = returnR (\<exists>j \<in> set js. getHasPositiveEndState (states ! unat j))"
  by (induction rule: chain.induct) (simp_all add: any_rune_positive.simps index_def)

lemma same_but_flags_trie:
  assumes "trie states" "same_but_flags states states'"
  shows "trie states'" "unat i < length states \<Longrightarrow> edge states' i t j = edge states i t j" "reach states' 0 ts k = reach states 0 ts k"
    "final states' e ts = final states e ts"
proof -
  have len: "length states' = length states" using assms(2) by (simp add: same_but_flags_def)
  have s: "getStarIndex (states' ! j) = getStarIndex (states ! j) \<and> getStarStarSlashIndex (states' ! j) = getStarStarSlashIndex (states ! j)
      \<and> runes (states' ! j) = runes (states ! j)" if "j < length states" for j
    using assms(2) that by (simp add: same_but_flags_def)
  show "trie states'" by (rule same_edges(1) [OF assms(1) len s])
  show "unat i < length states \<Longrightarrow> edge states' i t j = edge states i t j" by (rule same_edges(2) [OF assms(1) len s])
  show r: "reach states' 0 ts k = reach states 0 ts k" for ts k by (rule same_edges(3) [OF assms(1) len s])
  show "final states' e ts = final states e ts"
    unfolding final_def r using reach_range [OF assms(1) trie_0 [OF assms(1)]] assms(2) unfolding same_but_flags_def by metis
qed

lemma leads_to_positive_correct:
  assumes T: "trie states" and F: "flagged_from states (Suc (unat i)) states'" and i: "unat i < length states"
  shows "leads_to_positive states' (states' ! unat i) = returnR (leads states i)"
proof -
  have same: "same_but_flags states states'" and len: "length states' = length states"
    using F by (simp_all add: flagged_from_def same_but_flags_def)
  have flag: "getHasPositiveEndState (states' ! unat j) = leads states j" if "edge states i t j" for t j
    using F trieD(4) [OF T i that] by (auto simp: flagged_from_def)
  have 0: "\<not> getHasPositiveEndState (states' ! 0)" using F trie_0 [OF T] unfolding flagged_from_def by (metis unat_0)
  have wild: "bindR (index states' k) f = f (states' ! unat k)
      \<and> getHasPositiveEndState (states' ! unat k) = (\<exists>j. edge states i t j \<and> leads states j)"
    if "\<And>j. edge states i t j \<longleftrightarrow> j \<noteq> 0 \<and> k = j" for k t and f :: "state \<Rightarrow> bool run"
    using that flag [of t k] trieD(4) [OF T i, of t k] trie_0 [OF T] 0 len by (cases "k = 0") (auto simp: index_def)
  have star: "edge states i Star j \<longleftrightarrow> j \<noteq> 0 \<and> getStarIndex (states' ! unat i) = j" for j
    using same_but_flags_trie(2) [OF T same i, of Star j] by simp
  have slash: "edge states i StarStarSlash j \<longleftrightarrow> j \<noteq> 0 \<and> getStarStarSlashIndex (states' ! unat i) = j" for j
    using same_but_flags_trie(2) [OF T same i, of StarStarSlash j] by simp
  obtain js where js: "chain states' (getFirstRuneIndex (states' ! unat i)) js"
    using trieD(3) [OF same_but_flags_trie(1) [OF T same], of i] i len by (auto simp: sorted_runes_def)
  have rune: "(\<exists>r. edge states i (Rune r) j) \<longleftrightarrow> j \<in> set js" for j
    using same_but_flags_trie(2) [OF T same i] edge_Rune_chain [OF js] by blast
  have "(\<exists>t j. edge states i t j \<and> leads states j) \<longleftrightarrow> (\<exists>j. edge states i Star j \<and> leads states j)
      \<or> (\<exists>j. edge states i StarStarSlash j \<and> leads states j) \<or> (\<exists>j \<in> set js. leads states j)"
    using rune by (metis token.exhaust)
  moreover have "getHasPositiveEndState (states' ! unat j) = leads states j" if "j \<in> set js" for j
    using that rune flag by blast
  moreover have "getEndState (states' ! unat i) = getEndState (states ! unat i)" using same i by (simp add: same_but_flags_def)
  ultimately show ?thesis unfolding leads_to_positive_def leads_step [of states i] any_rune_positive_chain [OF js]
    using wild [OF star] wild [OF slash] by (simp cong: bex_cong)
qed

lemma propagate_correct:
  assumes T: "trie states"
  shows "flagged_from states n states' \<Longrightarrow> n \<le> length states \<Longrightarrow> \<exists>states''. propagate n states' = returnR states'' \<and> flagged_from states 1 states''"
proof (induction n arbitrary: states')
  case 0
  then show ?case by (auto simp: flagged_from_def Suc_le_eq unat_gt_0)
next
  case (Suc n)
  show ?case
  proof (cases "n = 0")
    case True
    then show ?thesis using Suc.prems by simp
  next
    case False
    let ?i = "of_nat n :: uint32"
    let ?s = "if leads states ?i then states'[n := setHasPositiveEndState (states' ! n)] else states'"
    have n: "unat ?i = n" "n < length states" using Suc.prems(2) trieD(2) [OF T] by (simp_all add: unat_new_index)
    have l: "leads_to_positive states' (states' ! n) = returnR (leads states ?i)"
      using leads_to_positive_correct [OF T _ _, of ?i states'] Suc.prems n by simp
    have same: "same_but_flags states states'" using Suc.prems(1) by (simp add: flagged_from_def)
    have "same_but_flags states ?s" using same n(2) by (auto simp: same_but_flags_def nth_list_update state_simps)
    moreover have "getHasPositiveEndState (?s ! unat j) = (n \<le> unat j \<and> j \<noteq> 0 \<and> leads states j)" if j: "unat j < length states" for j
    proof (cases "unat j = n")
      case True
      then have "j = ?i" using n(1) by (metis word_unat_eq_iff)
      moreover have "\<not> getHasPositiveEndState (states' ! n)" using Suc.prems(1) n unfolding flagged_from_def by (metis not_less_eq_eq order_refl)
      ultimately show ?thesis using True n same False by (auto simp: same_but_flags_def state_simps)
    next
      case False
      then show ?thesis using Suc.prems(1) j by (auto simp: flagged_from_def Suc_le_eq)
    qed
    ultimately have "flagged_from states n ?s" by (simp add: flagged_from_def)
    then show ?thesis using Suc.IH [of ?s] Suc.prems(2) False l by simp
  qed
qed

lemma propagateHasPositiveEndState_correct:
  assumes "trie states" "unflagged states"
  obtains states' where "propagateHasPositiveEndState states = returnR states'" "flagged_from states 1 states'"
proof -
  have "flagged_from states (length states) states" using assms(2) by (auto simp: flagged_from_def same_but_flags_def unflagged_def)
  from propagate_correct [OF assms(1) this] show thesis using that by (auto simp: propagateHasPositiveEndState_def)
qed

section \<open>The sets of states\<close>

definition via :: "states \<Rightarrow> token \<Rightarrow> uint32 set \<Rightarrow> uint32 set" where
  "via states t A = {j. \<exists>i \<in> A. edge states i t j}"

lemma via_simps [simp]:
  "via states t {} = {}" "via states t (A \<union> B) = via states t A \<union> via states t B"
  "via states Star {i} = (if getStarIndex (states ! unat i) = 0 then {} else {getStarIndex (states ! unat i)})"
  "via states StarStarSlash {i} = (if getStarStarSlashIndex (states ! unat i) = 0 then {} else {getStarStarSlashIndex (states ! unat i)})"
  by (auto simp: via_def)

lemma via_insert: "via states t (insert i A) = via states t {i} \<union> via states t A"
  by (auto simp: via_def)

text \<open>The states that \<open>expandState3\<close> adds to the current states and to the stars.\<close>

definition closure :: "states \<Rightarrow> uint32 set \<Rightarrow> uint32 set" where
  "closure states B = B \<union> via states Star B \<union> via states StarStarSlash B \<union> via states Star (via states StarStarSlash B)"

definition stars :: "states \<Rightarrow> uint32 set \<Rightarrow> uint32 set" where
  "stars states B = via states Star B \<union> via states Star (via states StarStarSlash B)"

lemma closure_Un: "closure states (A \<union> B) = closure states A \<union> closure states B" "closure states {} = {}"
  "stars states (A \<union> B) = stars states A \<union> stars states B" "stars states {} = {}"
  by (auto simp: closure_def stars_def)

lemma closure_insert:
  "closure states (insert i A) = closure states {i} \<union> closure states A" "stars states (insert i A) = stars states {i} \<union> stars states A"
  using closure_Un(1,3) [of states "{i}" A] by simp_all

definition flagged_set :: "states \<Rightarrow> uint32 set \<Rightarrow> statesSet" where
  "flagged_set states A = \<lparr>ss_states = A, ss_hasPositiveEndState = (\<exists>k \<in> A. getHasPositiveEndState (states ! unat k))\<rparr>"

definition matcher :: "states \<Rightarrow> uint32 set \<Rightarrow> uint32 set \<Rightarrow> uint32 set \<Rightarrow> Matcher" where
  "matcher states C S D = \<lparr>m_states = states, currentStates = flagged_set states C, currentStars = flagged_set states S,
     currentStarStarSlashes = flagged_set states D\<rparr>"

lemma matcher_simps [simp]:
  "m_states (matcher states C S D) = states" "currentStates (matcher states C S D) = flagged_set states C"
  "currentStars (matcher states C S D) = flagged_set states S" "currentStarStarSlashes (matcher states C S D) = flagged_set states D"
  "(matcher states C S D)\<lparr>currentStates := flagged_set states A\<rparr> = matcher states A S D"
  "(matcher states C S D)\<lparr>currentStars := flagged_set states A\<rparr> = matcher states C A D"
  "(matcher states C S D)\<lparr>currentStarStarSlashes := flagged_set states A\<rparr> = matcher states C S A"
  "ss_states (flagged_set states A) = A"
  "ss_hasPositiveEndState (flagged_set states A) \<longleftrightarrow> (\<exists>k \<in> A. getHasPositiveEndState (states ! unat k))"
  by (simp_all add: matcher_def flagged_set_def ss_clear_def)

lemma matcher_cong: "C = C' \<Longrightarrow> S = S' \<Longrightarrow> D = D' \<Longrightarrow> returnR (matcher states C S D) = returnR (matcher states C' S' D')"
  by simp

lemma ss_clear_eq: "ss_clear s = flagged_set states {}"
  by (simp add: flagged_set_def ss_clear_def)

lemma ss_add_flagged [simp]:
  "unat i < length states \<Longrightarrow> ss_add states i (flagged_set states A) = returnR (flagged_set states (insert i A))"
  by (auto simp: ss_add_def index_def flagged_set_def)

lemma expandState2_eq:
  assumes "trie states" "unat i < length states"
  shows "expandState2 i (matcher states C S D) =
    returnR (matcher states (C \<union> ({i} \<union> via states Star {i})) (S \<union> via states Star {i}) D)"
proof -
  have "unat (getStarIndex (states ! unat i)) < length states" if "getStarIndex (states ! unat i) \<noteq> 0"
    using trieD(4) [OF assms, of Star] that by simp
  then show ?thesis using assms(2) by (auto simp: expandState2_def expandState1_def index_def Let_def insert_commute)
qed

lemma expandState3_eq:
  assumes "trie states" "unat i < length states"
  shows "expandState3 i (matcher states C S D) =
    returnR (matcher states (C \<union> closure states {i}) (S \<union> stars states {i}) (D \<union> via states StarStarSlash {i}))"
proof -
  have r: "unat (getStarStarSlashIndex (states ! unat i)) < length states" if "getStarStarSlashIndex (states ! unat i) \<noteq> 0"
    using trieD(4) [OF assms, of StarStarSlash] that by simp
  show ?thesis
  proof (cases "getStarStarSlashIndex (states ! unat i) = 0")
    case True
    then show ?thesis using assms(2) by (simp add: expandState3_def expandState2_eq [OF assms] index_def closure_def stars_def)
  next
    case False
    let ?k = "getStarStarSlashIndex (states ! unat i)"
    have "expandState3 i (matcher states C S D) =
        expandState2 ?k (matcher states (C \<union> ({i} \<union> via states Star {i})) (S \<union> via states Star {i}) (insert ?k D))"
      using assms(2) r False by (simp add: expandState3_def expandState2_eq [OF assms] index_def Let_def del: via_simps(3))
    also have "\<dots> = returnR (matcher states (C \<union> closure states {i}) (S \<union> stars states {i}) (D \<union> via states StarStarSlash {i}))"
      unfolding expandState2_eq [OF assms(1) r [OF False]]
      by (rule matcher_cong) (use False in \<open>auto simp: closure_def stars_def simp del: via_simps(3)\<close>)
    finally show ?thesis .
  qed
qed

lemma expandStates_eq:
  assumes T: "trie states"
  shows "\<forall>i \<in> set is. unat i < length states \<Longrightarrow> expandStates is (matcher states C S D) =
    returnR (matcher states (C \<union> closure states (set is)) (S \<union> stars states (set is)) (D \<union> via states StarStarSlash (set is)))"
proof (induction "is" arbitrary: C S D)
  case (Cons i "is")
  then show ?case
    by (simp add: expandState3_eq [OF T] closure_insert [of _ i "set is"] via_insert [of _ _ i "set is"] Un_assoc del: via_simps(3,4))
qed (simp add: closure_Un)

lemma matchRunes_eq:
  assumes T: "trie states"
  shows "chain states i js \<Longrightarrow> sorted_wrt (\<lambda>a b. rune_of states a < rune_of states b) js \<Longrightarrow> B = {j \<in> set js. rune_of states j = r} \<Longrightarrow>
    matchRunes r i (matcher states C S D) =
      returnR (matcher states (C \<union> closure states B) (S \<union> stars states B) (D \<union> via states StarStarSlash B))"
proof (induction arbitrary: C S D B rule: chain.induct)
  case chain_Nil
  then show ?case by (simp add: matchRunes.simps closure_Un)
next
  case (chain_Cons i js)
  let ?B = "{j \<in> set js. rune_of states j = r}"
  have s: "sorted_wrt (\<lambda>a b. rune_of states a < rune_of states b) js" and gt: "\<forall>j \<in> set js. rune_of states i < rune_of states j"
    using chain_Cons.prems(1) by simp_all
  note IH = chain_Cons.IH [OF s refl]
  consider "r = rune_of states i" | "r < rune_of states i" | "r > rune_of states i" by linarith
  then show ?case
  proof cases
    case 1
    then have B: "?B = {}" "B = {i}" using gt chain_Cons.prems(2) by auto
    show ?thesis unfolding matchRunes.simps [of r i] B(2) using 1 IH [unfolded B(1)] chain_Cons.hyps(1,2)
      by (simp add: index_def expandState3_eq [OF T] closure_Un del: via_simps(3,4))
  next
    case 2
    then have "B = {}" using gt chain_Cons.prems(2) by auto
    then show ?thesis using 2 chain_Cons.hyps(1,2) by (simp add: matchRunes.simps [of r i] index_def closure_Un)
  next
    case 3
    then have "B = ?B" using chain_Cons.prems(2) by auto
    then show ?thesis using 3 IH chain_Cons.hyps(1,2) by (simp add: matchRunes.simps [of r i] index_def)
  qed
qed

lemma matchStates_eq:
  assumes T: "trie states"
  shows "\<forall>i \<in> set is. unat i < length states \<Longrightarrow> B = via states (Rune r) (set is) \<Longrightarrow> matchStates r is (matcher states C S D) =
    returnR (matcher states (C \<union> closure states B) (S \<union> stars states B) (D \<union> via states StarStarSlash B))"
proof (induction "is" arbitrary: C S D B)
  case (Cons i "is")
  let ?B = "via states (Rune r) {i}" and ?B' = "via states (Rune r) (set is)"
  have i: "unat i < length states" using Cons.prems(1) by simp
  then obtain js where js: "chain states (getFirstRuneIndex (states ! unat i)) js" "sorted_wrt (\<lambda>a b. rune_of states a < rune_of states b) js"
    using trieD(3) [OF T] by (auto simp: sorted_runes_def)
  have "?B = {j \<in> set js. rune_of states j = r}" by (simp add: via_def edge_Rune_chain [OF js(1)])
  note m = matchRunes_eq [OF T js this]
  have "B = ?B \<union> ?B'" using Cons.prems(2) by (simp add: via_insert [of _ _ i "set is"])
  moreover note Cons.IH [OF _ refl]
  ultimately show ?case using Cons.prems(1) i by (simp add: m index_def closure_Un Un_ac)
qed (simp add: closure_Un)

text \<open>An order in which the keys of a map may be visited.\<close>

definition visits_all :: "map_order \<Rightarrow> bool" where
  "visits_all order \<longleftrightarrow> (\<forall>A. set (order A) = A)"

abbreviation in_range :: "states \<Rightarrow> uint32 set \<Rightarrow> bool" where
  "in_range states A \<equiv> \<forall>i \<in> A. unat i < length states"

definition base :: "states \<Rightarrow> rune \<Rightarrow> uint32 set \<Rightarrow> uint32 set \<Rightarrow> uint32 set \<Rightarrow> uint32 set" where
  "base states c C S D = (if c = slash then D else S) \<union> via states (Rune c) C"

abbreviation live :: "states \<Rightarrow> uint32 set \<Rightarrow> bool" where
  "live states A \<equiv> \<exists>k \<in> A. getHasPositiveEndState (states ! unat k)"

lemma WriteRune_eq:
  assumes T: "trie states" and order: "visits_all order" and r: "in_range states C" "in_range states S" "in_range states D"
    and B: "B = base states c C S D" and C': "C' = closure states B" and S': "S' = (if c = slash then {} else S) \<union> stars states B"
    and D': "D' = D \<union> via states StarStarSlash B"
  shows "WriteRune order c (matcher states C S D) = returnR (live states C' \<or> live states S' \<or> live states D', matcher states C' S' D')"
proof -
  have o: "set (order A) = A" for A using order by (simp add: visits_all_def)
  show ?thesis
    unfolding WriteRune_def Let_def ss_clear_eq [of _ states] using r
    by (cases "c = slash")
      (simp_all add: o expandStates_eq [OF T] matchStates_eq [OF T _ refl] C' S' D' B base_def closure_Un Un_assoc del: via_simps(3,4))
qed

section \<open>What the sets mean\<close>

definition states_after :: "states \<Rightarrow> rune list \<Rightarrow> uint32 set" where
  "states_after states w = {k. \<exists>ts. reach states 0 ts k \<and> tmatch ts w}"

definition stars_after :: "states \<Rightarrow> rune list \<Rightarrow> uint32 set" where
  "stars_after states w = {k. \<exists>ts. reach states 0 (ts @ [Star]) k \<and> tmatch (ts @ [Star]) w}"

definition starStarSlashes_after :: "states \<Rightarrow> rune list \<Rightarrow> uint32 set" where
  "starStarSlashes_after states w = {k. \<exists>ts. reach states 0 (ts @ [StarStarSlash]) k \<and> pmatch ts w}"

abbreviation matcher_after :: "states \<Rightarrow> rune list \<Rightarrow> Matcher" where
  "matcher_after states w \<equiv> matcher states (states_after states w) (stars_after states w) (starStarSlashes_after states w)"

lemma ex_tokens: "(\<exists>ts. P ts) \<longleftrightarrow> P [] \<or> (\<exists>ts r. P (ts @ [Rune r])) \<or> (\<exists>ts. P (ts @ [Star])) \<or> (\<exists>ts. P (ts @ [StarStarSlash]))"
  by (metis rev_exhaust token.exhaust)

lemma via_states_after: "k \<in> via states t (states_after states w) \<longleftrightarrow> (\<exists>ts. reach states 0 (ts @ [t]) k \<and> tmatch ts w)"
  unfolding via_def states_after_def reach_snoc by blast

lemma states_after_Nil:
  "states_after states [] = {0} \<union> via states Star (states_after states []) \<union> via states StarStarSlash (states_after states [])"
proof (rule set_eqI)
  fix k
  have "k \<in> states_after states [] \<longleftrightarrow>
      k = 0 \<or> (\<exists>ts. reach states 0 (ts @ [Star]) k \<and> tmatch ts []) \<or> (\<exists>ts. reach states 0 (ts @ [StarStarSlash]) k \<and> tmatch ts [])"
    unfolding states_after_def mem_Collect_eq ex_tokens [of "\<lambda>ts. reach states 0 ts k \<and> tmatch ts []"]
      tmatch_Rune tmatch_Star tmatch_StarStarSlash by simp
  then show "k \<in> states_after states [] \<longleftrightarrow>
      k \<in> {0} \<union> via states Star (states_after states []) \<union> via states StarStarSlash (states_after states [])"
    unfolding Un_iff via_states_after by blast
qed

lemma states_after_snoc:
  "states_after states (w @ [c]) = base states c (states_after states w) (stars_after states w) (starStarSlashes_after states w)
     \<union> via states Star (states_after states (w @ [c])) \<union> via states StarStarSlash (states_after states (w @ [c]))"
proof (rule set_eqI)
  fix k
  have "k \<in> states_after states (w @ [c]) \<longleftrightarrow>
      (\<exists>ts. reach states 0 (ts @ [Rune c]) k \<and> tmatch ts w)
      \<or> (\<exists>ts. reach states 0 (ts @ [Star]) k \<and> tmatch ts (w @ [c])) \<or> c \<noteq> slash \<and> k \<in> stars_after states w
      \<or> (\<exists>ts. reach states 0 (ts @ [StarStarSlash]) k \<and> tmatch ts (w @ [c])) \<or> c = slash \<and> k \<in> starStarSlashes_after states w"
    unfolding states_after_def mem_Collect_eq ex_tokens [of "\<lambda>ts. reach states 0 ts k \<and> tmatch ts (w @ [c])"]
      tmatch_Rune tmatch_Star tmatch_StarStarSlash stars_after_def starStarSlashes_after_def by auto
  then show "k \<in> states_after states (w @ [c]) \<longleftrightarrow> k \<in> base states c (states_after states w) (stars_after states w) (starStarSlashes_after states w)
     \<union> via states Star (states_after states (w @ [c])) \<union> via states StarStarSlash (states_after states (w @ [c]))"
    unfolding base_def Un_iff via_states_after by (cases "c = slash") auto
qed

lemma stars_after_step:
  "stars_after states [] = via states Star (states_after states [])"
  "stars_after states (w @ [c]) = (if c = slash then {} else stars_after states w) \<union> via states Star (states_after states (w @ [c]))"
  by (rule set_eqI, simp only: via_states_after stars_after_def mem_Collect_eq tmatch_Star)
    (rule set_eqI, cases "c = slash", auto simp: via_states_after stars_after_def tmatch_Star)

lemma starStarSlashes_after_step:
  "starStarSlashes_after states [] = via states StarStarSlash (states_after states [])"
  "starStarSlashes_after states (w @ [c]) = starStarSlashes_after states w \<union> via states StarStarSlash (states_after states (w @ [c]))"
  by (auto simp: via_states_after starStarSlashes_after_def pmatch_step)

definition reachable :: "states \<Rightarrow> uint32 set" where
  "reachable states = {k. \<exists>ts. reach states 0 ts k}"

lemma after_reachable:
  "states_after states w \<subseteq> reachable states" "stars_after states w \<subseteq> reachable states" "starStarSlashes_after states w \<subseteq> reachable states"
  by (auto simp: states_after_def stars_after_def starStarSlashes_after_def reachable_def)

lemma reachable_in_range: "trie states \<Longrightarrow> A \<subseteq> reachable states \<Longrightarrow> in_range states A"
  using reach_range [of states 0] trie_0 by (fastforce simp: reachable_def)

text \<open>Wildcards do not nest deeper than \<open>expandState3\<close> goes, and the loops over stars and \<open>**/\<close> add nothing to the map that they visit.\<close>

lemma flat_wildcards:
  assumes "dom_ok states" "A \<subseteq> reachable states"
  shows "via states Star (via states Star A) = {}" "via states StarStarSlash (via states Star A) = {}"
    "via states StarStarSlash (via states StarStarSlash A) = {}"
proof -
  have "wild_ok [t, t']" if q: "k \<in> via states t' (via states t A)" for t t' k
  proof -
    obtain i j where "i \<in> A" and e: "edge states i t j" "edge states j t' k" using q by (auto simp: via_def)
    then obtain ts where "reach states 0 ts i" using assms(2) unfolding reachable_def by blast
    then have "reach states 0 (ts @ [t, t']) k" using e by (auto simp: reach_append)
    then have "wild_ok (ts @ [t, t'])" using assms(1) unfolding dom_ok_def by blast
    then show ?thesis by (simp add: wild_ok_def successively_append_iff)
  qed
  then show "via states Star (via states Star A) = {}" "via states StarStarSlash (via states Star A) = {}"
    "via states StarStarSlash (via states StarStarSlash A) = {}" by (fastforce simp: wild_ok_def)+
qed

lemma closure_unique:
  assumes "dom_ok states" "C \<subseteq> reachable states" "C = B \<union> via states Star C \<union> via states StarStarSlash C"
  shows "C = closure states B" "via states Star C = stars states B" "via states StarStarSlash C = via states StarStarSlash B"
proof -
  note f = flat_wildcards [OF assms(1,2)]
  show d: "via states StarStarSlash C = via states StarStarSlash B"
    using arg_cong [OF assms(3), of "via states StarStarSlash"] f by simp
  show s: "via states Star C = stars states B"
    using arg_cong [OF assms(3), of "via states Star"] f d by (simp add: stars_def)
  show "C = closure states B" using assms(3) d s by (auto simp: closure_def stars_def)
qed

lemma Initialize_after:
  assumes "trie states" "dom_ok states"
  shows "Initialize \<lparr>nfa_states = states\<rparr> m = returnR (matcher_after states [])"
proof -
  have m: "m\<lparr>m_states := states, currentStates := ss_clear (currentStates m), currentStars := ss_clear (currentStars m),
      currentStarStarSlashes := ss_clear (currentStarStarSlashes m)\<rparr> = matcher states {} {} {}"
    by (simp add: matcher_def ss_clear_eq [of _ states])
  note c = closure_unique [OF assms(2) after_reachable(1) states_after_Nil]
  show ?thesis unfolding Initialize_def NFA.simps m expandState3_eq [OF assms(1) trie_0 [OF assms(1)]]
    by (rule matcher_cong) (simp_all only: c [symmetric] stars_after_step starStarSlashes_after_step Un_empty_left)
qed

definition alive :: "states \<Rightarrow> rune list \<Rightarrow> bool" where
  "alive states w \<longleftrightarrow> live states (states_after states w) \<or> live states (stars_after states w) \<or> live states (starStarSlashes_after states w)"

lemma WriteRune_after:
  assumes T: "trie states" "dom_ok states" and order: "visits_all order"
  shows "WriteRune order c (matcher_after states w) = returnR (alive states (w @ [c]), matcher_after states (w @ [c]))"
proof -
  note c = closure_unique [OF T(2) after_reachable(1) states_after_snoc, of w c]
  note r = after_reachable [THEN reachable_in_range [OF T(1)]]
  show ?thesis unfolding alive_def
    by (rule WriteRune_eq [OF T(1) order r refl c(1)])
      (simp_all only: c(2,3) [symmetric] stars_after_step starStarSlashes_after_step)
qed

section \<open>Flags\<close>

text \<open>The flag of a state tells exactly whether it leads to a positive end state; that of the initial state is not used.\<close>

definition exact_flags :: "states \<Rightarrow> bool" where
  "exact_flags states \<longleftrightarrow> (\<forall>ts k. reach states 0 ts k \<longrightarrow> ts \<noteq> [] \<longrightarrow>
     getHasPositiveEndState (states ! unat k) = (\<exists>us. final states endStatePositive (ts @ us)))"

definition nfa_ok :: "states \<Rightarrow> bool" where
  "nfa_ok states \<longleftrightarrow> trie states \<and> dom_ok states \<and> exact_flags states"

lemma leads_final:
  assumes T: "trie states" and r: "reach states 0 ts k"
  shows "leads states k \<longleftrightarrow> (\<exists>us. final states endStatePositive (ts @ us))"
  using reach_det [OF T trie_0 [OF T] r] r unfolding leads_def final_def reach_append by blast

lemma flagged_nfa_ok:
  assumes A: "automaton states" and F: "flagged_from states 1 states'"
  shows "nfa_ok states'" "final states' e ts = final states e ts"
proof -
  have T: "trie states" and same: "same_but_flags states states'" using A F by (simp_all add: automaton_def flagged_from_def)
  note s = same_but_flags_trie [OF T same]
  show "final states' e ts = final states e ts" by (rule s(4))
  have "getHasPositiveEndState (states' ! unat k) = (\<exists>us. final states' endStatePositive (ts @ us))"
    if r: "reach states' 0 ts k" and ts: "ts \<noteq> []" for ts k
  proof -
    have k: "reach states 0 ts k" "unat k < length states" "k \<noteq> 0"
      using r ts reach_range [OF T trie_0 [OF T], of ts k] unfolding s(3) by auto
    then show ?thesis using F leads_final [OF T k(1)] unfolding s(4) flagged_from_def by (auto simp: Suc_le_eq unat_gt_0)
  qed
  then show "nfa_ok states'" using A s unfolding nfa_ok_def exact_flags_def automaton_def dom_ok_def by simp
qed

lemma tokens_inhabited: "\<exists>v. tmatch ts v"
proof (induction ts)
  case (Cons t ts)
  moreover have "\<exists>u. lang t u" by (cases t) (auto intro: exI [of _ "[]"])
  ultimately show ?case unfolding tmatch_Cons by blast
qed simp

lemma alive_iff:
  assumes N: "nfa_ok states" and w: "w \<noteq> []"
  shows "alive states w \<longleftrightarrow> (\<exists>ts v. final states endStatePositive ts \<and> tmatch ts (w @ v))"
proof
  have flag: "\<exists>us v. final states endStatePositive (ts @ us) \<and> tmatch us v"
    if "reach states 0 ts k" "ts \<noteq> []" "getHasPositiveEndState (states ! unat k)" for ts k
    using N that tokens_inhabited unfolding nfa_ok_def exact_flags_def by blast
  assume "alive states w"
  then consider (1) ts k where "reach states 0 ts k" "tmatch ts w" "getHasPositiveEndState (states ! unat k)"
    | (2) ts k where "reach states 0 (ts @ [StarStarSlash]) k" "pmatch ts w" "getHasPositiveEndState (states ! unat k)"
    unfolding alive_def states_after_def stars_after_def starStarSlashes_after_def by blast
  then show "\<exists>ts v. final states endStatePositive ts \<and> tmatch ts (w @ v)"
  proof cases
    case 1
    then have "ts \<noteq> []" using w by auto
    then obtain us v where "final states endStatePositive (ts @ us)" "tmatch us v" using flag 1 by blast
    moreover have "tmatch (ts @ us) (w @ v)" using 1(2) calculation(2) unfolding tmatch_append by blast
    ultimately show ?thesis by blast
  next
    case 2
    obtain u x where u: "w = u @ x" "tmatch ts u" using 2(2) by (auto simp: pmatch_def)
    obtain us v where us: "final states endStatePositive ((ts @ [StarStarSlash]) @ us)" "tmatch us v" using flag [OF 2(1) _ 2(3)] by blast
    have "tmatch (ts @ [StarStarSlash]) (u @ x @ [slash])" unfolding tmatch_append tmatch_single using u(2) by fastforce
    then have "tmatch ((ts @ [StarStarSlash]) @ us) ((u @ x @ [slash]) @ v)" unfolding tmatch_append [of "ts @ [StarStarSlash]"] using us(2) by blast
    then show ?thesis using us(1) u(1) by (metis append.assoc)
  qed
next
  assume "\<exists>ts v. final states endStatePositive ts \<and> tmatch ts (w @ v)"
  then obtain ts v where f: "final states endStatePositive ts" and m: "tmatch ts (w @ v)" by blast
  from m obtain ts1 ts2 where ts: "ts = ts1 @ ts2" and p: "tmatch ts1 w \<or> (\<exists>ts0. ts1 = ts0 @ [StarStarSlash] \<and> pmatch ts0 w)"
    by (rule tmatch_split)
  obtain k where k: "reach states 0 ts1 k" using f unfolding ts final_def reach_append by blast
  have "ts1 \<noteq> []" using p w by auto
  then have "getHasPositiveEndState (states ! unat k)" using N k f ts unfolding nfa_ok_def exact_flags_def by blast
  then show "alive states w" using p k unfolding alive_def states_after_def starStarSlashes_after_def by blast
qed

section \<open>Matching a path\<close>

definition matches :: "states \<Rightarrow> rune list \<Rightarrow> bool" where
  "matches states w \<longleftrightarrow> (\<exists>ts. final states endStatePositive ts \<and> tmatch ts w)
     \<and> \<not> (\<exists>ts e. endStatePositive < e \<and> final states e ts \<and> tmatch ts w)"

lemma max_end_state_max:
  "in_range states (set is) \<Longrightarrow> \<exists>e'. max_end_state states is e = returnR e' \<and> e \<le> e' \<and> (\<forall>i \<in> set is. getEndState (states ! unat i) \<le> e')
     \<and> (e' = e \<or> (\<exists>i \<in> set is. getEndState (states ! unat i) = e'))"
proof (induction "is" arbitrary: e)
  case (Cons i "is")
  let ?e = "if e < getEndState (states ! unat i) then getEndState (states ! unat i) else e"
  obtain e' where "max_end_state states is ?e = returnR e'" "?e \<le> e'" "\<forall>i \<in> set is. getEndState (states ! unat i) \<le> e'"
     "e' = ?e \<or> (\<exists>i \<in> set is. getEndState (states ! unat i) = e')"
    using Cons.IH [of ?e] Cons.prems by auto
  then show ?case using Cons.prems by (intro exI [of _ e']) (auto simp: index_def split: if_splits)
qed simp

lemma IsMatch_after:
  assumes T: "trie states" and order: "visits_all order"
  shows "IsMatch order (matcher_after states w) = returnR (matches states w)"
proof -
  have o: "set (order A) = A" for A using order by (simp add: visits_all_def)
  let ?C = "states_after states w"
  have "in_range states (set (order ?C))" unfolding o by (rule reachable_in_range [OF T after_reachable(1)])
  then obtain e where e: "max_end_state states (order ?C) endStateNone = returnR e" "\<forall>i \<in> ?C. getEndState (states ! unat i) \<le> e"
      "e = endStateNone \<or> (\<exists>i \<in> ?C. getEndState (states ! unat i) = e)"
    using max_end_state_max [of "order ?C" states endStateNone] unfolding o by blast
  have f: "(\<exists>i \<in> ?C. getEndState (states ! unat i) = e') \<longleftrightarrow> (\<exists>ts. final states e' ts \<and> tmatch ts w)" for e'
    unfolding states_after_def final_def by blast
  have "e = endStatePositive \<longleftrightarrow> matches states w"
  proof
    assume "e = endStatePositive"
    then show "matches states w" using e(2,3) f unfolding matches_def by (metis endStateNone_def endStatePositive_def not_less zero_neq_one)
  next
    assume "matches states w"
    then have 1: "\<exists>i \<in> ?C. getEndState (states ! unat i) = endStatePositive" and 2: "\<not> (\<exists>e' > endStatePositive. \<exists>i \<in> ?C. getEndState (states ! unat i) = e')"
      unfolding matches_def f by blast+
    have "endStatePositive \<le> e" using 1 e(2) by force
    then show "e = endStatePositive" using 2 e(3) by (auto simp: endStateNone_def endStatePositive_def order_less_le)
  qed
  then show ?thesis using e(1) by (simp add: IsMatch_def)
qed

lemma write_runes_after:
  assumes N: "nfa_ok states" and order: "visits_all order"
  shows "\<exists>b m'. write_runes order v (matcher_after states w) = returnR (b, m') \<and> (b \<longrightarrow> m' = matcher_after states (w @ v))
    \<and> (\<not> b \<longrightarrow> \<not> matches states (w @ v))"
proof (induction v arbitrary: w)
  case (Cons c v)
  have T: "trie states" "dom_ok states" using N by (simp_all add: nfa_ok_def)
  show ?case
  proof (cases "alive states (w @ [c])")
    case True
    then show ?thesis using Cons.IH [of "w @ [c]"] by (simp add: WriteRune_after [OF T order])
  next
    case False
    then have "\<not> matches states (w @ c # v)" using alive_iff [OF N, of "w @ [c]"] unfolding matches_def by auto
    then show ?thesis using False by (auto simp: WriteRune_after [OF T order] intro!: exI [of _ False])
  qed
qed (simp add: exI [of _ True])

text \<open>A path is matched by writing its runes until none can lead to a match any more.\<close>

definition match_path :: "map_order \<Rightarrow> NFA \<Rightarrow> Matcher \<Rightarrow> rune list \<Rightarrow> bool run" where
  "match_path order nfa m path =
     bindR (Initialize nfa m) (\<lambda>m. bindR (write_runes order path m) (\<lambda>(b, m). if b then IsMatch order m else returnR False))"

lemma match_path_eq:
  assumes N: "nfa_ok states" and order: "visits_all order"
  shows "match_path order \<lparr>nfa_states = states\<rparr> m path = returnR (matches states path)"
proof -
  have T: "trie states" "dom_ok states" using N by (simp_all add: nfa_ok_def)
  obtain b m' where "write_runes order path (matcher_after states []) = returnR (b, m')" "b \<longrightarrow> m' = matcher_after states path"
      "\<not> b \<longrightarrow> \<not> matches states path"
    using write_runes_after [OF N order, of path "[]"] by (elim exE conjE) simp
  then show ?thesis by (cases b) (simp_all add: match_path_def Initialize_after [OF T] IsMatch_after [OF T(1) order])
qed

section \<open>The automata that the constructors build\<close>

definition pattern_matches :: "rune list \<Rightarrow> rune list \<Rightarrow> bool" where
  "pattern_matches p w \<longleftrightarrow> (\<exists>ts \<in> set (pattern_tokens p). tmatch ts w)"

definition glob_matches :: "rune list list \<Rightarrow> rune list list \<Rightarrow> rune list \<Rightarrow> bool" where
  "glob_matches includes excludes w \<longleftrightarrow> (\<exists>p \<in> set includes. pattern_matches p w) \<and> \<not> (\<exists>p \<in> set excludes. pattern_matches p w)"

lemma above_positive: "endStatePositive < e \<Longrightarrow> e \<noteq> 0 \<and> e \<noteq> endStatePositive"
  by (auto simp: endStatePositive_def)

lemma NewNFAFromPatterns_cases:
  assumes v: "valid_runes includes" "valid_runes excludes"
  obtains (ok) nfa where "NewNFAFromPatterns includes excludes = returnR nfa" "\<forall>p \<in> set includes \<union> set excludes. well_formed p"
      "nfa_ok (nfa_states nfa)" "\<And>w. matches (nfa_states nfa) w = glob_matches includes excludes w"
      "\<And>ts. final (nfa_states nfa) endStatePositive ts \<longleftrightarrow>
        (\<exists>p \<in> set includes. ts \<in> set (pattern_tokens p)) \<and> \<not> (\<exists>p \<in> set excludes. ts \<in> set (pattern_tokens p))"
  | (error) err where "NewNFAFromPatterns includes excludes = failR err" "err = malformed \<or> err = ErrOther 0"
      "(\<exists>p \<in> set includes \<union> set excludes. \<not> well_formed p) \<or> 2 ^ 21 \<le> 1 + sum_list (map length (includes @ excludes))"
proof -
  have e: "endStatePositive < 2 ^ 21" "endStateNegative < 2 ^ 21" by (simp_all add: endStatePositive_def endStateNegative_def)
  from automaton_start(1) v(1) e(1) show thesis
  proof (cases rule: addPatterns_spec)
    case 1: (ok states1)
    from 1(2) v(2) e(2) show thesis
    proof (cases rule: addPatterns_spec)
      case 2: (ok states2)
      obtain states3 where p: "propagateHasPositiveEndState states2 = returnR states3" "flagged_from states2 1 states3"
        using propagateHasPositiveEndState_correct 2(2) unfolding automaton_def by blast
      note f = flagged_nfa_ok [OF 2(2) p(2)]
      have fin: "final states3 e' ts \<longleftrightarrow> (if \<exists>p \<in> set excludes. ts \<in> set (pattern_tokens p) then e' = endStateNegative
          else if \<exists>p \<in> set includes. ts \<in> set (pattern_tokens p) then e' = endStatePositive else False)" if "e' \<noteq> 0" for e' ts
        using 2(5) [OF that] 1(5) [OF that] that unfolding f(2) automaton_start(2) by simp
      have pos: "final states3 endStatePositive ts \<longleftrightarrow>
          (\<exists>p \<in> set includes. ts \<in> set (pattern_tokens p)) \<and> \<not> (\<exists>p \<in> set excludes. ts \<in> set (pattern_tokens p))" for ts
        using fin [of endStatePositive ts] by (simp add: endStatePositive_def endStateNegative_def)
      have neg: "(\<exists>e > endStatePositive. final states3 e ts) \<longleftrightarrow> (\<exists>p \<in> set excludes. ts \<in> set (pattern_tokens p))" for ts
      proof -
        have "final states3 e' ts \<longleftrightarrow> (\<exists>p \<in> set excludes. ts \<in> set (pattern_tokens p)) \<and> e' = endStateNegative" if "endStatePositive < e'" for e'
          using fin [of e' ts] above_positive [OF that] by simp
        moreover have "endStatePositive < endStateNegative" by (simp add: endStatePositive_def endStateNegative_def)
        ultimately show ?thesis by blast
      qed
      have "matches states3 w = glob_matches includes excludes w" for w
        unfolding matches_def glob_matches_def pattern_matches_def using pos neg by blast
      then show thesis using 1(1,3) 2(1,3) p(1) f(1) pos by (intro ok [of "\<lparr>nfa_states = states3\<rparr>"]) (auto simp: NewNFAFromPatterns_def)
    next
      case 2: (error err)
      then show thesis using 1(1,4) by (intro error [of err]) (auto simp: NewNFAFromPatterns_def)
    qed
  next
    case 1: (error err)
    then show thesis by (intro error [of err]) (auto simp: NewNFAFromPatterns_def)
  qed
qed

lemma suffix_tokens_match: "slash \<notin> set s \<Longrightarrow> tmatch (suffix_tokens s) w \<longleftrightarrow> suffix s w"
proof -
  assume "slash \<notin> set s"
  have r: "tmatch (map Rune s) v \<longleftrightarrow> v = s" for v
    by (induction s arbitrary: v) (auto simp: tmatch_Cons)
  have all: "tmatch [StarStarSlash, Star] u" for u
  proof (induction u rule: rev_induct)
    case (snoc c u)
    have "tmatch ([StarStarSlash] @ [Star]) (u @ [c])"
      using snoc unfolding tmatch_Star by (cases "c = slash") auto
    then show ?case by simp
  qed (simp add: tmatch_Cons)
  have "tmatch ([StarStarSlash, Star] @ map Rune s) w \<longleftrightarrow> suffix s w"
    unfolding tmatch_append suffix_def using r all by blast
  then show ?thesis by (simp add: suffix_tokens_def)
qed

lemma NewNFAFromSuffixes_cases:
  assumes v: "valid_runes ss"
  obtains (ok) nfa where "NewNFAFromSuffixes ss = returnR nfa" "\<forall>s \<in> set ss. slash \<notin> set s"
      "nfa_ok (nfa_states nfa)" "\<And>w. matches (nfa_states nfa) w \<longleftrightarrow> (\<exists>s \<in> set ss. suffix s w)"
  | (error) err where "NewNFAFromSuffixes ss = failR err" "err = malformed \<or> err = ErrOther 0"
      "(\<exists>s \<in> set ss. slash \<in> set s) \<or> 2 ^ 21 \<le> 1 + (\<Sum>s \<leftarrow> ss. length s + 2)"
proof -
  from automaton_start(1) v show thesis
  proof (cases rule: addSuffixes_spec)
    case 1: (ok states1)
    obtain states2 where p: "propagateHasPositiveEndState states1 = returnR states2" "flagged_from states1 1 states2"
      using propagateHasPositiveEndState_correct 1(2) unfolding automaton_def by blast
    note f = flagged_nfa_ok [OF 1(2) p(2)]
    have fin: "final states2 e' ts \<longleftrightarrow> ts \<in> suffix_tokens ` set ss \<and> e' = endStatePositive" if "e' \<noteq> 0" for e' ts
      using 1(4) [OF that] that unfolding f(2) automaton_start(2) by auto
    have pos: "final states2 endStatePositive ts \<longleftrightarrow> ts \<in> suffix_tokens ` set ss" for ts
      using fin [of endStatePositive ts] by (simp add: endStatePositive_def)
    have neg: "\<not> final states2 e ts" if "endStatePositive < e" for e ts
      using fin [of e ts] above_positive [OF that] by simp
    have "matches states2 w \<longleftrightarrow> (\<exists>s \<in> set ss. tmatch (suffix_tokens s) w)" for w
      unfolding matches_def using neg by (auto simp: pos)
    then show thesis using 1(1,3) p(1) f(1) suffix_tokens_match
      by (intro ok [of "\<lparr>nfa_states = states2\<rparr>"]) (auto simp: NewNFAFromSuffixes_def)
  next
    case 1: (error err)
    then show thesis by (intro error [of err]) (auto simp: NewNFAFromSuffixes_def)
  qed
qed

end
