(* ===== verification/Glob_Properties.thy ===== *)
theory Glob_Properties
  imports Glob_Matching
begin

text \<open>
  The properties of the glob automata and of the sets of ignored directories that are built on them.
\<close>

section \<open>The automata that match nothing and everything\<close>

lemma flag_start_ok:
  assumes "nfa_ok states"
  shows "nfa_ok (states[0 := setHasPositiveEndState (states ! 0)])"
    "matches (states[0 := setHasPositiveEndState (states ! 0)]) w = matches states w"
proof -
  let ?s = "states[0 := setHasPositiveEndState (states ! 0)]"
  have T: "trie states" using assms by (simp add: nfa_ok_def)
  have 0: "0 < length states" using trie_0 [OF T] by simp
  have same: "same_but_flags states ?s" using 0 by (auto simp: same_but_flags_def nth_list_update state_simps)
  note s = same_but_flags_trie [OF T same]
  show "matches ?s w = matches states w" unfolding matches_def s(4) ..
  have "unat k \<noteq> 0" if "reach states 0 ts k" "ts \<noteq> []" for ts k using reach_range [OF T trie_0 [OF T] that(1)] that(2) by simp
  then have "exact_flags ?s" using assms unfolding nfa_ok_def exact_flags_def s(3,4) by simp
  then show "nfa_ok ?s" using assms s unfolding nfa_ok_def dom_ok_def by simp
qed

lemma everything_compiled: "addPatterns [zero_state] [[asterisk, asterisk]] endStatePositive = returnR
   [setStarStarSlashIndex 1 zero_state, setStarIndex 2 zero_state, setEndState endStatePositive zero_state]"
  by (simp add: addPattern_def pattern_step_def pattern_end_def walk_starStarSlash_def getOrAddStarStarSlash_def index_def
     state_simps addState_eq walk_star_def getOrAddStar_def update_def Let_def)

lemma everything_propagated: "NewNFAFromPatterns [[asterisk, asterisk]] [] = returnR \<lparr>nfa_states =
   [setStarStarSlashIndex 1 zero_state, setHasPositiveEndState (setStarIndex 2 zero_state), setHasPositiveEndState (setEndState endStatePositive zero_state)]\<rparr>"
  unfolding NewNFAFromPatterns_def everything_compiled
  by (simp add: propagateHasPositiveEndState_def leads_to_positive_def any_rune_positive.simps [of _ 0] index_def state_simps endStatePositive_def)

lemma everything_states: "nfa_states NFAMatchingEverything =
   [setHasPositiveEndState (setStarStarSlashIndex 1 zero_state), setHasPositiveEndState (setStarIndex 2 zero_state),
    setHasPositiveEndState (setEndState endStatePositive zero_state)]"
  by (simp add: NFAMatchingEverything_def setHasPositiveEndState_def setStarStarSlashIndex_def setStarIndex_def setEndState_def
    zero_state_def endStatePositive_def stateBits)

lemma everything_ok: "nfa_ok (nfa_states NFAMatchingEverything)" "matches (nfa_states NFAMatchingEverything) w"
proof -
  let ?p = "[asterisk, asterisk] :: rune list"
  have v: "valid_runes [?p]" "valid_runes []" by (simp_all add: valid_rune_def)
  have wf: "well_formed ?p" and tok: "pattern_tokens ?p = [[StarStarSlash, Star]]"
    by (simp_all add: well_formed_def pattern_tokens_def)
  have all: "tmatch [StarStarSlash, Star] w" using suffix_tokens_match [of "[]" w] by (simp add: suffix_tokens_def)
  from v show "nfa_ok (nfa_states NFAMatchingEverything)" "matches (nfa_states NFAMatchingEverything) w"
  proof (atomize (full), cases rule: NewNFAFromPatterns_cases)
    case (ok nfa)
    have "nfa_states NFAMatchingEverything = (nfa_states nfa)[0 := setHasPositiveEndState (nfa_states nfa ! 0)]"
      using ok(1) unfolding everything_propagated everything_states by auto
    then show "nfa_ok (nfa_states NFAMatchingEverything) \<and> matches (nfa_states NFAMatchingEverything) w"
      using flag_start_ok [OF ok(3)] ok(4) [of w] all by (simp add: glob_matches_def pattern_matches_def tok)
  qed (simp add: everything_propagated)
qed

lemma nothing_ok: "nfa_ok (nfa_states NFAMatchingNothing)" "\<not> matches (nfa_states NFAMatchingNothing) w"
proof -
  have T: "trie [zero_state]" "dom_ok [zero_state]" using automaton_start(1) by (simp_all add: automaton_def)
  have "ts = []" if "reach [zero_state] 0 ts k" for ts k using reach_range [OF T(1) trie_0 [OF T(1)] that] by auto
  then show "nfa_ok (nfa_states NFAMatchingNothing)" using T unfolding nfa_ok_def NFAMatchingNothing_def exact_flags_def by auto
  show "\<not> matches (nfa_states NFAMatchingNothing) w"
    by (simp add: NFAMatchingNothing_def matches_def automaton_start(2) endStatePositive_def)
qed

section \<open>Ignored directories\<close>

lemma id_matches_eq:
  assumes N: "nfa_ok (nfa_states (id_nfa d))" and order: "visits_all order"
  obtains d' where "id_matches order (Some d) path = returnR (path \<noteq> [] \<and> matches (nfa_states (id_nfa d)) path, Some d')" "id_nfa d' = id_nfa d"
proof (cases "path = []")
  case True
  then show thesis using that [of d] by (simp add: id_matches_def)
next
  case False
  let ?s = "nfa_states (id_nfa d)"
  have T: "trie ?s" "dom_ok ?s" using N by (simp_all add: nfa_ok_def)
  obtain b m' where w: "write_runes order path (matcher_after ?s []) = returnR (b, m')" "b \<longrightarrow> m' = matcher_after ?s path" "\<not> b \<longrightarrow> \<not> matches ?s path"
    using write_runes_after [OF N order, of path "[]"] by (elim exE conjE) simp
  have i: "Initialize (id_nfa d) (id_matcher d) = returnR (matcher_after ?s [])" using Initialize_after [OF T, of "id_matcher d"] by (cases "id_nfa d") simp
  show thesis
  proof (rule that [of "d\<lparr>id_matcher := m'\<rparr>"])
    show "id_matches order (Some d) path = returnR (path \<noteq> [] \<and> matches ?s path, Some (d\<lparr>id_matcher := m'\<rparr>))"
      unfolding id_matches_def using False w by (cases b) (simp_all add: i IsMatch_after [OF T(1) order])
  qed simp
qed

definition self_or_ancestor :: "rune list \<Rightarrow> rune list \<Rightarrow> bool" where
  "self_or_ancestor q path \<longleftrightarrow> q = path \<or> prefix (q @ [slash]) path"

lemma self_or_ancestor_Nil: "self_or_ancestor q [] \<longleftrightarrow> q = []"
  by (auto simp: self_or_ancestor_def)

lemma ex_self_or_ancestor:
  "(\<exists>q. self_or_ancestor q (r # rs) \<and> P q) \<longleftrightarrow> r = slash \<and> P [] \<or> (\<exists>q. self_or_ancestor q rs \<and> P (r # q))"
proof -
  have "self_or_ancestor q (r # rs) \<longleftrightarrow> q = [] \<and> r = slash \<or> (\<exists>q'. q = r # q' \<and> self_or_ancestor q' rs)" for q
    by (cases q) (auto simp: self_or_ancestor_def)
  then show ?thesis by metis
qed

lemma contains_loop_eq:
  assumes order: "visits_all order"
  shows "nfa_ok (nfa_states (id_nfa d)) \<Longrightarrow> \<exists>d'. contains_loop order before rest (Some d) =
    returnR (\<exists>q. self_or_ancestor q rest \<and> before @ q \<noteq> [] \<and> matches (nfa_states (id_nfa d)) (before @ q), Some d') \<and> id_nfa d' = id_nfa d"
proof (induction rest arbitrary: before d)
  case Nil
  obtain d' where "id_matches order (Some d) before = returnR (before \<noteq> [] \<and> matches (nfa_states (id_nfa d)) before, Some d')" "id_nfa d' = id_nfa d"
    using id_matches_eq [OF Nil order] by metis
  then show ?case unfolding self_or_ancestor_Nil contains_loop.simps by (intro exI [of _ d']) (simp only: simp_thms append_Nil2)
next
  case (Cons r rest)
  let ?m = "matches (nfa_states (id_nfa d))"
  have e: "(\<exists>q. self_or_ancestor q (r # rest) \<and> before @ q \<noteq> [] \<and> ?m (before @ q)) \<longleftrightarrow> r = slash \<and> before \<noteq> [] \<and> ?m before
      \<or> (\<exists>q. self_or_ancestor q rest \<and> (before @ [r]) @ q \<noteq> [] \<and> ?m ((before @ [r]) @ q))"
    unfolding ex_self_or_ancestor [of r rest "\<lambda>q. before @ q \<noteq> [] \<and> ?m (before @ q)"] by simp
  obtain d1 where d1: "id_matches order (Some d) before = returnR (before \<noteq> [] \<and> ?m before, Some d1)" "id_nfa d1 = id_nfa d"
    using id_matches_eq [OF Cons.prems order] by metis
  note IH = Cons.IH [of d "before @ [r]"] Cons.IH [of d1 "before @ [r]"]
  show ?case unfolding e
  proof (cases "r = slash \<and> \<not> (before \<noteq> [] \<and> ?m before)")
    case True
    then show "\<exists>d'. contains_loop order before (r # rest) (Some d) = returnR (r = slash \<and> before \<noteq> [] \<and> ?m before
      \<or> (\<exists>q. self_or_ancestor q rest \<and> (before @ [r]) @ q \<noteq> [] \<and> ?m ((before @ [r]) @ q)), Some d') \<and> id_nfa d' = id_nfa d"
      using IH(2) d1 Cons.prems by auto
  next
    case False
    then show "\<exists>d'. contains_loop order before (r # rest) (Some d) = returnR (r = slash \<and> before \<noteq> [] \<and> ?m before
      \<or> (\<exists>q. self_or_ancestor q rest \<and> (before @ [r]) @ q \<noteq> [] \<and> ?m ((before @ [r]) @ q)), Some d') \<and> id_nfa d' = id_nfa d"
      using IH(1) d1 Cons.prems by auto
  qed
qed

section \<open>The type of a matcher\<close>

text \<open>
  The sets of a matcher contain states of its automaton, and their flags are those of their elements. The automaton is
  one whose edges lead to states that exist.
\<close>

definition typed_matcher :: "Matcher \<Rightarrow> bool" where
  "typed_matcher m \<longleftrightarrow> trie (m_states m)
     \<and> (\<forall>s \<in> {currentStates m, currentStars m, currentStarStarSlashes m}. in_range (m_states m) (ss_states s) \<and> s = flagged_set (m_states m) (ss_states s))"

lemma typed_matcherE:
  assumes "typed_matcher m"
  obtains states C S D where "m = matcher states C S D" "trie states" "in_range states C" "in_range states S" "in_range states D"
  using assms by (intro that [of "m_states m" "ss_states (currentStates m)" "ss_states (currentStars m)" "ss_states (currentStarStarSlashes m)"])
    (auto simp: typed_matcher_def matcher_def)

lemma typed_matcherI: "trie states \<Longrightarrow> in_range states C \<Longrightarrow> in_range states S \<Longrightarrow> in_range states D \<Longrightarrow> typed_matcher (matcher states C S D)"
  by (simp add: typed_matcher_def)

lemma via_in_range: "trie states \<Longrightarrow> in_range states A \<Longrightarrow> in_range states (via states t A)"
  using trieD(4) by (fastforce simp: via_def)

lemma closure_in_range:
  assumes T: "trie states" and A: "in_range states A"
  shows "in_range states (closure states A) \<and> in_range states (stars states A)"
  using A via_in_range [OF T A] via_in_range [OF T via_in_range [OF T A, of StarStarSlash], of Star] by (simp add: closure_def stars_def ball_Un)

lemma typed_WriteRune:
  assumes "typed_matcher m" "visits_all order"
  obtains b m' where "WriteRune order c m = returnR (b, m')" "typed_matcher m'" "m_states m' = m_states m"
proof -
  obtain states C S D where m: "m = matcher states C S D" and T: "trie states" and r: "in_range states C" "in_range states S" "in_range states D"
    using assms(1) by (rule typed_matcherE)
  have B: "in_range states (base states c C S D)" using r via_in_range [OF T r(1)] by (auto simp: base_def)
  show thesis
    by (rule that [OF WriteRune_eq [OF T assms(2) r refl refl refl refl, of c, folded m]])
      (use closure_in_range [OF T B] via_in_range [OF T B] r T in \<open>auto simp: m ball_Un intro!: typed_matcherI\<close>)
qed

lemma typed_Initialize:
  assumes "trie (nfa_states nfa)"
  obtains m' where "Initialize nfa m = returnR m'" "typed_matcher m'" "m_states m' = nfa_states nfa"
proof -
  let ?s = "nfa_states nfa"
  have 0: "in_range ?s {0}" using trie_0 [OF assms] by simp
  have m: "m\<lparr>m_states := ?s, currentStates := ss_clear (currentStates m), currentStars := ss_clear (currentStars m),
      currentStarStarSlashes := ss_clear (currentStarStarSlashes m)\<rparr> = matcher ?s {} {} {}"
    by (simp add: matcher_def ss_clear_eq [of _ ?s])
  show thesis using that [OF _ typed_matcherI [OF assms]] closure_in_range [OF assms 0] via_in_range [OF assms 0] trie_0 [OF assms]
    by (simp add: Initialize_def m expandState3_eq [OF assms] del: via_simps(3,4))
qed

lemma NFA_eta: "\<lparr>nfa_states = nfa_states nfa\<rparr> = nfa"
  by simp

section \<open>Properties\<close>

lemma visits_all_sorted: "visits_all sorted_list_of_set"
  by (simp add: visits_all_def)

text \<open>
  C8. Matching is exact. Well-formed patterns that are not too long compile, and a path matches the automaton exactly if it matches
  one of the patterns to include and none of those to exclude, in whichever order the matcher visits its sets of states.
\<close>

theorem glob_matching_correct:
  assumes "valid_runes includes" "valid_runes excludes" "\<forall>p \<in> set includes \<union> set excludes. well_formed p"
    and "1 + sum_list (map length (includes @ excludes)) < 2 ^ 21" and "visits_all order"
  shows "\<exists>nfa. NewNFAFromPatterns includes excludes = returnR nfa \<and>
    (\<forall>m path. match_path order nfa m path = returnR (glob_matches includes excludes path))"
  using assms(1,2)
proof (cases rule: NewNFAFromPatterns_cases)
  case (ok nfa)
  then show ?thesis using match_path_eq [OF ok(3) assms(5)] by (cases nfa) simp
next
  case (error err)
  then show ?thesis using assms(3,4) by auto
qed

theorem glob_matching_correct_witness:
  "\<exists>nfa. NewNFAFromPatterns [[0x61, 0x2f, 0x2a, 0x2a], [0x2a, 0x63]] [[0x61, 0x2f, 0x62]] = returnR nfa
    \<and> match_path sorted_list_of_set nfa zero_matcher [0x61, 0x2f, 0x62, 0x63] = returnR True
    \<and> match_path sorted_list_of_set nfa zero_matcher [0x61] = returnR True
    \<and> match_path sorted_list_of_set nfa zero_matcher [0x61, 0x2f, 0x62] = returnR False"
proof -
  let ?i = "[[0x61, 0x2f, 0x2a, 0x2a], [0x2a, 0x63]] :: rune list list" and ?e = "[[0x61, 0x2f, 0x62]] :: rune list list"
  have "\<exists>nfa. NewNFAFromPatterns ?i ?e = returnR nfa \<and> (\<forall>m path. match_path sorted_list_of_set nfa m path = returnR (glob_matches ?i ?e path))"
    by (rule glob_matching_correct) (simp_all add: visits_all_sorted valid_rune_def well_formed_def component_tokens_def)
  moreover have "glob_matches ?i ?e [0x61, 0x2f, 0x62, 0x63]" "glob_matches ?i ?e [0x61]" "\<not> glob_matches ?i ?e [0x61, 0x2f, 0x62]"
    by code_simp+
  ultimately show ?thesis by fastforce
qed

text \<open>
  C26. Compilation never panics and always ends. A set of patterns compiles exactly if all of them are well-formed, unless the number of states
  exceeds what their indices can represent.
\<close>

theorem glob_compilation_outcome:
  assumes "valid_runes includes" "valid_runes excludes"
  shows "(\<exists>nfa. NewNFAFromPatterns includes excludes = returnR nfa) \<and> (\<forall>p \<in> set includes \<union> set excludes. well_formed p)
    \<or> (NewNFAFromPatterns includes excludes = failR malformed \<or> NewNFAFromPatterns includes excludes = failR (ErrOther 0))
      \<and> ((\<exists>p \<in> set includes \<union> set excludes. \<not> well_formed p) \<or> 2 ^ 21 \<le> 1 + sum_list (map length (includes @ excludes)))"
  using assms by (cases rule: NewNFAFromPatterns_cases) auto

theorem glob_compilation_outcome_witness:
  "\<not> (\<exists>nfa. NewNFAFromPatterns [[0x61, 0x2f, 0x2f, 0x62]] [] = returnR nfa)"
proof -
  have "valid_runes [[0x61, 0x2f, 0x2f, 0x62 :: rune]]" "valid_runes []" "\<not> well_formed [0x61, 0x2f, 0x2f, 0x62 :: rune]"
    by (simp_all add: valid_rune_def well_formed_def)
  then show ?thesis using glob_compilation_outcome [of "[[0x61, 0x2f, 0x2f, 0x62]]" "[]"] by auto
qed

text \<open>
  C9. The early exit of the matcher is exact: after a path that is not empty, writing a rune reports that matching may continue exactly if some
  continuation of the path matches a pattern to include that is not also a pattern to exclude.
\<close>

theorem glob_early_exit_exact:
  assumes "valid_runes includes" "valid_runes excludes" "visits_all order" "NewNFAFromPatterns includes excludes = returnR nfa"
  shows "\<exists>m0. Initialize nfa m = returnR m0 \<and> (\<forall>path m1 r. write_runes order path m0 = returnR (True, m1) \<longrightarrow>
    (\<exists>b m2. WriteRune order r m1 = returnR (b, m2) \<and>
      (b \<longleftrightarrow> (\<exists>rest ts. (\<exists>p \<in> set includes. ts \<in> set (pattern_tokens p)) \<and> \<not> (\<exists>p \<in> set excludes. ts \<in> set (pattern_tokens p))
         \<and> tmatch ts (path @ r # rest)))))"
  using assms(1,2)
proof (cases rule: NewNFAFromPatterns_cases)
  case (ok nfa')
  let ?s = "nfa_states nfa"
  have N: "nfa_ok ?s" and nfa: "nfa = \<lparr>nfa_states = ?s\<rparr>" using ok(1,3) assms(4) by (cases nfa, simp)+
  have T: "trie ?s" "dom_ok ?s" using N by (simp_all add: nfa_ok_def)
  have i: "Initialize nfa m = returnR (matcher_after ?s [])" by (subst nfa) (rule Initialize_after [OF T])
  have m1: "m1 = matcher_after ?s path" if "write_runes order path (matcher_after ?s []) = returnR (True, m1)" for path m1
    using write_runes_after [OF N assms(3), of path "[]"] that by (elim exE conjE) simp
  have fin: "final ?s endStatePositive ts \<longleftrightarrow>
      (\<exists>p \<in> set includes. ts \<in> set (pattern_tokens p)) \<and> \<not> (\<exists>p \<in> set excludes. ts \<in> set (pattern_tokens p))" for ts
    using ok(1,5) assms(4) by simp
  have al: "alive ?s (path @ [r]) \<longleftrightarrow> (\<exists>rest ts. (\<exists>p \<in> set includes. ts \<in> set (pattern_tokens p))
      \<and> \<not> (\<exists>p \<in> set excludes. ts \<in> set (pattern_tokens p)) \<and> tmatch ts (path @ r # rest))" for path r
    unfolding alive_iff [OF N, of "path @ [r]", simplified] fin by blast
  show ?thesis
  proof (rule exI [of _ "matcher_after ?s []"], rule conjI [OF i], intro allI impI)
    fix path m1 r
    assume "write_runes order path (matcher_after ?s []) = returnR (True, m1)"
    then have "m1 = matcher_after ?s path" by (rule m1)
    then have "WriteRune order r m1 = returnR (alive ?s (path @ [r]), matcher_after ?s (path @ [r]))"
      by (simp only: WriteRune_after [OF T assms(3)])
    then show "\<exists>b m2. WriteRune order r m1 = returnR (b, m2) \<and> (b \<longleftrightarrow> (\<exists>rest ts. (\<exists>p \<in> set includes. ts \<in> set (pattern_tokens p))
        \<and> \<not> (\<exists>p \<in> set excludes. ts \<in> set (pattern_tokens p)) \<and> tmatch ts (path @ r # rest)))"
      by (intro exI conjI) (assumption, rule al)
  qed
qed (use assms(4) in simp)

theorem glob_early_exit_exact_witness:
  "\<exists>nfa m0. NewNFAFromPatterns [[0x61]] [] = returnR nfa \<and> Initialize nfa zero_matcher = returnR m0
    \<and> (\<exists>m1. WriteRune sorted_list_of_set 0x61 m0 = returnR (True, m1))"
proof -
  have v: "valid_runes [[0x61]]" "valid_runes []" and w: "well_formed [0x61]" and t: "pattern_tokens [0x61] = [[Rune 0x61]]"
    by (simp_all add: valid_rune_def well_formed_def pattern_tokens_def component_tokens_def)
  from v obtain nfa where nfa: "NewNFAFromPatterns [[0x61]] [] = returnR nfa" by (cases rule: NewNFAFromPatterns_cases) (use w in simp_all)
  let ?cont = "\<lambda>w. \<exists>rest ts. (\<exists>p \<in> set [[0x61]]. ts \<in> set (pattern_tokens p)) \<and> \<not> (\<exists>p \<in> set []. ts \<in> set (pattern_tokens p)) \<and> tmatch ts (w rest)"
  from glob_early_exit_exact [OF v visits_all_sorted nfa, of zero_matcher]
  obtain m0 where m0: "Initialize nfa zero_matcher = returnR m0"
    and q: "\<forall>path m1 r. write_runes sorted_list_of_set path m0 = returnR (True, m1) \<longrightarrow>
      (\<exists>b m2. WriteRune sorted_list_of_set r m1 = returnR (b, m2) \<and> b = ?cont (\<lambda>rest. path @ r # rest))" by (elim exE conjE)
  have "write_runes sorted_list_of_set [] m0 = returnR (True, m0)" by simp
  from q [THEN spec, THEN spec, THEN spec [of _ "0x61"], THEN mp, OF this]
  obtain b m2 where w: "WriteRune sorted_list_of_set 0x61 m0 = returnR (b, m2)" and b: "b = ?cont (\<lambda>rest. [] @ 0x61 # rest)" by (elim exE conjE)
  have "tmatch [Rune 0x61] ([] @ 0x61 # [])" by simp
  then have b using b t by fastforce
  then show ?thesis using nfa m0 w by auto
qed

text \<open>The automaton for suffixes matches exactly the paths that end in one of them.\<close>

theorem suffix_matching_correct:
  assumes "valid_runes ss" "\<forall>s \<in> set ss. slash \<notin> set s" "1 + (\<Sum>s \<leftarrow> ss. length s + 2) < 2 ^ 21" "visits_all order"
  shows "\<exists>nfa. NewNFAFromSuffixes ss = returnR nfa \<and>
    (\<forall>m path. match_path order nfa m path = returnR (\<exists>s \<in> set ss. suffix s path))"
  using assms(1)
proof (cases rule: NewNFAFromSuffixes_cases)
  case (ok nfa)
  then show ?thesis using match_path_eq [OF ok(3) assms(4)] by (cases nfa) simp
next
  case (error err)
  then show ?thesis using assms(2,3) by auto
qed

theorem suffix_matching_correct_witness:
  "\<exists>nfa. NewNFAFromSuffixes [[0x2e, 0x63]] = returnR nfa \<and> match_path sorted_list_of_set nfa zero_matcher [0x61, 0x2f, 0x2e, 0x63] = returnR True"
proof -
  have "\<exists>nfa. NewNFAFromSuffixes [[0x2e, 0x63]] = returnR nfa \<and>
    (\<forall>m path. match_path sorted_list_of_set nfa m path = returnR (\<exists>s \<in> set [[0x2e, 0x63]]. suffix s path))"
    by (rule suffix_matching_correct) (simp_all add: visits_all_sorted valid_rune_def)
  then show ?thesis by (auto simp: suffix_def)
qed

text \<open>C40. The automaton that matches nothing matches no path, and the one that matches everything matches every path, also the empty one.\<close>

theorem predeclared_automata:
  assumes "visits_all order"
  shows "match_path order NFAMatchingNothing m path = returnR False \<and> match_path order NFAMatchingEverything m path = returnR True"
  using match_path_eq [OF nothing_ok(1) assms, of m path] match_path_eq [OF everything_ok(1) assms, of m path] nothing_ok(2) everything_ok(2)
  by (simp add: NFA_eta)

theorem predeclared_automata_witness:
  "match_path sorted_list_of_set NFAMatchingEverything zero_matcher [] = returnR True"
  using predeclared_automata [OF visits_all_sorted, of zero_matcher "[]"] by simp

text \<open>
  C25. A path is ignored exactly if a pattern matches it or one of the directories that contain it, and nothing is ignored without patterns. The
  answer does not depend on the paths that were asked for before.
\<close>

theorem ignored_directories_correct:
  assumes "valid_runes patterns" "visits_all order" "newIgnoredDirectories patterns = returnR d"
  shows "\<exists>d'. id_contains order d path = returnR (\<exists>q. self_or_ancestor q path \<and> q \<noteq> [] \<and> (\<exists>p \<in> set patterns. pattern_matches p q), d')
    \<and> (\<forall>path'. \<exists>d''. id_contains order d' path' = returnR (\<exists>q. self_or_ancestor q path' \<and> q \<noteq> [] \<and> (\<exists>p \<in> set patterns. pattern_matches p q), d''))"
proof (cases "patterns = []")
  case True
  have "contains_loop order before rest None = returnR (False, None)" for before rest
    by (induction rest arbitrary: before) (simp_all add: id_matches_def)
  then show ?thesis using True assms(3) by (simp add: newIgnoredDirectories_def id_contains_def)
next
  case False
  then obtain nfa where nfa: "NewNFAFromPatterns patterns [] = returnR nfa" and d: "d = Some \<lparr>id_nfa = nfa, id_matcher = zero_matcher\<rparr>"
    using assms(3) by (auto simp: newIgnoredDirectories_def)
  have "valid_runes []" by simp
  with assms(1) have N: "nfa_ok (nfa_states nfa)" and m: "\<And>w. matches (nfa_states nfa) w = (\<exists>p \<in> set patterns. pattern_matches p w)"
    using nfa by (cases rule: NewNFAFromPatterns_cases; auto simp: glob_matches_def)+
  have c: "\<exists>e'. id_contains order (Some e) path = returnR (\<exists>q. self_or_ancestor q path \<and> q \<noteq> [] \<and> (\<exists>p \<in> set patterns. pattern_matches p q), Some e') \<and> id_nfa e' = nfa"
    if "id_nfa e = nfa" for e path
    using contains_loop_eq [OF assms(2), of e "[]" path] N unfolding id_contains_def that m append_Nil by simp
  obtain e' where "id_contains order d path = returnR (\<exists>q. self_or_ancestor q path \<and> q \<noteq> [] \<and> (\<exists>p \<in> set patterns. pattern_matches p q), Some e')" "id_nfa e' = nfa"
    using c [of "\<lparr>id_nfa = nfa, id_matcher = zero_matcher\<rparr>" path] d by auto
  then show ?thesis using c [of e'] by (intro exI [of _ "Some e'"]) auto
qed

theorem ignored_directories_correct_witness:
  "\<exists>d d'. newIgnoredDirectories [[0x61]] = returnR d \<and> id_contains sorted_list_of_set d [0x61, 0x2f, 0x62] = returnR (True, d')"
proof -
  have v: "valid_runes [[0x61]]" "valid_runes []" and w: "well_formed [0x61]"
    by (simp_all add: valid_rune_def well_formed_def)
  from v obtain nfa where "NewNFAFromPatterns [[0x61]] [] = returnR nfa" by (cases rule: NewNFAFromPatterns_cases) (use w in simp_all)
  then obtain d where d: "newIgnoredDirectories [[0x61]] = returnR d" by (simp add: newIgnoredDirectories_def)
  have "self_or_ancestor [0x61] [0x61, 0x2f, 0x62]" "pattern_matches [0x61] [0x61]"
    by (simp add: self_or_ancestor_def) code_simp
  then have "\<exists>q. self_or_ancestor q [0x61, 0x2f, 0x62] \<and> q \<noteq> [] \<and> (\<exists>p \<in> set [[0x61]]. pattern_matches p q)" by auto
  then show ?thesis using ignored_directories_correct [OF v(1) visits_all_sorted d, of "[0x61, 0x2f, 0x62]"] d by auto
qed

text \<open>
  C24. Automata and matchers are well typed. The edges of an automaton that is compiled lead to states that exist, its lists of runes are sorted, and the
  sets of states of a matcher contain states of its automaton; hence initialising a matcher, writing runes and asking for a match never panic.
\<close>

theorem glob_types:
  assumes "valid_runes includes" "valid_runes excludes" "visits_all order"
  shows "(\<forall>nfa. NewNFAFromPatterns includes excludes = returnR nfa \<longrightarrow> trie (nfa_states nfa))
    \<and> (\<forall>nfa. NewNFAFromSuffixes includes = returnR nfa \<longrightarrow> trie (nfa_states nfa))
    \<and> (\<forall>nfa m. trie (nfa_states nfa) \<longrightarrow> (\<exists>m'. Initialize nfa m = returnR m' \<and> typed_matcher m'))
    \<and> (\<forall>m r. typed_matcher m \<longrightarrow> (\<exists>b m'. WriteRune order r m = returnR (b, m') \<and> typed_matcher m') \<and> (\<exists>b. IsMatch order m = returnR b))"
proof (intro conjI allI impI)
  show "trie (nfa_states nfa)" if "NewNFAFromPatterns includes excludes = returnR nfa" for nfa
    using assms(1,2) by (cases rule: NewNFAFromPatterns_cases) (use that in \<open>auto simp: nfa_ok_def\<close>)
  show "trie (nfa_states nfa)" if "NewNFAFromSuffixes includes = returnR nfa" for nfa
    using assms(1) by (cases rule: NewNFAFromSuffixes_cases) (use that in \<open>auto simp: nfa_ok_def\<close>)
  show "\<exists>m'. Initialize nfa m = returnR m' \<and> typed_matcher m'" if "trie (nfa_states nfa)" for nfa m
    using typed_Initialize [OF that] by blast
  fix m r
  assume m: "typed_matcher m"
  show "\<exists>b m'. WriteRune order r m = returnR (b, m') \<and> typed_matcher m'" using typed_WriteRune [OF m assms(3)] by blast
  have "in_range (m_states m) (set (order (ss_states (currentStates m))))" using m assms(3) by (simp add: typed_matcher_def visits_all_def)
  from max_end_state_max [OF this, of endStateNone] show "\<exists>b. IsMatch order m = returnR b" by (auto simp: IsMatch_def)
qed

theorem glob_types_witness:
  "\<exists>nfa m. NewNFAFromPatterns [[0x61]] [] = returnR nfa \<and> trie (nfa_states nfa) \<and> Initialize nfa zero_matcher = returnR m \<and> typed_matcher m"
proof -
  have v: "valid_runes [[0x61]]" "valid_runes []" and w: "well_formed [0x61]"
    by (simp_all add: valid_rune_def well_formed_def)
  from v obtain nfa where "NewNFAFromPatterns [[0x61]] [] = returnR nfa" by (cases rule: NewNFAFromPatterns_cases) (use w in simp_all)
  then show ?thesis using glob_types [OF v visits_all_sorted] by blast
qed

end
