(* ===== verification/Spec2Isabelle.thy ===== *)
theory Spec2Isabelle
  imports Float16 Varint Lossy_Map Sha256 Reference Limits Namespaces Epoch_List Periodic_Syncer Location_Blob_Map
    Location_Records Object_Store Local_Store Local_Configuration Sharding Flat_Backed Object_Decorators Glob_Properties
begin

text \<open>
  A verification development of Bonanza, a build system that keeps everything it computes in a store of
  immutable, content addressed objects that refer to each other.

  \<^bold>\<open>The program.\<close> An object consists of a list of references to other objects and a payload. Its reference is a fixed size
  string of bytes that holds the SHA-256 hash of the object, its size, its height in the graph of objects, the
  number of its references, and a bound on the total size of the objects above its leaves. Stores of objects are layered: a \<open>local\<close>
  store keeps objects, without looking at their references, in a ring of bytes in memory or on a block device, and finds them through a lossy
  hash map; \<open>flatbacked\<close> adds leases, which express that everything that an object refers to is present; \<open>sharded\<close>
  and \<open>mirrored\<close> distribute objects over stores and replicate them; other decorators translate errors, namespaces and leases, or
  cache. On top of the store, the build system evaluates Starlark code and runs actions; of that part, the automata that match
  paths against glob patterns and the sets of ignored directories are modelled.

  \<^bold>\<open>Conventions\<close> (\<open>Prelude\<close>). Machine integers are words of their width, so that arithmetic wraps around as it does in
  Go; byte slices are lists of 8 bit words, and strings are lists of bytes or of runes. A function that returns an error has a result of type
  \<open>go_error + 'a\<close>; indexing out of range and division by zero are the error \<open>Panic\<close>. Methods take the state of their object and
  return the new one. An interface is a record of functions over a type of states, and the contract that its
  users rely on is a locale, which is interpreted for every implementation that is modelled. A loop that is not known to end is a
  \<open>partial_function\<close> whose value \<open>None\<close> means that it does not return (\<open>Run\<close> composes such computations). Methods run one at a time; where the code
  releases a lock while it waits, what other goroutines do in the meantime is an argument. In \<open>Periodic_Syncer\<close> that is a sequence of steps
  on the epoch list, and a \<open>select\<close> is a loop that looks at its channels after each of them, so that it blocks if none becomes ready.

  \<^bold>\<open>The theories.\<close>
  \<^item> \<open>Float16\<close> (\<open>pkg/encoding/float16\<close>): rounding up yields the least upper bound that can be represented, and
    decoding is monotone.
  \<^item> \<open>Varint\<close> (\<open>pkg/encoding/varint\<close>): encoders and decoders in both directions against a reference encoding; round trips for every
    integer type, safety of the decoders on arbitrary bytes, and the range in which \<open>ReadForward\<close> loses the sign.
  \<^item> \<open>Sha256\<close> (\<open>crypto/sha256\<close> of the standard library) is defined completely, so that the references in witnesses are real ones. No
    theorem depends on the hash being free of collisions.
  \<^item> \<open>Reference\<close> (\<open>local_reference.go\<close>, \<open>contents.go\<close> and others in \<open>pkg/storage/object\<close>): \<open>NewContents\<close> and
    \<open>NewContentsFromFullData\<close> are inverse to each other, accept exactly the well-formed objects, and never panic.
  \<^item> \<open>Limits\<close> (\<open>limit.go\<close>): budgets for traversing a graph are returned exactly, and suffice for every child.
  \<^item> \<open>Namespaces\<close> (\<open>instance_name.go\<close>, \<open>namespace.go\<close>, \<open>global_reference.go\<close>).
  \<^item> \<open>Lossy_Map\<close> (\<open>pkg/ds/lossymap\<close>): a hash map of fixed size in which insertion displaces older records. The
    locales \<open>record_array\<close> and \<open>hash_map\<close> state what the map expects of the array it is built on; a lookup
    yields the newest value that is still present.
  \<^item> \<open>Epoch_List\<close>, \<open>Periodic_Syncer\<close> (\<open>*_epoch_list.go\<close>, \<open>periodic_syncer.go\<close>, \<open>directory_backed_persistent_state_store.go\<close>
    in \<open>pkg/storage/object/local\<close>): epochs group writes; only what was synchronized may survive a restart. The syncer
    returns exactly if it is woken up or cancelled. Locale \<open>epoch_list\<close>, for the volatile and the persistent list.
  \<^item> \<open>Location_Blob_Map\<close>, \<open>Location_Records\<close> (the other files of that package): rings of bytes that hold
    objects (locale \<open>location_blob_map\<close>), and records of where they are. On a block device one sector is lost to padding.
  \<^item> \<open>Object_Store\<close>, \<open>Local_Store\<close>, \<open>Local_Configuration\<close> (\<open>store.go\<close>, \<open>configuration.go\<close>): the composition. What is uploaded can
    be downloaded, downloads never yield data that does not match the reference, and a store that is reopened resumes after the
    data that it restored.
  \<^item> \<open>Sharding\<close> (\<open>pkg/storage/object/sharded\<close>): weighted rendezvous hashing with a fixed point logarithm. Adding shards moves
    data only to these, except between near ties if the maximum weight is raised, of which an example is given.
  \<^item> \<open>Flat_Backed\<close> (\<open>flatbacked\<close>): completeness is only reported with leases for all children (locale \<open>leases_map\<close>).
  \<^item> \<open>Object_Decorators\<close> (\<open>existenceprecondition\<close>, \<open>namespacemapping\<close>, \<open>leasemarshaling\<close>, \<open>readcaching\<close>, \<open>mirrored\<close>): with
    locales for downloaders, uploaders and marshalers of leases, and the properties of a stack of all of them.
  \<^item> \<open>Glob_NFA\<close> (\<open>pkg/glob\<close>, \<open>pkg/model/analysis/ignored_directories.go\<close>) holds the model of the automata and of the matcher. \<open>Glob_Trie\<close> shows that
    automata are tries of tokens, \<open>Glob_Patterns\<close> that compiling a pattern adds its tokens to the trie, \<open>Glob_Matching\<close> that
    the matcher tracks the tokens that match what was written so far, and \<open>Glob_Properties\<close> holds the
    theorems. The reference definition takes a pattern apart at its slashes.

  \<^bold>\<open>Bounds and hypotheses.\<close> Recursion stands for loops and is structural or has a termination proof; fuel occurs only where the source bounds the number of
  iterations itself (the attempts of the hash map). Block devices, directories, random generators, clocks, the Protobuf codec and the
  hash functions of third-party packages are arguments. What is assumed of a device (\<open>block_device\<close>: reads return what was written), of a directory
  (\<open>directory_laws\<close>) or of the order in which Go visits a map (\<open>visits_all\<close>) are named hypotheses, and the
  witnesses instantiate them. Theorems on locations assume that 64 bit locations do not wrap around, and those on globs that runes are at most
  \<open>0x10ffff\<close>; where a theorem has a bound of its own, its statement shows it.

  \<^bold>\<open>Not modelled.\<close> The binary form of glob automata (\<open>NFA.Bytes\<close>, \<open>NewNFAFromBytes\<close>); locks and the memory model; texts of error messages, only
  their codes; contexts, apart from their cancellation in \<open>Periodic_Syncer\<close>; metrics and logging. Of the other packages: gRPC clients and servers and
  code that is generated from Protobuf definitions are I/O and data without behaviour of their own; the scheduler, the lease
  renewing uploader, the uploader of graphs and the evaluator consist of goroutines whose behaviour is their interleaving with streams of messages;
  the analysis functions, Starlark values and directories are defined on generated message types and third-party interpreters; labels are
  defined by regular expressions; encryption and signatures rest on third-party and standard ciphers; the Bazel client, the browser and the
  main programs are user interfaces. The manifest lists all of them.
\<close>

end
